(* ===== verification/Prelude.thy ===== *)
theory Prelude
  imports Main "HOL-Library.Word"
begin

unbundle bit_operations_syntax

text \<open>
  Shared vocabulary of the development: the error classes the TypeScript code throws, the
  result type that carries them, JavaScript's 32-bit operators on numbers, and byte strings
  with their little-endian reading and writing.

  A JavaScript \<^emph>\<open>number\<close> or \<^emph>\<open>bigint\<close> that the code uses as an integer is an
  \<^typ>\<open>int\<close>.  A \<^emph>\<open>Uint8Array\<close> is a list of 8-bit words.  An exception is a value of
  \<open>error\<close>, one constructor per error class; the message text is not modelled.
\<close>

section \<open>Named collections\<close>

named_theorems res_simps \<open>sequencing of fallible steps\<close>
named_theorems js_simps \<open>JavaScript integer operators\<close>
named_theorems io_simps \<open>reading and writing byte buffers\<close>

section \<open>Errors and results\<close>

datatype error =
    DataReadError
  | UnexpectedDataError
  | NotImplementedError
  | InternalError
  | ImplementationError
  | MatterFlowError
  | ValidationOutOfBoundsError
  | DuplicateMessageError
  | BtpProtocolError
  | BtpFlowError
  | BleError
  | BleDisconnectedError
  | CryptoInputError
  | RangeError
  | TypeMismatch
  | CryptoDecryptError
  | GroupSessionNoKeyError
  | GroupSessionDecodeError
  | ReadError int
  | WriteError int
  | InvokeError int
  | SchemaImplementationError
  | ValidationError
  | ValidationDatatypeMismatchError
  | ValidationMandatoryFieldMissingError
  | TypeError
  | JsError

type_synonym 'a result = "error + 'a"

definition bindE :: "'e + 'a \<Rightarrow> ('a \<Rightarrow> 'e + 'b) \<Rightarrow> 'e + 'b" where
  "bindE m f = (case m of Inl e \<Rightarrow> Inl e | Inr x \<Rightarrow> f x)"

definition is_ok :: "'e + 'a \<Rightarrow> bool" where
  "is_ok m = (case m of Inl _ \<Rightarrow> False | Inr _ \<Rightarrow> True)"

lemma bindE_Inl [simp, res_simps]: "bindE (Inl e) f = Inl e"
  by (simp add: bindE_def)

lemma bindE_Inr [simp, res_simps]: "bindE (Inr x) f = f x"
  by (simp add: bindE_def)

lemma is_ok_simps [simp]: "is_ok (Inr x)" "\<not> is_ok (Inl e)"
  by (simp_all add: is_ok_def)

lemma is_ok_iff: "is_ok m \<longleftrightarrow> (\<exists>x. m = Inr x)"
  by (cases m) auto

lemma bindE_eq_Inr_iff: "bindE m f = Inr y \<longleftrightarrow> (\<exists>x. m = Inr x \<and> f x = Inr y)"
  by (cases m) auto

lemma bindE_eq_Inl_iff:
  "bindE m f = Inl e \<longleftrightarrow> m = Inl e \<or> (\<exists>x. m = Inr x \<and> f x = Inl e)"
  by (cases m) auto

lemma bindE_assoc: "bindE (bindE m f) g = bindE m (\<lambda>x. bindE (f x) g)"
  by (cases m) auto

lemma bindE_if [res_simps]:
  "bindE (if c then m else n) f = (if c then bindE m f else bindE n f)"
  by simp

lemma bindE_cong [fundef_cong]:
  "m = n \<Longrightarrow> (\<And>x. n = Inr x \<Longrightarrow> f x = g x) \<Longrightarrow> bindE m f = bindE n g"
  by (cases n) auto

section \<open>JavaScript integers\<close>

text \<open>
  The bitwise operators of JavaScript convert both operands to 32-bit integers
  (\<open>ToInt32\<close>), take a shift count modulo 32 and give a signed 32-bit result, except
  \<open>>>>\<close>, which gives an unsigned one.
\<close>

definition to_uint32 :: "int \<Rightarrow> int" where
  "to_uint32 x = take_bit 32 x"

definition to_int32 :: "int \<Rightarrow> int" where
  "to_int32 x = signed_take_bit 31 x"

definition js_and :: "int \<Rightarrow> int \<Rightarrow> int" where
  "js_and a b = to_int32 a AND to_int32 b"

definition js_or :: "int \<Rightarrow> int \<Rightarrow> int" where
  "js_or a b = to_int32 a OR to_int32 b"

definition js_xor :: "int \<Rightarrow> int \<Rightarrow> int" where
  "js_xor a b = to_int32 a XOR to_int32 b"

definition js_shl :: "int \<Rightarrow> int \<Rightarrow> int" where
  "js_shl a n = to_int32 (push_bit (nat (n mod 32)) (to_int32 a))"

definition js_shr :: "int \<Rightarrow> int \<Rightarrow> int" where
  "js_shr a n = drop_bit (nat (n mod 32)) (to_int32 a)"

definition js_ushr :: "int \<Rightarrow> int \<Rightarrow> int" where
  "js_ushr a n = drop_bit (nat (n mod 32)) (to_uint32 a)"

text \<open>
  JavaScript's \<open>%\<close> takes the sign of the dividend.
\<close>

definition js_rem :: "int \<Rightarrow> int \<Rightarrow> int" where
  "js_rem a b = sgn a * (\<bar>a\<bar> mod \<bar>b\<bar>)"

text \<open>
  \<open>Number(value)\<close> on a bigint rounds to the nearest double, ties to even: 53 significant
  bits are kept.  A JavaScript number is a double already, so the conversion leaves it alone.
  Magnitudes of \<open>2 ^ 1024\<close> and above, which would become \<open>Infinity\<close>, are outside the model.
\<close>

fun bit_length :: "nat \<Rightarrow> nat" where
  "bit_length n = (if n = 0 then 0 else Suc (bit_length (n div 2)))"

declare bit_length.simps [simp del]

definition round_to_double :: "int \<Rightarrow> int" where
  "round_to_double v =
    (let a = nat \<bar>v\<bar>; e = bit_length a - 53; q = a div 2 ^ e; r = a mod 2 ^ e;
         up = (2 * r > 2 ^ e \<or> (2 * r = 2 ^ e \<and> odd q))
     in if a < 2 ^ 53 then v
        else sgn v * int ((if up then q + 1 else q) * 2 ^ e))"

lemma round_to_double_small: "\<bar>v\<bar> < 2 ^ 53 \<Longrightarrow> round_to_double v = v"
  by (simp add: round_to_double_def Let_def nat_less_iff)

text \<open>For evaluation: the test on integers instead of naturals.\<close>

lemma round_to_double_code [code]:
  "round_to_double v = (if \<bar>v\<bar> < 9007199254740992 then v else
    (let a = nat \<bar>v\<bar>; e = bit_length a - 53; q = a div 2 ^ e; r = a mod 2 ^ e;
         up = (2 * r > 2 ^ e \<or> (2 * r = 2 ^ e \<and> odd q))
     in sgn v * int ((if up then q + 1 else q) * 2 ^ e)))"
  unfolding round_to_double_def Let_def by (simp add: nat_less_iff)

lemma to_uint32_range [simp]: "0 \<le> to_uint32 x" "to_uint32 x < 2 ^ 32"
  using take_bit_int_less_exp [of 32 x] by (simp_all add: to_uint32_def)

lemma to_uint32_id [js_simps]: "0 \<le> x \<Longrightarrow> x < 4294967296 \<Longrightarrow> to_uint32 x = x"
  by (simp add: to_uint32_def take_bit_int_eq_self)

lemma to_int32_id [js_simps]: "- 2147483648 \<le> x \<Longrightarrow> x < 2147483648 \<Longrightarrow> to_int32 x = x"
  by (simp add: to_int32_def signed_take_bit_int_eq_self)

lemma to_int32_id_nonneg [js_simps]: "0 \<le> x \<Longrightarrow> x < 2147483648 \<Longrightarrow> to_int32 x = x"
  by (simp add: to_int32_id)

lemma to_int32_high [js_simps]: "2147483648 \<le> x \<Longrightarrow> x < 4294967296 \<Longrightarrow> to_int32 x = x - 4294967296"
proof -
  assume x: "2147483648 \<le> x" "x < 4294967296"
  have "(x + 2147483648) mod 4294967296 = (x - 2147483648 + 4294967296) mod 4294967296"
    by (rule arg_cong [where f = "\<lambda>y. y mod 4294967296"]) simp
  also have "\<dots> = (x - 2147483648) mod 4294967296" by (rule mod_add_self2)
  also have "\<dots> = x - 2147483648" using x by simp
  finally show ?thesis
    by (simp add: to_int32_def signed_take_bit_eq_take_bit_shift take_bit_eq_mod)
qed

lemma to_int32_range: "- 2147483648 \<le> to_int32 x" "to_int32 x < 2147483648"
  using signed_take_bit_int_greater_eq_minus_exp [of 31 x] signed_take_bit_int_less_exp [of 31 x]
  by (simp_all add: to_int32_def)

lemma to_uint32_to_int32 [simp]: "to_uint32 (to_int32 x) = to_uint32 x"
  by (simp add: to_uint32_def to_int32_def take_bit_signed_take_bit)

lemma to_int32_to_uint32 [simp]: "to_int32 (to_uint32 x) = to_int32 x"
  by (simp add: to_uint32_def to_int32_def signed_take_bit_take_bit)

lemma js_or_small:
  "0 \<le> x \<Longrightarrow> x < 2 ^ 31 \<Longrightarrow> 0 \<le> y \<Longrightarrow> y < 2 ^ 31 \<Longrightarrow> js_or x y = x OR y"
  by (simp add: js_or_def to_int32_id)

lemma js_and_small:
  "0 \<le> x \<Longrightarrow> x < 2 ^ 31 \<Longrightarrow> 0 \<le> y \<Longrightarrow> y < 2 ^ 31 \<Longrightarrow> js_and x y = x AND y"
  by (simp add: js_and_def to_int32_id)

lemma js_or_eval:
  "0 \<le> x \<Longrightarrow> x < 256 \<Longrightarrow> 0 \<le> y \<Longrightarrow> y < 256 \<Longrightarrow> js_or x y = x OR y"
  "0 \<le> x \<Longrightarrow> x < 256 \<Longrightarrow> 0 \<le> y \<Longrightarrow> y < 256 \<Longrightarrow> js_and x y = x AND y"
  by (simp_all add: js_or_small js_and_small)

lemma js_and_high: "js_and i 0xffff0000 = push_bit 16 (drop_bit 16 (to_int32 i))"
proof -
  have m: "to_int32 0xffff0000 = push_bit 16 (- 1)" by (simp add: to_int32_def push_bit_eq_mult)
  show ?thesis unfolding js_and_def m by (rule bit_eqI) (auto simp: bit_simps)
qed

lemma js_and_high_half:
  assumes "0 \<le> i" "i < 2 ^ 32"
  shows "js_and i 0xffff0000 = 0 \<longleftrightarrow> i < 2 ^ 16"
proof -
  have "js_and i 0xffff0000 = 0 \<longleftrightarrow> to_int32 i div 65536 = 0"
    by (simp add: js_and_high push_bit_eq_mult drop_bit_eq_div)
  also have "\<dots> \<longleftrightarrow> i < 2 ^ 16"
    using assms to_int32_high [of i] to_int32_id [of i] by (cases "i < 2 ^ 31") (auto simp: zdiv_eq_0_iff)
  finally show ?thesis .
qed

lemma js_high_half: "0 \<le> i \<Longrightarrow> i < 2 ^ 32 \<Longrightarrow> js_ushr (js_and i 0xffff0000) 16 = i div 65536"
proof -
  assume i: "0 \<le> i" "i < 2 ^ 32"
  have "js_ushr (js_and i 0xffff0000) 16 = drop_bit 16 (take_bit 32 (to_int32 i))"
    unfolding js_and_high js_ushr_def to_uint32_def by (rule bit_eqI) (auto simp: bit_simps)
  also have "\<dots> = drop_bit 16 i"
    using i by (simp add: to_int32_def take_bit_signed_take_bit take_bit_int_eq_self)
  finally show ?thesis by (simp add: drop_bit_eq_div)
qed

lemma js_and_ffff: "js_and x 0xffff = x mod 65536"
proof -
  have m: "to_int32 0xffff = mask 16" by (simp add: to_int32_id mask_eq_exp_minus_1)
  have "to_int32 x AND mask 16 = take_bit 16 (to_int32 x)" by (simp add: take_bit_eq_mask)
  also have "\<dots> = take_bit 16 x" by (simp add: to_int32_def take_bit_signed_take_bit)
  finally show ?thesis by (simp add: js_and_def m take_bit_eq_mod)
qed

lemma or_low_part: "0 \<le> v \<Longrightarrow> v < 2 ^ k \<Longrightarrow> (x * 2 ^ k) OR v = x * 2 ^ k + v" for x v :: int
proof -
  assume v: "0 \<le> v" "v < 2 ^ k"
  then have "v = take_bit k v" by (simp add: take_bit_int_eq_self)
  then have "bit v n \<Longrightarrow> n < k" for n by (metis bit_take_bit_iff)
  then have "push_bit k x AND v = 0" using leD by (intro bit_eqI) (fastforce simp: bit_simps)
  then show ?thesis using disjunctive_add_eq_or [of "push_bit k x" v] by (simp add: push_bit_eq_mult)
qed

lemma js_ushr_16: "0 \<le> x \<Longrightarrow> x < 2 ^ 32 \<Longrightarrow> js_ushr x 16 = x div 65536"
  by (simp add: js_ushr_def to_uint32_id drop_bit_eq_div)

lemma high_part: "0 \<le> i \<Longrightarrow> i < b \<Longrightarrow> (h * b + i) div b = h" "0 \<le> i \<Longrightarrow> i < b \<Longrightarrow> (h * b + i) mod b = i" for i b h :: int
  by simp_all

lemma nonneg_less_pow2_iff: "0 \<le> (x :: int) \<Longrightarrow> x < 2 ^ n \<longleftrightarrow> take_bit n x = x"
  by (simp add: take_bit_int_eq_self_iff)

lemma push_bit_less: "0 \<le> (x :: int) \<Longrightarrow> x < 2 ^ len \<Longrightarrow> off + len \<le> m \<Longrightarrow> push_bit off x < 2 ^ m"
proof -
  assume x: "0 \<le> x" "x < 2 ^ len" and m: "off + len \<le> m"
  have "push_bit off x < 2 ^ len * 2 ^ off" using x by (simp add: push_bit_eq_mult)
  also have "\<dots> \<le> 2 ^ m" using m by (simp flip: power_add add: add.commute)
  finally show ?thesis .
qed

lemma or_less_pow2: "0 \<le> (x :: int) \<Longrightarrow> x < 2 ^ n \<Longrightarrow> 0 \<le> y \<Longrightarrow> y < 2 ^ n \<Longrightarrow> x OR y < 2 ^ n"
  by (simp add: nonneg_less_pow2_iff take_bit_or)

lemma js_shl_small:
  assumes "0 \<le> x" "x < 2 ^ len" "off + len \<le> 31"
  shows "js_shl x (int off) = push_bit off x"
proof -
  have "off \<le> 31" using assms by simp
  then have "nat (int off mod 32) = off" by simp
  moreover have "x < 2 ^ 31"
    using assms(2) power_increasing [of len 31 "2 :: int"] assms(3) by linarith
  moreover have "push_bit off x < 2 ^ 31" using push_bit_less [OF assms] .
  ultimately show ?thesis using assms(1) by (simp add: js_shl_def to_int32_id_nonneg)
qed

lemma js_and_ff: "js_and x 0xff = x mod 256"
proof -
  have m: "to_int32 0xff = mask 8" by (simp add: to_int32_id mask_eq_exp_minus_1)
  have "to_int32 x AND mask 8 = take_bit 8 (to_int32 x)" by (simp add: take_bit_eq_mask)
  also have "\<dots> = take_bit 8 x" by (simp add: to_int32_def take_bit_signed_take_bit)
  finally show ?thesis by (simp add: js_and_def m take_bit_eq_mod)
qed

lemma js_shr_small: "0 \<le> x \<Longrightarrow> x < 2147483648 \<Longrightarrow> n < 32 \<Longrightarrow> js_shr x (int n) = x div 2 ^ n"
  by (simp add: js_shr_def to_int32_id drop_bit_eq_div flip: nat_mod_as_int)

text \<open>A value above bit \<open>k\<close> joined with one below it.\<close>

lemma js_or_parts:
  assumes "0 \<le> v" "v < 2 ^ k" "0 \<le> x" "x < 2 ^ len" "k + len \<le> 31"
  shows "js_or v (js_shl x (int k)) = x * 2 ^ k + v" "js_or (js_shl x (int k)) v = x * 2 ^ k + v"
proof -
  have s: "js_shl x (int k) = x * 2 ^ k" using js_shl_small [OF assms(3-5)] by (simp add: push_bit_eq_mult)
  have "x * 2 ^ k < 2 ^ 31" using push_bit_less [OF assms(3-5)] by (simp add: push_bit_eq_mult)
  moreover have "v < 2 ^ 31" using assms(2) power_increasing [of k 31 "2 :: int"] assms(5) by linarith
  ultimately show "js_or v (js_shl x (int k)) = x * 2 ^ k + v" "js_or (js_shl x (int k)) v = x * 2 ^ k + v"
    using assms or_low_part [of v k x] by (simp_all add: s js_or_small or.commute)
qed

section \<open>Byte strings\<close>

type_synonym byte = "8 word"
type_synonym bytes = "byte list"

primrec le_bytes :: "nat \<Rightarrow> int \<Rightarrow> bytes" where
  "le_bytes 0 v = []"
| "le_bytes (Suc n) v = word_of_int v # le_bytes n (v div 256)"

primrec le_value :: "bytes \<Rightarrow> int" where
  "le_value [] = 0"
| "le_value (b # bs) = uint b + 256 * le_value bs"

lemma le_bytes_numeral:
  "le_bytes (numeral k) v = word_of_int v # le_bytes (pred_numeral k) (v div 256)"
  by (simp add: numeral_eq_Suc)

lemma uint_byte_of_int [simp]: "uint (word_of_int v :: byte) = v mod 256"
  by (simp add: uint_word_of_int)

lemma length_le_bytes [simp]: "length (le_bytes n v) = n"
  by (induction n arbitrary: v) simp_all

lemma uint_byte_of_nat [simp]: "uint (word_of_nat n :: byte) = int n mod 256"
  using uint_byte_of_int [of "int n"] by simp

lemma uint_byte_bounds: "0 \<le> uint (b :: byte)" "uint (b :: byte) < 256"
  using uint_lt2p [of b] by simp_all

lemma le_value_nonneg [simp]: "0 \<le> le_value bs"
  by (induction bs) simp_all

lemma le_value_less: "le_value bs < 256 ^ length bs"
proof (induction bs)
  case (Cons b bs)
  define k :: int where "k = 256 ^ length bs"
  have "le_value bs < k" using Cons.IH by (simp add: k_def)
  then have "uint b + 256 * le_value bs < 256 * k"
    using uint_byte_bounds(2) [of b] by linarith
  then show ?case by (simp add: k_def)
qed simp

lemma mod_256_step: "0 \<le> k \<Longrightarrow> (v :: int) mod 256 + 256 * (v div 256 mod k) = v mod (256 * k)"
  by (simp add: zmod_zmult2_eq)

lemma le_value_le_bytes: "le_value (le_bytes n v) = v mod 256 ^ n"
  by (induction n arbitrary: v) (simp_all add: uint_word_of_int mod_256_step)

lemma byte_256: "(256 :: byte) = 0"
  by (rule word_uint_eqI) simp

lemma le_bytes_le_value: "le_bytes (length bs) (le_value bs) = bs"
proof (induction bs)
  case (Cons b bs)
  have "word_of_int (uint b + 256 * le_value bs) = b"
    by (simp add: byte_256)
  moreover have "(uint b + 256 * le_value bs) div 256 = le_value bs"
    using uint_byte_bounds [of b] by (simp add: div_add1_eq div_pos_pos_trivial)
  ultimately show ?case using Cons.IH by simp
qed simp

lemma le_bytes_mod: "le_bytes n (v mod 256 ^ n) = le_bytes n v"
  using le_bytes_le_value [of "le_bytes n v"] by (simp add: le_value_le_bytes)

lemma le_bytes_inject: "le_bytes n v = le_bytes n w \<longleftrightarrow> v mod 256 ^ n = w mod 256 ^ n"
  by (metis le_bytes_mod le_value_le_bytes)

end
