(* ===== verification/Js_Text.thy ===== *)
theory Js_Text
  imports Prelude
begin

text \<open>
  The text encodings the code takes from its platform.  A JavaScript string is a list of
  UTF-16 code units.  \<open>text_encode\<close> is \<open>TextEncoder.encode\<close>: surrogate pairs are joined, a
  lone surrogate becomes U+FFFD, and each scalar value is written in UTF-8.  \<open>text_decode\<close>
  is \<open>TextDecoder.decode\<close> with its default options: the UTF-8 decoder of the Encoding
  standard, which replaces malformed sequences by U+FFFD and drops a leading byte order mark.
\<close>

type_synonym js_string = "16 word list"

section \<open>Code units and scalar values\<close>

definition is_lead :: "16 word \<Rightarrow> bool" where
  "is_lead u \<longleftrightarrow> 0xD800 \<le> unat u \<and> unat u < 0xDC00"

definition is_trail :: "16 word \<Rightarrow> bool" where
  "is_trail u \<longleftrightarrow> 0xDC00 \<le> unat u \<and> unat u < 0xE000"

definition lone_scalar :: "16 word \<Rightarrow> nat" where
  "lone_scalar u = (if is_lead u \<or> is_trail u then 0xFFFD else unat u)"

fun utf16_scalars :: "js_string \<Rightarrow> nat list" where
  "utf16_scalars [] = []"
| "utf16_scalars [u] = [lone_scalar u]"
| "utf16_scalars (u # v # us) =
    (if is_lead u \<and> is_trail v
     then (0x10000 + (unat u - 0xD800) * 0x400 + (unat v - 0xDC00)) # utf16_scalars us
     else lone_scalar u # utf16_scalars (v # us))"

definition scalar_utf16 :: "nat \<Rightarrow> js_string" where
  "scalar_utf16 c =
    (if c < 0x10000 then [of_nat c]
     else [of_nat (0xD800 + (c - 0x10000) div 0x400), of_nat (0xDC00 + (c - 0x10000) mod 0x400)])"

fun well_formed :: "js_string \<Rightarrow> bool" where
  "well_formed [] = True"
| "well_formed [u] = (\<not> is_lead u \<and> \<not> is_trail u)"
| "well_formed (u # v # us) =
    (if is_lead u \<and> is_trail v then well_formed us
     else \<not> is_lead u \<and> \<not> is_trail u \<and> well_formed (v # us))"

definition is_scalar :: "nat \<Rightarrow> bool" where
  "is_scalar c \<longleftrightarrow> c < 0x110000 \<and> \<not> (0xD800 \<le> c \<and> c < 0xE000)"

section \<open>UTF-8\<close>

definition scalar_utf8 :: "nat \<Rightarrow> bytes" where
  "scalar_utf8 c = map of_nat
    (if c < 0x80 then [c]
     else if c < 0x800 then [0xC0 + c div 64, 0x80 + c mod 64]
     else if c < 0x10000 then [0xE0 + c div 4096, 0x80 + c div 64 mod 64, 0x80 + c mod 64]
     else [0xF0 + c div 262144, 0x80 + c div 4096 mod 64, 0x80 + c div 64 mod 64,
           0x80 + c mod 64])"

definition text_encode :: "js_string \<Rightarrow> bytes" where
  "text_encode s = concat (map scalar_utf8 (utf16_scalars s))"

text \<open>
  The decoder keeps the code point built so far, the number of continuation bytes still
  missing and the range the next continuation byte has to lie in.
\<close>

function utf8_scalars :: "nat \<Rightarrow> nat \<Rightarrow> nat \<Rightarrow> nat \<Rightarrow> bytes \<Rightarrow> nat list" where
  "utf8_scalars cp need lo hi [] = (if need = 0 then [] else [0xFFFD])"
| "utf8_scalars cp 0 lo hi (b # bs) =
    (let x = unat b in
     if x < 0x80 then x # utf8_scalars 0 0 0x80 0xBF bs
     else if 0xC2 \<le> x \<and> x \<le> 0xDF then utf8_scalars (x mod 32) 1 0x80 0xBF bs
     else if 0xE0 \<le> x \<and> x \<le> 0xEF then
       utf8_scalars (x mod 16) 2 (if x = 0xE0 then 0xA0 else 0x80)
         (if x = 0xED then 0x9F else 0xBF) bs
     else if 0xF0 \<le> x \<and> x \<le> 0xF4 then
       utf8_scalars (x mod 8) 3 (if x = 0xF0 then 0x90 else 0x80)
         (if x = 0xF4 then 0x8F else 0xBF) bs
     else 0xFFFD # utf8_scalars 0 0 0x80 0xBF bs)"
| "utf8_scalars cp (Suc n) lo hi (b # bs) =
    (let x = unat b in
     if x < lo \<or> hi < x then 0xFFFD # utf8_scalars 0 0 0x80 0xBF (b # bs)
     else let cp' = cp * 64 + x mod 64 in
       if n = 0 then cp' # utf8_scalars 0 0 0x80 0xBF bs
       else utf8_scalars cp' n 0x80 0xBF bs)"
  by pat_completeness auto
termination
  by (relation "measures [\<lambda>(cp, need, lo, hi, bs). length bs, \<lambda>(cp, need, lo, hi, bs). need]") auto

definition strip_bom :: "nat list \<Rightarrow> nat list" where
  "strip_bom cs = (case cs of c # cs' \<Rightarrow> if c = 0xFEFF then cs' else cs | [] \<Rightarrow> [])"

definition text_decode :: "bytes \<Rightarrow> js_string" where
  "text_decode bs = concat (map scalar_utf16 (strip_bom (utf8_scalars 0 0 0x80 0xBF bs)))"

section \<open>Round trip\<close>

lemma of_nat_unat_id: "of_nat (unat u) = (u :: 16 word)"
  by simp

lemma unat16_less: "unat (u :: 16 word) < 65536"
  by (rule order_less_le_trans [OF unsigned_less]) simp

lemma pair_scalar:
  assumes "is_lead u" "is_trail v"
  obtains a b where "unat u = 0xD800 + a" "unat v = 0xDC00 + b" "a < 0x400" "b < 0x400"
proof
  show "unat u = 0xD800 + (unat u - 0xD800)" "unat v = 0xDC00 + (unat v - 0xDC00)"
    "unat u - 0xD800 < 0x400" "unat v - 0xDC00 < 0x400"
    using assms unfolding is_lead_def is_trail_def by linarith+
qed

lemma lone_scalar_id: "\<not> is_lead u \<Longrightarrow> \<not> is_trail u \<Longrightarrow>
    lone_scalar u = unat u \<and> is_scalar (unat u) \<and> scalar_utf16 (unat u) = [u]"
  using unat16_less [of u] unfolding lone_scalar_def is_scalar_def scalar_utf16_def is_lead_def is_trail_def
  by (auto simp: not_le)

lemma utf16_scalars_scalar: "well_formed s \<Longrightarrow> list_all is_scalar (utf16_scalars s)"
proof (induction s rule: utf16_scalars.induct)
  case (2 u)
  then show ?case by (simp add: lone_scalar_id)
next
  case (3 u v us)
  show ?case
  proof (cases "is_lead u \<and> is_trail v")
    case True
    then obtain a b where "unat u = 0xD800 + a" "unat v = 0xDC00 + b" "a < 0x400" "b < 0x400"
      using pair_scalar by blast
    then show ?thesis using True 3 by (simp add: is_scalar_def)
  next
    case False
    then have "well_formed (v # us)" "\<not> is_lead u" "\<not> is_trail u"
      using "3.prems" by (simp_all split: if_splits)
    then show ?thesis using "3.IH"(2) False by (simp add: lone_scalar_id)
  qed
qed simp

lemma utf16_roundtrip: "well_formed s \<Longrightarrow> concat (map scalar_utf16 (utf16_scalars s)) = s"
proof (induction s rule: utf16_scalars.induct)
  case (2 u)
  then show ?case by (simp add: lone_scalar_id)
next
  case (3 u v us)
  show ?case
  proof (cases "is_lead u \<and> is_trail v")
    case True
    then obtain a b where ab: "unat u = 0xD800 + a" "unat v = 0xDC00 + b" "a < 0x400" "b < 0x400"
      using pair_scalar by blast
    have "u = of_nat (0xD800 + a)" "v = of_nat (0xDC00 + b)"
      using ab(1,2) by (metis of_nat_unat_id)+
    then have "scalar_utf16 (0x10000 + a * 0x400 + b) = [u, v]"
      using ab(4) by (simp add: scalar_utf16_def)
    then show ?thesis using True "3.prems" "3.IH"(1) ab by simp
  next
    case False
    then have "well_formed (v # us)" "\<not> is_lead u" "\<not> is_trail u"
      using "3.prems" by (simp_all split: if_splits)
    then show ?thesis using "3.IH"(2) False by (simp add: lone_scalar_id)
  qed
qed simp

lemma mod_offset: "m dvd k \<Longrightarrow> a < m \<Longrightarrow> (k + a) mod m = (a :: nat)"
  by (auto elim!: dvdE)

lemma unat_of_nat_byte: "n < 256 \<Longrightarrow> unat (of_nat n :: byte) = n"
  by (simp add: unat_of_nat)

lemma utf8_start1: "a < 128 \<Longrightarrow>
    utf8_scalars cp 0 lo hi (of_nat a # bs) = a # utf8_scalars 0 0 0x80 0xBF bs"
  by (simp add: unat_of_nat_byte)

lemma utf8_start2: "2 \<le> a \<Longrightarrow> a < 32 \<Longrightarrow>
    utf8_scalars cp 0 lo hi (of_nat (0xC0 + a) # bs) = utf8_scalars a 1 0x80 0xBF bs"
  by (simp only: utf8_scalars.simps unat_of_nat_byte Let_def)
     (simp add: unat_of_nat_byte mod_offset del: of_nat_add)

lemma utf8_start3: "a < 16 \<Longrightarrow>
    utf8_scalars cp 0 lo hi (of_nat (0xE0 + a) # bs) =
      utf8_scalars a 2 (if a = 0 then 0xA0 else 0x80) (if a = 13 then 0x9F else 0xBF) bs"
  by (simp only: utf8_scalars.simps unat_of_nat_byte Let_def)
     (simp add: unat_of_nat_byte mod_offset del: of_nat_add)

lemma utf8_start4: "a < 5 \<Longrightarrow>
    utf8_scalars cp 0 lo hi (of_nat (0xF0 + a) # bs) =
      utf8_scalars a 3 (if a = 0 then 0x90 else 0x80) (if a = 4 then 0x8F else 0xBF) bs"
  by (simp only: utf8_scalars.simps unat_of_nat_byte Let_def)
     (simp add: unat_of_nat_byte mod_offset del: of_nat_add)

lemma utf8_cont: "r < 64 \<Longrightarrow> lo \<le> 0x80 + r \<Longrightarrow> 0x80 + r \<le> hi \<Longrightarrow>
    utf8_scalars cp (Suc n) lo hi (of_nat (0x80 + r) # bs) =
      (if n = 0 then (cp * 64 + r) # utf8_scalars 0 0 0x80 0xBF bs
       else utf8_scalars (cp * 64 + r) n 0x80 0xBF bs)"
  by (simp only: utf8_scalars.simps unat_of_nat_byte Let_def)
     (simp add: unat_of_nat_byte mod_offset del: of_nat_add)

declare utf8_scalars.simps(2,3) [simp del]

lemma utf8_scalar_roundtrip:
  assumes c: "is_scalar c"
  shows "utf8_scalars 0 0 0x80 0xBF (scalar_utf8 c @ bs) = c # utf8_scalars 0 0 0x80 0xBF bs"
proof -
  define d where "d = c mod 64"
  define b where "b = c div 64 mod 64"
  define a where "a = c div 4096 mod 64"
  define q where "q = c div 262144"
  have lt: "d < 64" "b < 64" "a < 64" by (simp_all add: d_def b_def a_def)
  have split: "c = ((q * 64 + a) * 64 + b) * 64 + d"
  proof -
    have "c div 4096 = c div 64 div 64" "c div 262144 = c div 64 div 64 div 64"
      by (simp_all flip: div_mult2_eq)
    then show ?thesis unfolding d_def b_def a_def q_def by simp
  qed
  have hi: "c < 0x110000" and surr: "c < 0xD800 \<or> 0xE000 \<le> c"
    using c by (auto simp: is_scalar_def)
  consider "c < 0x80" | "0x80 \<le> c" "c < 0x800" | "0x800 \<le> c" "c < 0x10000" | "0x10000 \<le> c"
    by linarith
  then show ?thesis
  proof cases
    case 1
    then show ?thesis by (simp add: scalar_utf8_def utf8_start1)
  next
    case 2
    have z: "q = 0" "a = 0" using split 2 by simp_all
    have "c div 64 = b" using split lt z by simp
    then have enc: "scalar_utf8 c = [of_nat (0xC0 + b), of_nat (0x80 + d)]"
      using 2 by (simp add: scalar_utf8_def d_def)
    have b: "2 \<le> b" "b < 32" and val: "b * 64 + d = c" using split lt z 2 by simp_all
    show ?thesis unfolding enc append_Cons append_Nil utf8_start2 [OF b]
      using lt val by (simp add: utf8_cont del: of_nat_add)
  next
    case 3
    have z: "q = 0" using split 3 by simp
    have "c div 4096 = a" using split lt z by simp
    then have enc: "scalar_utf8 c = [of_nat (0xE0 + a), of_nat (0x80 + b), of_nat (0x80 + d)]"
      using 3 by (simp add: scalar_utf8_def d_def b_def)
    have a: "a < 16" "a = 0 \<Longrightarrow> 32 \<le> b" "a = 13 \<Longrightarrow> b < 32"
      and val: "(a * 64 + b) * 64 + d = c"
      using split lt z 3 surr by simp_all
    show ?thesis unfolding enc append_Cons append_Nil utf8_start3 [OF a(1)] numeral_2_eq_2
      using lt val a(2,3)
      by (cases "a = 0"; cases "a = 13") (simp_all add: utf8_cont del: of_nat_add)
  next
    case 4
    then have enc: "scalar_utf8 c = [of_nat (0xF0 + q), of_nat (0x80 + a), of_nat (0x80 + b), of_nat (0x80 + d)]"
      by (simp add: scalar_utf8_def d_def b_def a_def q_def)
    have q: "q < 5" "q = 0 \<Longrightarrow> 16 \<le> a" "q = 4 \<Longrightarrow> a < 16"
      using split lt 4 hi by simp_all
    show ?thesis unfolding enc append_Cons append_Nil utf8_start4 [OF q(1)] numeral_3_eq_3
      using lt split q(2,3)
      by (cases "q = 0"; cases "q = 4") (simp_all add: utf8_cont del: of_nat_add)
  qed
qed

lemma utf8_roundtrip:
  "list_all is_scalar cs \<Longrightarrow> utf8_scalars 0 0 0x80 0xBF (concat (map scalar_utf8 cs)) = cs"
  by (induction cs) (simp_all add: utf8_scalar_roundtrip)

lemma utf16_scalars_bom:
  assumes "well_formed s" "take 1 s \<noteq> [0xFEFF]"
  shows "strip_bom (utf16_scalars s) = utf16_scalars s"
proof (cases s rule: utf16_scalars.cases)
  case 1
  then show ?thesis by (simp add: strip_bom_def)
next
  case (2 u)
  have "unat u \<noteq> 0xFEFF" using assms(2) 2 by (auto simp: word_unat_eq_iff)
  then show ?thesis using 2 assms(1) by (simp add: strip_bom_def lone_scalar_id)
next
  case (3 u v us)
  have "unat u \<noteq> 0xFEFF" using assms(2) 3 by (auto simp: word_unat_eq_iff)
  then have "lone_scalar u \<noteq> 0xFEFF" by (simp add: lone_scalar_def)
  then show ?thesis using 3 by (simp add: strip_bom_def)
qed

lemma text_roundtrip:
  assumes "well_formed s" "take 1 s \<noteq> [0xFEFF]"
  shows "text_decode (text_encode s) = s"
  using assms
  by (simp add: text_decode_def text_encode_def utf8_roundtrip utf16_scalars_scalar
      utf16_scalars_bom utf16_roundtrip)

end
