(* ===== verification/Js_Float.thy ===== *)
theory Js_Float
  imports Prelude
begin

text \<open>
  Floating-point numbers at the byte level.  A JavaScript number used as a float is its
  IEEE 754 binary64 bit pattern, an integer below \<open>2 ^ 64\<close>.  \<open>DataView.setFloat32\<close> rounds such a
  number to the nearest binary32 (ties to even, overflow to infinity, gradual underflow);
  \<open>DataView.getFloat32\<close> widens a binary32 exactly.  JavaScript has a single NaN.
\<close>

type_synonym js_double = nat

definition f64_sign :: "nat \<Rightarrow> nat" where
  "f64_sign x = x div 2 ^ 63 mod 2"

definition f64_exp :: "nat \<Rightarrow> nat" where
  "f64_exp x = x div 2 ^ 52 mod 2048"

definition f64_mant :: "nat \<Rightarrow> nat" where
  "f64_mant x = x mod 2 ^ 52"

definition f64_make :: "nat \<Rightarrow> nat \<Rightarrow> nat \<Rightarrow> nat" where
  "f64_make s e m = s * 2 ^ 63 + e * 2 ^ 52 + m"

definition f32_sign :: "nat \<Rightarrow> nat" where
  "f32_sign x = x div 2 ^ 31 mod 2"

definition f32_exp :: "nat \<Rightarrow> nat" where
  "f32_exp x = x div 2 ^ 23 mod 256"

definition f32_mant :: "nat \<Rightarrow> nat" where
  "f32_mant x = x mod 2 ^ 23"

definition f64_nan :: nat where
  "f64_nan = f64_make 0 2047 (2 ^ 51)"

definition f32_nan :: nat where
  "f32_nan = 255 * 2 ^ 23 + 2 ^ 22"

definition is_nan32 :: "nat \<Rightarrow> bool" where
  "is_nan32 x \<longleftrightarrow> f32_exp x = 255 \<and> f32_mant x \<noteq> 0"

text \<open>Round \<open>m / 2 ^ k\<close> to the nearest integer, ties to even.\<close>

definition round_shift :: "nat \<Rightarrow> nat \<Rightarrow> nat" where
  "round_shift m k =
    (let q = m div 2 ^ k; r = m mod 2 ^ k
     in if 2 * r > 2 ^ k \<or> (2 * r = 2 ^ k \<and> odd q) then q + 1 else q)"

definition f64_to_f32 :: "nat \<Rightarrow> nat" where
  "f64_to_f32 x =
    (let s = f64_sign x * 2 ^ 31; e = f64_exp x; m = f64_mant x in
     if e = 2047 then (if m = 0 then s + 255 * 2 ^ 23 else f32_nan)
     else if e = 0 then s
     else if 897 \<le> e then s + min ((e - 896) * 2 ^ 23 + (round_shift (2 ^ 52 + m) 29 - 2 ^ 23)) (255 * 2 ^ 23)
     else s + round_shift (2 ^ 52 + m) (926 - e))"

definition f32_to_f64 :: "nat \<Rightarrow> nat" where
  "f32_to_f64 x =
    (let s = f32_sign x; e = f32_exp x; m = f32_mant x; k = bit_length m in
     if e = 255 then (if m = 0 then f64_make s 2047 0 else f64_nan)
     else if e = 0 then
       (if m = 0 then f64_make s 0 0
        else f64_make s (k + 873) ((m - 2 ^ (k - 1)) * 2 ^ (53 - k)))
     else f64_make s (e + 896) (m * 2 ^ 29))"

section \<open>Widening and rounding back\<close>

lemma f64_fields:
  assumes "s < 2" "e < 2048" "m < 2 ^ 52"
  shows "f64_sign (f64_make s e m) = s" "f64_exp (f64_make s e m) = e" "f64_mant (f64_make s e m) = m"
proof -
  have split: "f64_make s e m = (s * 2048 + e) * 2 ^ 52 + m"
    by (simp add: f64_make_def algebra_simps)
  show "f64_mant (f64_make s e m) = m"
    using assms(3) unfolding split f64_mant_def
    by (simp only: mod_mult_self3 mod_less)
  have hi: "f64_make s e m div 2 ^ 52 = s * 2048 + e"
    using assms(3) unfolding split by (simp only: div_mult_self3 div_less)
  then show "f64_exp (f64_make s e m) = e"
    using assms(2) by (simp add: f64_exp_def)
  have "f64_make s e m div 2 ^ 63 = f64_make s e m div 2 ^ 52 div 2048"
    by (simp flip: div_mult2_eq)
  then show "f64_sign (f64_make s e m) = s"
    using assms(1,2) unfolding hi f64_sign_def by simp
qed

lemma f32_split:
  assumes "x < 2 ^ 32"
  shows "x = f32_sign x * 2 ^ 31 + (f32_exp x * 2 ^ 23 + f32_mant x)"
proof -
  define q r a b where defs: "q = x div 2 ^ 23" "r = x mod 2 ^ 23" "a = q div 256" "b = q mod 256"
  have "x = q * 2 ^ 23 + r" "q = a * 256 + b"
    by (simp_all only: defs div_mult_mod_eq)
  then have x: "x = a * 2 ^ 31 + (b * 2 ^ 23 + r)" by simp
  have "x div 2 ^ 31 = a" by (simp add: defs flip: div_mult2_eq)
  moreover have "a < 2" using assms x by simp
  ultimately show ?thesis
    using x unfolding f32_sign_def f32_exp_def f32_mant_def defs(1,2,4) [symmetric] by simp
qed

lemma bit_length_bounds: "0 < n \<Longrightarrow> 2 ^ (bit_length n - 1) \<le> n \<and> n < 2 ^ bit_length n \<and> 0 < bit_length n"
proof (induction n rule: bit_length.induct)
  case (1 n)
  show ?case
  proof (cases "n = 1")
    case True
    then show ?thesis by (simp add: bit_length.simps)
  next
    case False
    then have "0 < n div 2" using 1 by simp
    then have IH: "2 ^ (bit_length (n div 2) - 1) \<le> n div 2" "n div 2 < 2 ^ bit_length (n div 2)"
      "0 < bit_length (n div 2)" using 1 by auto
    obtain k where k: "bit_length (n div 2) = Suc k" using IH(3) by (cases "bit_length (n div 2)") auto
    moreover have "2 * 2 ^ k \<le> n" "n < 2 * (2 * 2 ^ k)" using IH(1,2) k by simp_all
    ultimately show ?thesis using 1 by (simp add: bit_length.simps [of n])
  qed
qed

lemma round_shift_exact: "round_shift (q * 2 ^ k) k = q"
  by (simp add: round_shift_def Let_def)

lemma f32_subnormal_mant:
  assumes "0 < m" "m < 2 ^ 23"
  defines "k \<equiv> bit_length m"
  shows "2 ^ 52 + (m - 2 ^ (k - 1)) * 2 ^ (53 - k) = m * 2 ^ (53 - k)"
    and "(m - 2 ^ (k - 1)) * 2 ^ (53 - k) < 2 ^ 52" and "0 < k" and "k \<le> 23"
proof -
  have b: "2 ^ (k - 1) \<le> m" "m < 2 ^ k" "0 < k" using bit_length_bounds assms by blast+
  then have "(2::nat) ^ (k - 1) < 2 ^ 23" using assms(2) by linarith
  then have k23: "k \<le> 23" by (subst (asm) power_strict_increasing_iff) auto
  have p: "(2::nat) ^ (k - 1) * 2 ^ (53 - k) = 2 ^ 52"
    using b(3) k23 by (simp flip: power_add)
  then show "2 ^ 52 + (m - 2 ^ (k - 1)) * 2 ^ (53 - k) = m * 2 ^ (53 - k)"
    using mult_le_mono1 [OF b(1), of "2 ^ (53 - k)"] by (simp add: diff_mult_distrib)
  have "(2::nat) ^ k = 2 * 2 ^ (k - 1)" using b(3) by (cases k) auto
  then have "m - 2 ^ (k - 1) < 2 ^ (k - 1)" using b by linarith
  then have "(m - 2 ^ (k - 1)) * 2 ^ (53 - k) < 2 ^ (k - 1) * 2 ^ (53 - k)" by simp
  then show "(m - 2 ^ (k - 1)) * 2 ^ (53 - k) < 2 ^ 52" unfolding p .
  show "0 < k" "k \<le> 23" by fact+
qed

lemma f32_roundtrip:
  assumes "x < 2 ^ 32" "\<not> is_nan32 x"
  shows "f64_to_f32 (f32_to_f64 x) = x"
proof -
  define s e m where defs: "s = f32_sign x" "e = f32_exp x" "m = f32_mant x"
  have r: "s < 2" "e < 256" "m < 2 ^ 23"
    by (simp_all add: defs f32_sign_def f32_exp_def f32_mant_def)
  have x: "x = s * 2 ^ 31 + (e * 2 ^ 23 + m)" using f32_split [OF assms(1)] by (simp only: defs)
  consider "e = 255" "m = 0" | "e = 0" "m = 0" | "e = 0" "0 < m" | "0 < e" "e < 255"
    using assms(2) r by (fastforce simp: is_nan32_def defs)
  then show ?thesis
  proof cases
    case 1
    then have "f32_to_f64 x = f64_make s 2047 0" by (simp add: f32_to_f64_def Let_def flip: defs)
    then show ?thesis using 1 x r by (simp add: f64_to_f32_def Let_def f64_fields)
  next
    case 2
    then have "f32_to_f64 x = f64_make s 0 0" by (simp add: f32_to_f64_def Let_def flip: defs)
    then show ?thesis using 2 x r by (simp add: f64_to_f32_def Let_def f64_fields)
  next
    case 3
    define k where "k = bit_length m"
    note sub = f32_subnormal_mant [OF 3(2) r(3), folded k_def]
    have "f32_to_f64 x = f64_make s (k + 873) ((m - 2 ^ (k - 1)) * 2 ^ (53 - k))"
      using 3 by (simp add: f32_to_f64_def Let_def k_def flip: defs)
    moreover have "926 - (k + 873) = 53 - k" by simp
    ultimately show ?thesis using 3 x r(1) sub
      by (simp add: f64_to_f32_def Let_def f64_fields round_shift_exact)
  next
    case 4
    have "f32_to_f64 x = f64_make s (e + 896) (m * 2 ^ 29)"
      using 4 by (simp add: f32_to_f64_def Let_def flip: defs)
    moreover have "2 ^ 52 + m * 2 ^ 29 = (2 ^ 23 + m) * 2 ^ 29" by simp
    ultimately show ?thesis using 4 x r
      by (simp add: f64_to_f32_def Let_def f64_fields round_shift_exact [of "2 ^ 23 + m" 29, simplified])
  qed
qed

end
