(* ===== verification/Data_IO.thy ===== *)
theory Data_IO
  imports Js_Text Js_Float
begin

text \<open>
  The byte buffers every codec is built on: \<open>DataReader\<close> and \<open>DataWriter\<close> of the package
  \<open>general\<close>, and the helpers of \<open>Bytes\<close> that the codecs call.  A reader or writer is a record
  of the fields of its class; an operation takes the object and returns the changed one.

  The lemmas reduce both classes to byte lists: reading from \<open>reader_at pre bs\<close>, a
  little-endian reader that has consumed \<open>pre\<close> and still holds \<open>bs\<close>, and \<open>written\<close>, the bytes a
  writer has collected.  The locale \<open>codec\<close> states what a pair of an encoder and a decoder over
  these buffers promises, and what follows from it.
\<close>

section \<open>DataView access\<close>

definition dv_put :: "bool \<Rightarrow> nat \<Rightarrow> int \<Rightarrow> bytes" where
  "dv_put little n v = (if little then le_bytes n v else rev (le_bytes n v))"

definition dv_get :: "bool \<Rightarrow> bytes \<Rightarrow> int" where
  "dv_get little bs = le_value (if little then bs else rev bs)"

definition subarray :: "bytes \<Rightarrow> int \<Rightarrow> int \<Rightarrow> bytes" where
  "subarray buf first len = take (nat len) (drop (nat first) buf)"

definition as_signed :: "nat \<Rightarrow> int \<Rightarrow> int" where
  "as_signed n v = (if v < 2 ^ (n - 1) then v else v - 2 ^ n)"

section \<open>DataReader\<close>

record data_reader =
  rd_buffer :: bytes
  rd_offset :: int
  rd_littleEndian :: bool

type_synonym 'a read = "data_reader \<Rightarrow> error + ('a \<times> data_reader)"

definition DataReader :: "bytes \<Rightarrow> bool \<Rightarrow> data_reader" where
  "DataReader buffer little = \<lparr>rd_buffer = buffer, rd_offset = 0, rd_littleEndian = little\<rparr>"

definition getOffsetAndAdvance :: "int \<Rightarrow> int read" where
  "getOffsetAndAdvance sz r =
    (if sz < 0 then Inl DataReadError
     else let result = rd_offset r; stop = result + sz in
       if stop > int (length (rd_buffer r)) then Inl DataReadError
       else Inr (result, r\<lparr>rd_offset := stop\<rparr>))"

definition readUInt8 :: "int read" where
  "readUInt8 r = bindE (getOffsetAndAdvance 1 r)
    (\<lambda>(off, r'). Inr (dv_get True (subarray (rd_buffer r) off 1), r'))"

definition readUInt16 :: "int read" where
  "readUInt16 r = bindE (getOffsetAndAdvance 2 r)
    (\<lambda>(off, r'). Inr (dv_get (rd_littleEndian r) (subarray (rd_buffer r) off 2), r'))"

definition readUInt32 :: "int read" where
  "readUInt32 r = bindE (getOffsetAndAdvance 4 r)
    (\<lambda>(off, r'). Inr (dv_get (rd_littleEndian r) (subarray (rd_buffer r) off 4), r'))"

definition readUInt64 :: "int read" where
  "readUInt64 r = bindE (getOffsetAndAdvance 8 r)
    (\<lambda>(off, r'). Inr (dv_get (rd_littleEndian r) (subarray (rd_buffer r) off 8), r'))"

definition readInt8 :: "int read" where
  "readInt8 r = bindE (getOffsetAndAdvance 1 r)
    (\<lambda>(off, r'). Inr (as_signed 8 (dv_get True (subarray (rd_buffer r) off 1)), r'))"

definition readInt16 :: "int read" where
  "readInt16 r = bindE (getOffsetAndAdvance 2 r)
    (\<lambda>(off, r'). Inr (as_signed 16 (dv_get (rd_littleEndian r) (subarray (rd_buffer r) off 2)), r'))"

definition readInt32 :: "int read" where
  "readInt32 r = bindE (getOffsetAndAdvance 4 r)
    (\<lambda>(off, r'). Inr (as_signed 32 (dv_get (rd_littleEndian r) (subarray (rd_buffer r) off 4)), r'))"

definition readInt64 :: "int read" where
  "readInt64 r = bindE (getOffsetAndAdvance 8 r)
    (\<lambda>(off, r'). Inr (as_signed 64 (dv_get (rd_littleEndian r) (subarray (rd_buffer r) off 8)), r'))"

definition readFloat :: "js_double read" where
  "readFloat r = bindE (getOffsetAndAdvance 4 r)
    (\<lambda>(off, r'). Inr (f32_to_f64 (nat (dv_get (rd_littleEndian r) (subarray (rd_buffer r) off 4))), r'))"

definition readDouble :: "js_double read" where
  "readDouble r = bindE (getOffsetAndAdvance 8 r)
    (\<lambda>(off, r'). Inr (nat (dv_get (rd_littleEndian r) (subarray (rd_buffer r) off 8)), r'))"

definition readUtf8String :: "int \<Rightarrow> js_string read" where
  "readUtf8String len r = bindE (getOffsetAndAdvance len r)
    (\<lambda>(off, r'). Inr (text_decode (subarray (rd_buffer r) off len), r'))"

definition readByteArray :: "int \<Rightarrow> bytes read" where
  "readByteArray len r = bindE (getOffsetAndAdvance len r)
    (\<lambda>(off, r'). Inr (subarray (rd_buffer r) off len, r'))"

definition remainingBytesCount :: "data_reader \<Rightarrow> int" where
  "remainingBytesCount r = int (length (rd_buffer r)) - rd_offset r"

definition remainingBytes :: "data_reader \<Rightarrow> bytes" where
  "remainingBytes r = drop (nat (rd_offset r)) (rd_buffer r)"

definition reader_length :: "data_reader \<Rightarrow> int" where
  "reader_length r = int (length (rd_buffer r))"

definition set_offset :: "int \<Rightarrow> data_reader \<Rightarrow> error + data_reader" where
  "set_offset off r =
    (if off < 0 \<or> off > int (length (rd_buffer r)) then Inl DataReadError
     else Inr (r\<lparr>rd_offset := off\<rparr>))"

section \<open>DataWriter\<close>

record data_writer =
  wr_littleEndian :: bool
  wr_length :: int
  wr_chunks :: "bytes list"

definition DataWriter :: "bool \<Rightarrow> data_writer" where
  "DataWriter little = \<lparr>wr_littleEndian = little, wr_length = 0, wr_chunks = []\<rparr>"

definition toNumber :: "int \<Rightarrow> int" where
  "toNumber v = round_to_double v"

definition push_chunk :: "bytes \<Rightarrow> data_writer \<Rightarrow> data_writer" where
  "push_chunk c w = w\<lparr>wr_chunks := wr_chunks w @ [c], wr_length := wr_length w + int (length c)\<rparr>"

definition writeUInt8 :: "int \<Rightarrow> data_writer \<Rightarrow> data_writer" where
  "writeUInt8 v w = push_chunk (le_bytes 1 (toNumber v)) w"

definition writeUInt16 :: "int \<Rightarrow> data_writer \<Rightarrow> data_writer" where
  "writeUInt16 v w = push_chunk (dv_put (wr_littleEndian w) 2 (toNumber v)) w"

definition writeUInt32 :: "int \<Rightarrow> data_writer \<Rightarrow> data_writer" where
  "writeUInt32 v w = push_chunk (dv_put (wr_littleEndian w) 4 (toNumber v)) w"

definition writeUInt64 :: "int \<Rightarrow> data_writer \<Rightarrow> data_writer" where
  "writeUInt64 v w = push_chunk (dv_put (wr_littleEndian w) 8 v) w"

definition writeInt8 :: "int \<Rightarrow> data_writer \<Rightarrow> data_writer" where
  "writeInt8 v w = push_chunk (le_bytes 1 (toNumber v)) w"

definition writeInt16 :: "int \<Rightarrow> data_writer \<Rightarrow> data_writer" where
  "writeInt16 v w = push_chunk (dv_put (wr_littleEndian w) 2 (toNumber v)) w"

definition writeInt32 :: "int \<Rightarrow> data_writer \<Rightarrow> data_writer" where
  "writeInt32 v w = push_chunk (dv_put (wr_littleEndian w) 4 (toNumber v)) w"

definition writeInt64 :: "int \<Rightarrow> data_writer \<Rightarrow> data_writer" where
  "writeInt64 v w = push_chunk (dv_put (wr_littleEndian w) 8 v) w"

definition writeFloat :: "js_double \<Rightarrow> data_writer \<Rightarrow> data_writer" where
  "writeFloat v w = push_chunk (dv_put (wr_littleEndian w) 4 (int (f64_to_f32 v))) w"

definition writeDouble :: "js_double \<Rightarrow> data_writer \<Rightarrow> data_writer" where
  "writeDouble v w = push_chunk (dv_put (wr_littleEndian w) 8 (int v)) w"

definition writeByteArray :: "bytes \<Rightarrow> data_writer \<Rightarrow> data_writer" where
  "writeByteArray bs w = push_chunk bs w"

text \<open>\<open>Uint8Array.set\<close> copies a chunk into the array and throws when it does not fit.\<close>

definition array_set :: "bytes \<Rightarrow> bytes \<Rightarrow> nat \<Rightarrow> error + bytes" where
  "array_set buf chunk off =
    (if off + length chunk > length buf then Inl RangeError
     else Inr (take off buf @ chunk @ drop (off + length chunk) buf))"

fun set_chunks :: "bytes \<Rightarrow> nat \<Rightarrow> bytes list \<Rightarrow> error + bytes" where
  "set_chunks buf off [] = Inr buf"
| "set_chunks buf off (c # cs) =
    bindE (array_set buf c off) (\<lambda>buf'. set_chunks buf' (off + length c) cs)"

definition toByteArray :: "data_writer \<Rightarrow> error + (bytes \<times> data_writer)" where
  "toByteArray w =
    (if wr_chunks w = [] then Inr ([], w)
     else if length (wr_chunks w) = 1 then Inr (hd (wr_chunks w), w)
     else bindE (set_chunks (replicate (nat (wr_length w)) 0) 0 (wr_chunks w))
       (\<lambda>result. Inr (result, w\<lparr>wr_chunks := [result]\<rparr>)))"

definition to_bytes :: "data_writer \<Rightarrow> error + bytes" where
  "to_bytes w = bindE (toByteArray w) (\<lambda>(bs, _). Inr bs)"

section \<open>Bytes\<close>

definition areEqual :: "bytes \<Rightarrow> bytes \<Rightarrow> bool" where
  "areEqual a b =
    (if length a \<noteq> length b then False else list_all (\<lambda>i. b ! i = a ! i) [0..<length a])"

function asBigInt_loop :: "int \<Rightarrow> bytes \<Rightarrow> int" where
  "asBigInt_loop result bs =
    (let remaining = length bs in
     if remaining = 0 then result
     else if remaining \<ge> 8 then asBigInt_loop (result * 2 ^ 64 + dv_get False (take 8 bs)) (drop 8 bs)
     else if remaining \<ge> 4 then asBigInt_loop (result * 2 ^ 32 + dv_get False (take 4 bs)) (drop 4 bs)
     else if remaining \<ge> 2 then asBigInt_loop (result * 2 ^ 16 + dv_get False (take 2 bs)) (drop 2 bs)
     else asBigInt_loop (result * 2 ^ 8 + dv_get False (take 1 bs)) (drop 1 bs))"
  by pat_completeness auto
termination
  by (relation "measure (\<lambda>(result, bs). length bs)") auto

declare asBigInt_loop.simps [simp del]

definition asBigInt :: "bytes \<Rightarrow> int" where
  "asBigInt bs = asBigInt_loop 0 bs"

section \<open>Readers as byte lists\<close>

definition reader_at :: "bytes \<Rightarrow> bytes \<Rightarrow> data_reader" where
  "reader_at pre bs = \<lparr>rd_buffer = pre @ bs, rd_offset = int (length pre), rd_littleEndian = True\<rparr>"

lemma DataReader_at [io_simps]: "DataReader bs True = reader_at [] bs"
  by (simp add: DataReader_def reader_at_def)

lemma reader_at_fields [simp]:
  "rd_buffer (reader_at pre bs) = pre @ bs"
  "rd_offset (reader_at pre bs) = int (length pre)"
  "rd_littleEndian (reader_at pre bs)"
  by (simp_all add: reader_at_def)

lemma reader_at_eq_iff: "reader_at p b = reader_at q c \<longleftrightarrow> p = q \<and> b = c"
  by (auto simp: reader_at_def)

lemma remaining_at [simp, io_simps]:
  "remainingBytes (reader_at pre bs) = bs"
  "remainingBytesCount (reader_at pre bs) = int (length bs)"
  "reader_length (reader_at pre bs) = int (length pre + length bs)"
  by (simp_all add: remainingBytes_def remainingBytesCount_def reader_length_def)

lemma advance_at:
  "getOffsetAndAdvance (int n) (reader_at pre bs) =
    (if n \<le> length bs then Inr (int (length pre), reader_at (pre @ take n bs) (drop n bs))
     else Inl DataReadError)"
  by (simp add: getOffsetAndAdvance_def Let_def reader_at_def)

lemma advance_negative: "n < 0 \<Longrightarrow> getOffsetAndAdvance n r = Inl DataReadError"
  by (simp add: getOffsetAndAdvance_def)

lemma subarray_at: "subarray (pre @ bs) (int (length pre)) (int n) = take n bs"
  by (simp add: subarray_def)

lemmas subarray_at_num = subarray_at [where n = "numeral k" for k, simplified] subarray_at [where n = 1, simplified]
lemmas advance_at_num = advance_at [where n = "numeral k" for k, simplified] advance_at [where n = 1, simplified]

text \<open>Reading \<open>n\<close> bytes either consumes exactly these or throws and leaves the reader alone.\<close>

lemma read_at:
  "readUInt8 (reader_at pre bs) =
    (if 1 \<le> length bs then Inr (le_value (take 1 bs), reader_at (pre @ take 1 bs) (drop 1 bs)) else Inl DataReadError)"
  "readUInt16 (reader_at pre bs) =
    (if 2 \<le> length bs then Inr (le_value (take 2 bs), reader_at (pre @ take 2 bs) (drop 2 bs)) else Inl DataReadError)"
  "readUInt32 (reader_at pre bs) =
    (if 4 \<le> length bs then Inr (le_value (take 4 bs), reader_at (pre @ take 4 bs) (drop 4 bs)) else Inl DataReadError)"
  "readUInt64 (reader_at pre bs) =
    (if 8 \<le> length bs then Inr (le_value (take 8 bs), reader_at (pre @ take 8 bs) (drop 8 bs)) else Inl DataReadError)"
  "readInt8 (reader_at pre bs) =
    (if 1 \<le> length bs then Inr (as_signed 8 (le_value (take 1 bs)), reader_at (pre @ take 1 bs) (drop 1 bs)) else Inl DataReadError)"
  "readInt16 (reader_at pre bs) =
    (if 2 \<le> length bs then Inr (as_signed 16 (le_value (take 2 bs)), reader_at (pre @ take 2 bs) (drop 2 bs)) else Inl DataReadError)"
  "readInt32 (reader_at pre bs) =
    (if 4 \<le> length bs then Inr (as_signed 32 (le_value (take 4 bs)), reader_at (pre @ take 4 bs) (drop 4 bs)) else Inl DataReadError)"
  "readInt64 (reader_at pre bs) =
    (if 8 \<le> length bs then Inr (as_signed 64 (le_value (take 8 bs)), reader_at (pre @ take 8 bs) (drop 8 bs)) else Inl DataReadError)"
  "readFloat (reader_at pre bs) =
    (if 4 \<le> length bs then Inr (f32_to_f64 (nat (le_value (take 4 bs))), reader_at (pre @ take 4 bs) (drop 4 bs)) else Inl DataReadError)"
  "readDouble (reader_at pre bs) =
    (if 8 \<le> length bs then Inr (nat (le_value (take 8 bs)), reader_at (pre @ take 8 bs) (drop 8 bs)) else Inl DataReadError)"
  unfolding readUInt8_def readUInt16_def readUInt32_def readUInt64_def readInt8_def readInt16_def
    readInt32_def readInt64_def readFloat_def readDouble_def advance_at_num
  by (simp_all add: dv_get_def subarray_at_num)

lemma read_block_at:
  "readByteArray (int n) (reader_at pre bs) =
    (if n \<le> length bs then Inr (take n bs, reader_at (pre @ take n bs) (drop n bs)) else Inl DataReadError)"
  "readUtf8String (int n) (reader_at pre bs) =
    (if n \<le> length bs then Inr (text_decode (take n bs), reader_at (pre @ take n bs) (drop n bs)) else Inl DataReadError)"
  unfolding readByteArray_def readUtf8String_def advance_at
  by (simp_all add: subarray_at)

text \<open>What a read that returned says about the value and the rest of the buffer.\<close>

definition reader_over :: "bytes \<Rightarrow> data_reader \<Rightarrow> bool" where
  "reader_over d r \<longleftrightarrow> (\<exists>pre bs. r = reader_at pre bs \<and> d = pre @ bs)"

lemma reader_over_DataReader [simp]: "reader_over d (DataReader d True)"
  by (auto simp: reader_over_def DataReader_def reader_at_def)

lemma reader_over_remaining: "reader_over d r \<Longrightarrow> \<exists>pre. d = pre @ remainingBytes r"
  by (auto simp: reader_over_def)

lemma reader_over_count: "reader_over d r \<Longrightarrow> remainingBytesCount r = int (length (remainingBytes r))"
  by (auto simp: reader_over_def)

lemma le_value_take: "n \<le> length bs \<Longrightarrow> 0 \<le> le_value (take n bs) \<and> le_value (take n bs) < 256 ^ n"
  using le_value_less [of "take n bs"] by (simp add: le_value_nonneg)

lemma take_drop_reader: "reader_over (pre @ bs) (reader_at (pre @ take n bs) (drop n bs))"
  unfolding reader_over_def by (rule exI [of _ "pre @ take n bs"], rule exI [of _ "drop n bs"]) simp

lemma read_inv_at:
  assumes rd: "\<And>pre bs. rd (reader_at pre bs) = (if n \<le> length bs
      then Inr (le_value (take n bs), reader_at (pre @ take n bs) (drop n bs)) else Inl DataReadError)"
    and "reader_over d r" "rd r = Inr (v, r')"
  shows "reader_over d r' \<and> 0 \<le> v \<and> v < 256 ^ n"
proof -
  obtain pre bs where r: "r = reader_at pre bs" "d = pre @ bs" using assms(2) by (auto simp: reader_over_def)
  have l: "n \<le> length bs" using assms(3) unfolding r rd by (auto split: if_splits)
  then have "v = le_value (take n bs)" "r' = reader_at (pre @ take n bs) (drop n bs)"
    using assms(3) unfolding r rd by simp_all
  then show ?thesis using le_value_take [OF l] take_drop_reader [of pre bs n] by (simp add: r(2))
qed

lemma read_inv:
  assumes "reader_over d r"
  shows "readUInt8 r = Inr (v, r') \<Longrightarrow> reader_over d r' \<and> 0 \<le> v \<and> v < 2 ^ 8"
    "readUInt16 r = Inr (v, r') \<Longrightarrow> reader_over d r' \<and> 0 \<le> v \<and> v < 2 ^ 16"
    "readUInt32 r = Inr (v, r') \<Longrightarrow> reader_over d r' \<and> 0 \<le> v \<and> v < 2 ^ 32"
    "readUInt64 r = Inr (v, r') \<Longrightarrow> reader_over d r' \<and> 0 \<le> v \<and> v < 2 ^ 64"
  by (drule read_inv_at [OF read_at(1) assms] read_inv_at [OF read_at(2) assms]
    read_inv_at [OF read_at(3) assms] read_inv_at [OF read_at(4) assms], simp)+

lemma readByteArray_inv:
  assumes "reader_over d r" "readByteArray n r = Inr (bs, r')"
  shows "reader_over d r' \<and> int (length bs) = n"
proof (cases "n < 0")
  case False
  define m where "m = nat n"
  have k: "n = int m" using False by (simp add: m_def)
  obtain pre cs where r: "r = reader_at pre cs" "d = pre @ cs" using assms by (auto simp: reader_over_def)
  have l: "m \<le> length cs" using assms(2) unfolding r k read_block_at(1) by (auto split: if_splits)
  then have "bs = take m cs" "r' = reader_at (pre @ take m cs) (drop m cs)"
    using assms(2) unfolding r k read_block_at(1) by auto
  then show ?thesis using l take_drop_reader [of pre cs m] by (simp add: r(2) k)
qed (use assms in \<open>simp add: readByteArray_def advance_negative\<close>)

text \<open>Reading back what a writer put there.\<close>

lemma read_le [io_simps]:
  "readUInt8 (reader_at pre (b # rest)) = Inr (uint b, reader_at (pre @ [b]) rest)"
  "readUInt16 (reader_at pre (le_bytes 2 v @ rest)) = Inr (v mod 65536, reader_at (pre @ le_bytes 2 v) rest)"
  "readUInt32 (reader_at pre (le_bytes 4 v @ rest)) = Inr (v mod 2 ^ 32, reader_at (pre @ le_bytes 4 v) rest)"
  "readUInt64 (reader_at pre (le_bytes 8 v @ rest)) = Inr (v mod 2 ^ 64, reader_at (pre @ le_bytes 8 v) rest)"
  by (simp_all add: read_at le_value_le_bytes)

lemma read_le_end [io_simps]:
  "readUInt16 (reader_at pre (le_bytes 2 v)) = Inr (v mod 65536, reader_at (pre @ le_bytes 2 v) [])"
  "readUInt32 (reader_at pre (le_bytes 4 v)) = Inr (v mod 2 ^ 32, reader_at (pre @ le_bytes 4 v) [])"
  "readUInt64 (reader_at pre (le_bytes 8 v)) = Inr (v mod 2 ^ 64, reader_at (pre @ le_bytes 8 v) [])"
  using read_le(2-4) [of pre v "[]"] by simp_all

lemma as_signed_mod: "0 < n \<Longrightarrow> - (2 ^ (n - 1)) \<le> v \<Longrightarrow> v < 2 ^ (n - 1) \<Longrightarrow> as_signed n (v mod 2 ^ n) = v"
proof -
  assume n: "0 < n" and lo: "- (2 ^ (n - 1)) \<le> v" and hi: "v < 2 ^ (n - 1)"
  have p: "(2 :: int) ^ n = 2 * 2 ^ (n - 1)" using n by (cases n) simp_all
  show ?thesis
  proof (cases "0 \<le> v")
    case True
    then have "v mod 2 ^ n = v" using hi p by (intro mod_pos_pos_trivial) auto
    then show ?thesis using hi by (simp add: as_signed_def)
  next
    case False
    then have "(v + 2 ^ n) mod 2 ^ n = v + 2 ^ n"
      using lo p by (intro mod_pos_pos_trivial) auto
    then have "v mod 2 ^ n = v + 2 ^ n" by simp
    then show ?thesis using lo p by (simp add: as_signed_def)
  qed
qed

lemma read_signed [io_simps]:
  "- 128 \<le> v \<Longrightarrow> v < 128 \<Longrightarrow>
    readInt8 (reader_at pre (word_of_int v # rest)) = Inr (v, reader_at (pre @ [word_of_int v]) rest)"
  "- 32768 \<le> v \<Longrightarrow> v < 32768 \<Longrightarrow>
    readInt16 (reader_at pre (le_bytes 2 v @ rest)) = Inr (v, reader_at (pre @ le_bytes 2 v) rest)"
  "- 2147483648 \<le> v \<Longrightarrow> v < 2147483648 \<Longrightarrow>
    readInt32 (reader_at pre (le_bytes 4 v @ rest)) = Inr (v, reader_at (pre @ le_bytes 4 v) rest)"
  "- (2 ^ 63) \<le> v \<Longrightarrow> v < 2 ^ 63 \<Longrightarrow>
    readInt64 (reader_at pre (le_bytes 8 v @ rest)) = Inr (v, reader_at (pre @ le_bytes 8 v) rest)"
  using as_signed_mod [of 8 v] as_signed_mod [of 16 v] as_signed_mod [of 32 v] as_signed_mod [of 64 v]
  by (simp_all add: read_at le_value_le_bytes)

lemma read_float_le [io_simps]:
  "readFloat (reader_at pre (le_bytes 4 v @ rest)) =
    Inr (f32_to_f64 (nat (v mod 2 ^ 32)), reader_at (pre @ le_bytes 4 v) rest)"
  "readDouble (reader_at pre (le_bytes 8 v @ rest)) =
    Inr (nat (v mod 2 ^ 64), reader_at (pre @ le_bytes 8 v) rest)"
  by (simp_all add: read_at le_value_le_bytes)

lemma read_block [io_simps]:
  "n = int (length bs) \<Longrightarrow> readByteArray n (reader_at pre (bs @ rest)) = Inr (bs, reader_at (pre @ bs) rest)"
  "n = int (length bs) \<Longrightarrow>
    readUtf8String n (reader_at pre (bs @ rest)) = Inr (text_decode bs, reader_at (pre @ bs) rest)"
  by (simp_all add: read_block_at)

section \<open>Writers as byte lists\<close>

definition written :: "data_writer \<Rightarrow> bytes" where
  "written w = concat (wr_chunks w)"

definition wf_writer :: "data_writer \<Rightarrow> bool" where
  "wf_writer w \<longleftrightarrow> wr_length w = int (length (written w))"

lemma push_chunk_simps [simp]:
  "written (push_chunk c w) = written w @ c"
  "wf_writer w \<Longrightarrow> wf_writer (push_chunk c w)"
  "wr_littleEndian (push_chunk c w) = wr_littleEndian w"
  by (simp_all add: push_chunk_def written_def wf_writer_def)

lemma DataWriter_simps [simp]:
  "written (DataWriter little) = []" "wf_writer (DataWriter little)"
  "wr_littleEndian (DataWriter little) = little"
  by (simp_all add: DataWriter_def written_def wf_writer_def)

lemmas write_defs = writeUInt8_def writeUInt16_def writeUInt32_def writeUInt64_def writeInt8_def
  writeInt16_def writeInt32_def writeInt64_def writeFloat_def writeDouble_def writeByteArray_def

text \<open>Copying the chunks one after the other into a fresh array is concatenation.\<close>

lemma set_chunks_concat:
  "length buf = length pre + length (concat cs) \<Longrightarrow> take (length pre) buf = pre \<Longrightarrow>
    set_chunks buf (length pre) cs = Inr (pre @ concat cs)"
proof (induction cs arbitrary: pre buf)
  case (Cons c cs)
  define buf' where "buf' = pre @ c @ drop (length pre + length c) buf"
  have "set_chunks buf' (length (pre @ c)) cs = Inr ((pre @ c) @ concat cs)"
    using Cons.prems by (intro Cons.IH) (simp_all add: buf'_def)
  then show ?case using Cons.prems by (simp add: array_set_def buf'_def)
qed auto

lemma toByteArray_written:
  assumes "wf_writer w"
  shows "\<exists>w'. toByteArray w = Inr (written w, w') \<and> wf_writer w' \<and> written w' = written w"
proof -
  consider "wr_chunks w = []" | c where "wr_chunks w = [c]" | "length (wr_chunks w) > 1"
    by (cases "wr_chunks w" rule: remdups_adj.cases) auto
  then show ?thesis
  proof cases
    case 3
    have "set_chunks (replicate (nat (wr_length w)) 0) 0 (wr_chunks w) = Inr (written w)"
      using set_chunks_concat [of "replicate (nat (wr_length w)) 0" "[]" "wr_chunks w"] assms
      by (simp add: wf_writer_def written_def)
    then show ?thesis using 3 assms by (auto simp: toByteArray_def wf_writer_def written_def)
  qed (use assms in \<open>auto simp: toByteArray_def written_def\<close>)
qed

lemma to_bytes_written [simp]: "wf_writer w \<Longrightarrow> to_bytes w = Inr (written w)"
  using toByteArray_written [of w] by (auto simp: to_bytes_def)

lemma toNumber_small [io_simps]: "\<bar>v\<bar> < 2 ^ 53 \<Longrightarrow> toNumber v = v"
  by (simp add: toNumber_def round_to_double_small)

lemma wf_write [simp]:
  "wf_writer w \<Longrightarrow> wf_writer (writeUInt8 v w)" "wf_writer w \<Longrightarrow> wf_writer (writeUInt16 v w)"
  "wf_writer w \<Longrightarrow> wf_writer (writeUInt32 v w)" "wf_writer w \<Longrightarrow> wf_writer (writeUInt64 v w)"
  "wf_writer w \<Longrightarrow> wf_writer (writeInt8 v w)" "wf_writer w \<Longrightarrow> wf_writer (writeInt16 v w)"
  "wf_writer w \<Longrightarrow> wf_writer (writeInt32 v w)" "wf_writer w \<Longrightarrow> wf_writer (writeInt64 v w)"
  "wf_writer w \<Longrightarrow> wf_writer (writeFloat x w)" "wf_writer w \<Longrightarrow> wf_writer (writeDouble x w)"
  "wf_writer w \<Longrightarrow> wf_writer (writeByteArray bs w)"
  by (simp_all add: write_defs)

lemma littleEndian_write [simp]:
  "wr_littleEndian (writeUInt8 v w) = wr_littleEndian w" "wr_littleEndian (writeUInt16 v w) = wr_littleEndian w"
  "wr_littleEndian (writeUInt32 v w) = wr_littleEndian w" "wr_littleEndian (writeUInt64 v w) = wr_littleEndian w"
  "wr_littleEndian (writeInt8 v w) = wr_littleEndian w" "wr_littleEndian (writeInt16 v w) = wr_littleEndian w"
  "wr_littleEndian (writeInt32 v w) = wr_littleEndian w" "wr_littleEndian (writeInt64 v w) = wr_littleEndian w"
  "wr_littleEndian (writeFloat x w) = wr_littleEndian w" "wr_littleEndian (writeDouble x w) = wr_littleEndian w"
  "wr_littleEndian (writeByteArray bs w) = wr_littleEndian w"
  by (simp_all add: write_defs)

lemma written_write [io_simps]:
  "written (writeUInt8 v w) = written w @ [word_of_int (toNumber v)]"
  "written (writeUInt16 v w) = written w @ dv_put (wr_littleEndian w) 2 (toNumber v)"
  "written (writeUInt32 v w) = written w @ dv_put (wr_littleEndian w) 4 (toNumber v)"
  "written (writeUInt64 v w) = written w @ dv_put (wr_littleEndian w) 8 v"
  "written (writeInt8 v w) = written w @ [word_of_int (toNumber v)]"
  "written (writeInt16 v w) = written w @ dv_put (wr_littleEndian w) 2 (toNumber v)"
  "written (writeInt32 v w) = written w @ dv_put (wr_littleEndian w) 4 (toNumber v)"
  "written (writeInt64 v w) = written w @ dv_put (wr_littleEndian w) 8 v"
  "written (writeFloat x w) = written w @ dv_put (wr_littleEndian w) 4 (int (f64_to_f32 x))"
  "written (writeDouble x w) = written w @ dv_put (wr_littleEndian w) 8 (int x)"
  "written (writeByteArray bs w) = written w @ bs"
  by (simp_all add: write_defs)

lemma dv_put_little [simp]: "dv_put True n v = le_bytes n v"
  by (simp add: dv_put_def)

section \<open>Bytes helpers\<close>

lemma areEqual_iff: "areEqual a b \<longleftrightarrow> a = b"
  by (auto simp: areEqual_def list_all_iff intro: nth_equalityI)

lemma dv_get_Nil [simp]: "dv_get little [] = 0"
  by (simp add: dv_get_def)

lemma dv_get_big_append: "dv_get False (xs @ ys) = dv_get False xs * 256 ^ length ys + dv_get False ys"
proof -
  have "le_value (as @ bs) = le_value as + 256 ^ length as * le_value bs" for as bs
    by (induction as) (simp_all add: algebra_simps)
  then show ?thesis by (simp add: dv_get_def)
qed

lemma asBigInt_step:
  "n \<le> length bs \<Longrightarrow> (result * 256 ^ n + dv_get False (take n bs)) * 256 ^ (length bs - n) + dv_get False (drop n bs)
    = result * 256 ^ length bs + dv_get False bs"
  using dv_get_big_append [of "take n bs" "drop n bs"]
  by (simp add: algebra_simps flip: power_add)

lemma asBigInt_loop_value: "asBigInt_loop result bs = result * 256 ^ length bs + dv_get False bs"
proof (induction result bs rule: asBigInt_loop.induct)
  case (1 result bs)
  have step: "asBigInt_loop (result * 256 ^ n + dv_get False (take n bs)) (drop n bs) =
      result * 256 ^ length bs + dv_get False bs"
    if "asBigInt_loop (result * 256 ^ n + dv_get False (take n bs)) (drop n bs) =
      (result * 256 ^ n + dv_get False (take n bs)) * 256 ^ length (drop n bs) + dv_get False (drop n bs)"
      and "n \<le> length bs" for n
    using that asBigInt_step [of n bs result] by simp
  consider "length bs = 0" | "length bs \<ge> 8" | "length bs \<ge> 4" "length bs < 8"
    | "length bs \<ge> 2" "length bs < 4" | "length bs = 1"
    by linarith
  then show ?case
  proof cases
    case 1
    then show ?thesis by (simp add: asBigInt_loop.simps [of result "[]"] dv_get_def)
  next
    case 2
    then show ?thesis using step [of 8] "1.IH"(1) by (simp add: asBigInt_loop.simps [of result bs] Let_def)
  next
    case 3
    then show ?thesis using step [of 4] "1.IH"(2) by (simp add: asBigInt_loop.simps [of result bs] Let_def)
  next
    case 4
    then show ?thesis using step [of 2] "1.IH"(3) by (simp add: asBigInt_loop.simps [of result bs] Let_def)
  next
    case 5
    then show ?thesis
      by (simp add: asBigInt_loop.simps [of result bs] asBigInt_loop.simps [of _ "[]"] Let_def)
  qed
qed

section \<open>Flags and optional fields\<close>

definition has_flag :: "int \<Rightarrow> int \<Rightarrow> bool" where
  "has_flag flags f \<longleftrightarrow> js_and flags f \<noteq> 0"

text \<open>A field that is read only when its flag is set.\<close>

definition read_if :: "bool \<Rightarrow> 'a read \<Rightarrow> 'a option read" where
  "read_if c rd r = (if c then bindE (rd r) (\<lambda>(v, r). Inr (Some v, r)) else Inr (None, r))"

definition opt_below :: "int \<Rightarrow> int option \<Rightarrow> bool" where
  "opt_below b x \<longleftrightarrow> (case x of None \<Rightarrow> True | Some v \<Rightarrow> 0 \<le> v \<and> v < b)"

lemma opt_below_simps [simp]: "opt_below b None" "opt_below b (Some v) \<longleftrightarrow> 0 \<le> v \<and> v < b"
  by (simp_all add: opt_below_def)

lemma read_if_inv:
  assumes "\<And>v r'. rd r = Inr (v, r') \<Longrightarrow> reader_over d r' \<and> 0 \<le> v \<and> v < b"
    and "reader_over d r" "read_if c rd r = Inr (x, r')"
  shows "reader_over d r'" "opt_below b x" "(x \<noteq> None) = c"
  using assms(2,3) assms(1) [of _ r'] by (cases c; auto simp: read_if_def bindE_eq_Inr_iff)+

section \<open>The codec interface\<close>

text \<open>
  A decoder over a reader undoes an encoder on the valid values, whatever follows in the
  buffer.  Encodings are then prefix-free, and a sequence of values can be written one after
  the other and read back in order.
\<close>

fun encode_many :: "('a \<Rightarrow> error + bytes) \<Rightarrow> 'a list \<Rightarrow> error + bytes" where
  "encode_many enc [] = Inr []"
| "encode_many enc (x # xs) =
    bindE (enc x) (\<lambda>b. bindE (encode_many enc xs) (\<lambda>bs. Inr (b @ bs)))"

fun decode_many :: "'a read \<Rightarrow> nat \<Rightarrow> 'a list read" where
  "decode_many dec 0 r = Inr ([], r)"
| "decode_many dec (Suc n) r =
    bindE (dec r) (\<lambda>(x, r). bindE (decode_many dec n r) (\<lambda>(xs, r). Inr (x # xs, r)))"

locale codec =
  fixes enc :: "'a \<Rightarrow> error + bytes"
    and dec :: "'a read"
    and valid :: "'a \<Rightarrow> bool"
  assumes enc_ok: "valid x \<Longrightarrow> \<exists>bs. enc x = Inr bs"
    and dec_enc: "valid x \<Longrightarrow> enc x = Inr bs \<Longrightarrow>
      dec (reader_at pre (bs @ rest)) = Inr (x, reader_at (pre @ bs) rest)"
begin

lemma prefix_free:
  assumes "valid x" "valid y" "enc x = Inr bs" "enc y = Inr cs" "bs @ r = cs @ s"
  shows "x = y \<and> bs = cs \<and> r = s"
proof -
  have "dec (reader_at [] (bs @ r)) = Inr (x, reader_at bs r)"
    using dec_enc [OF assms(1,3), of "[]"] by simp
  moreover have "dec (reader_at [] (bs @ r)) = Inr (y, reader_at cs s)"
    using dec_enc [OF assms(2,4), of "[]"] assms(5) by simp
  ultimately show ?thesis by (auto simp: reader_at_eq_iff)
qed

lemma enc_inject: "valid x \<Longrightarrow> valid y \<Longrightarrow> enc x = enc y \<Longrightarrow> x = y"
  using prefix_free [of x y _ _ "[]" "[]"] enc_ok [of x] by force

lemma many_roundtrip:
  "list_all valid xs \<Longrightarrow> \<exists>bs. encode_many enc xs = Inr bs \<and>
    (\<forall>pre rest. decode_many dec (length xs) (reader_at pre (bs @ rest)) = Inr (xs, reader_at (pre @ bs) rest))"
proof (induction xs)
  case (Cons x xs)
  then obtain bs where bs: "encode_many enc xs = Inr bs"
    "\<And>pre rest. decode_many dec (length xs) (reader_at pre (bs @ rest)) = Inr (xs, reader_at (pre @ bs) rest)"
    by auto
  obtain b where b: "enc x = Inr b" using Cons.prems enc_ok by auto
  have "decode_many dec (length (x # xs)) (reader_at pre ((b @ bs) @ rest)) =
      Inr (x # xs, reader_at (pre @ b @ bs) rest)" for pre rest
    using Cons.prems bs(2) [of "pre @ b" rest] dec_enc [OF _ b, of pre "bs @ rest"] by simp
  then show ?case using b bs(1) by simp
qed simp

end

section \<open>Properties\<close>

text \<open>
  C15: \<open>toByteArray\<close> never runs over its array and returns the chunks in the order they were written.
  The single chunk it leaves behind is the same content, so a second call returns the same bytes.
\<close>

theorem toByteArray_concatenates:
  assumes "wf_writer w"
  shows "\<exists>w'. toByteArray w = Inr (concat (wr_chunks w), w') \<and> wf_writer w' \<and>
    (\<exists>w''. toByteArray w' = Inr (concat (wr_chunks w), w''))"
  using toByteArray_written [OF assms] toByteArray_written unfolding written_def by metis

theorem toByteArray_concatenates_witness:
  "\<exists>w'. toByteArray (writeByteArray [7, 8] (writeUInt16 5 (DataWriter True))) = Inr ([5, 0, 7, 8], w') \<and>
    wf_writer w' \<and> (\<exists>w''. toByteArray w' = Inr ([5, 0, 7, 8], w''))"
  using toByteArray_concatenates [of "writeByteArray [7, 8] (writeUInt16 5 (DataWriter True))"]
  by (simp add: write_defs push_chunk_def DataWriter_def toNumber_small le_bytes_numeral wf_writer_def written_def)

text \<open>
  C16: \<open>asBigInt\<close>, which reads its argument in pieces of eight, four, two and one bytes, is the
  big-endian value of the bytes.
\<close>

theorem asBigInt_big_endian: "asBigInt bs = foldl (\<lambda>acc b. acc * 256 + uint b) 0 bs"
proof -
  have "dv_get False bs = foldl (\<lambda>acc b. acc * 256 + uint b) 0 bs"
    by (induction bs rule: rev_induct) (simp_all add: dv_get_big_append, simp add: dv_get_def)
  then show ?thesis by (simp add: asBigInt_def asBigInt_loop_value)
qed

end
