(* ===== verification/Bitmap_Schema.thy ===== *)
theory Bitmap_Schema
  imports Data_IO
begin

text \<open>
  \<open>BitmapSchema\<close> of the package \<open>types\<close>: named bit ranges packed into one number.  A schema is
  the list of its entries in declaration order, the order \<open>for ... in\<close> visits them.  The value
  object maps a name to a flag or a number, and a name that is missing reads as \<open>undefined\<close>.

  The main lemma is the round trip: when the ranges lie below bit 31, are shorter than 31 bits and do not overlap, and
  each value fits its range, decoding an encoded object gives the object back.
\<close>

datatype bit_range_type = BitFlagType | BitNumberType | BitEnumType

record bit_range =
  br_type :: bit_range_type
  br_offset :: nat
  br_length :: nat

definition BitFlag :: "nat \<Rightarrow> bit_range" where
  "BitFlag off = \<lparr>br_type = BitFlagType, br_offset = off, br_length = 1\<rparr>"

definition BitField :: "nat \<Rightarrow> nat \<Rightarrow> bit_range" where
  "BitField off len = \<lparr>br_type = BitNumberType, br_offset = off, br_length = len\<rparr>"

definition BitFieldEnum :: "nat \<Rightarrow> nat \<Rightarrow> bit_range" where
  "BitFieldEnum off len = \<lparr>br_type = BitEnumType, br_offset = off, br_length = len\<rparr>"

type_synonym bit_schema = "(string \<times> bit_range) list"

datatype bit_value = FlagV bool | NumV int

type_synonym bit_values = "string \<rightharpoonup> bit_value"

fun truthy :: "bit_value option \<Rightarrow> bool" where
  "truthy None = False"
| "truthy (Some (FlagV b)) = b"
| "truthy (Some (NumV n)) = (n \<noteq> 0)"

fun as_num :: "bit_value option \<Rightarrow> int" where
  "as_num None = 0"
| "as_num (Some (FlagV b)) = (if b then 1 else 0)"
| "as_num (Some (NumV n)) = n"

definition bitmap_mask :: "bit_range \<Rightarrow> int" where
  "bitmap_mask br = js_shl (js_shl 1 (int (br_length br)) - 1) (int (br_offset br))"

fun bitmap_encode_loop :: "bit_schema \<Rightarrow> bit_values \<Rightarrow> int \<Rightarrow> int" where
  "bitmap_encode_loop [] v result = result"
| "bitmap_encode_loop ((name, br) # s) v result =
    bitmap_encode_loop s v
      (case br_type br of
         BitFlagType \<Rightarrow> if truthy (v name) then js_or result (bitmap_mask br) else result
       | BitEnumType \<Rightarrow> js_or result (js_shl (as_num (v name)) (int (br_offset br)))
       | BitNumberType \<Rightarrow> js_or result (js_shl (as_num (v name)) (int (br_offset br))))"

definition bitmap_encode :: "bit_schema \<Rightarrow> bit_values \<Rightarrow> int" where
  "bitmap_encode s v = bitmap_encode_loop s v 0"

definition bitmap_decode_entry :: "bit_range \<Rightarrow> int \<Rightarrow> bit_value" where
  "bitmap_decode_entry br bitmap =
    (if br_type br = BitFlagType then FlagV (js_and bitmap (bitmap_mask br) \<noteq> 0)
     else NumV (js_shr (js_and bitmap (bitmap_mask br)) (int (br_offset br))))"

fun bitmap_decode :: "bit_schema \<Rightarrow> int \<Rightarrow> bit_values" where
  "bitmap_decode [] bitmap = Map.empty"
| "bitmap_decode ((name, br) # s) bitmap = (bitmap_decode s bitmap)(name \<mapsto> bitmap_decode_entry br bitmap)"

section \<open>Coherent schemas\<close>

definition br_bits :: "bit_range \<Rightarrow> nat set" where
  "br_bits br = {br_offset br ..< br_offset br + br_length br}"

text \<open>Ranges of different names that do not overlap, and that lie below bit 31 where the bitmap is one number.\<close>

fun apart :: "bit_schema \<Rightarrow> bool" where
  "apart [] = True"
| "apart ((name, br) # s) =
    (br_length br < 31 \<and> (br_type br = BitFlagType \<longrightarrow> br_length br = 1) \<and>
     list_all (\<lambda>(n, b). n \<noteq> name \<and> br_bits b \<inter> br_bits br = {}) s \<and> apart s)"

definition coherent :: "bit_schema \<Rightarrow> bool" where
  "coherent s \<longleftrightarrow> apart s \<and> list_all (\<lambda>(n, b). br_offset b + br_length b \<le> 31) s"

definition fits :: "bit_range \<Rightarrow> bit_value option \<Rightarrow> bool" where
  "fits br v = (case v of
      Some (FlagV b) \<Rightarrow> br_type br = BitFlagType
    | Some (NumV n) \<Rightarrow> br_type br \<noteq> BitFlagType \<and> 0 \<le> n \<and> n < 2 ^ br_length br
    | None \<Rightarrow> False)"

text \<open>The number an entry contributes, with mathematical integers.\<close>

definition entry_num :: "bit_range \<Rightarrow> bit_value option \<Rightarrow> int" where
  "entry_num br v = push_bit (br_offset br) (as_num v)"

lemma as_num_range: "fits br v \<Longrightarrow> br_type br = BitFlagType \<longrightarrow> br_length br = 1 \<Longrightarrow>
    0 \<le> as_num v \<and> as_num v < 2 ^ br_length br"
  by (auto simp: fits_def split: option.splits bit_value.splits)

lemma bitmap_mask_eq:
  assumes "br_offset br + br_length br \<le> 31" "br_length br < 31"
  shows "bitmap_mask br = push_bit (br_offset br) (mask (br_length br))"
proof -
  have "js_shl 1 (int (br_length br)) = 2 ^ br_length br"
    using js_shl_small [of 1 1 "br_length br"] assms by (simp add: push_bit_eq_mult)
  then have "js_shl 1 (int (br_length br)) - 1 = mask (br_length br)"
    by (simp add: mask_eq_exp_minus_1)
  then show ?thesis
    using js_shl_small [of "mask (br_length br)" "br_length br" "br_offset br"] assms
    by (simp add: bitmap_mask_def mask_eq_exp_minus_1)
qed

lemma entry_num_range:
  assumes "fits br v" "br_offset br + br_length br \<le> 31" "br_type br = BitFlagType \<longrightarrow> br_length br = 1"
  shows "0 \<le> entry_num br v" "entry_num br v < 2 ^ 31"
  using as_num_range [OF assms(1,3)] push_bit_less [of "as_num v" "br_length br" "br_offset br" 31] assms(2)
  by (simp_all add: entry_num_def)

fun or_entries :: "bit_schema \<Rightarrow> bit_values \<Rightarrow> int" where
  "or_entries [] v = 0"
| "or_entries ((name, br) # s) v = entry_num br (v name) OR or_entries s v"

lemma encode_step:
  assumes "fits br v" "br_offset br + br_length br \<le> 31" "br_length br < 31"
    "br_type br = BitFlagType \<longrightarrow> br_length br = 1" "0 \<le> r" "r < 2 ^ 31"
  shows "(case br_type br of
         BitFlagType \<Rightarrow> if truthy v then js_or r (bitmap_mask br) else r
       | BitEnumType \<Rightarrow> js_or r (js_shl (as_num v) (int (br_offset br)))
       | BitNumberType \<Rightarrow> js_or r (js_shl (as_num v) (int (br_offset br)))) = r OR entry_num br v"
proof -
  note e = entry_num_range [OF assms(1,2,4)] and n = as_num_range [OF assms(1,4)]
  have "js_shl (as_num v) (int (br_offset br)) = entry_num br v"
    using js_shl_small [of "as_num v" "br_length br"] n assms(2) by (simp add: entry_num_def)
  moreover have "bitmap_mask br = entry_num br v" if "br_type br = BitFlagType" "truthy v"
    using that assms(1-4) by (auto simp: bitmap_mask_eq entry_num_def fits_def split: option.splits bit_value.splits)
  moreover have "entry_num br v = 0" if "br_type br = BitFlagType" "\<not> truthy v"
    using that assms(1) by (auto simp: entry_num_def fits_def split: option.splits bit_value.splits)
  ultimately show ?thesis using e assms(5,6)
    by (simp add: js_or_small split: bit_range_type.split)
qed

lemma encode_loop_or:
  "coherent s \<Longrightarrow> list_all (\<lambda>(n, b). fits b (v n)) s \<Longrightarrow> 0 \<le> r \<Longrightarrow> r < 2 ^ 31 \<Longrightarrow>
    bitmap_encode_loop s v r = r OR or_entries s v \<and> 0 \<le> r OR or_entries s v \<and> r OR or_entries s v < 2 ^ 31"
proof (induction s arbitrary: r rule: apart.induct)
  case (2 name br s)
  define r' where "r' = r OR entry_num br (v name)"
  have e: "0 \<le> entry_num br (v name)" "entry_num br (v name) < 2 ^ 31"
    using entry_num_range [of br "v name"] 2 by (simp_all add: coherent_def)
  then have r': "0 \<le> r'" "r' < 2 ^ 31" using 2 or_less_pow2 [of r 31] by (simp_all add: r'_def)
  have step: "bitmap_encode_loop ((name, br) # s) v r = bitmap_encode_loop s v r'"
    using encode_step [of br "v name" r] 2 by (simp add: r'_def coherent_def)
  have assoc: "r OR or_entries ((name, br) # s) v = r' OR or_entries s v"
    by (simp add: r'_def or.assoc)
  show ?case unfolding step assoc using "2.IH" [OF _ _ r'] "2.prems" by (simp add: coherent_def)
qed simp

lemma coherent_apart: "coherent s \<Longrightarrow> apart s"
  by (simp add: coherent_def)

lemma apart_entry: "apart s \<Longrightarrow> (name, br) \<in> set s \<Longrightarrow> br_length br < 31 \<and> (br_type br = BitFlagType \<longrightarrow> br_length br = 1)"
  by (induction s rule: apart.induct) auto

text \<open>A bit of the packed number belongs to the one entry whose range holds it.\<close>

lemma bit_entry_num: "0 \<le> as_num v \<Longrightarrow> as_num v < 2 ^ br_length br \<Longrightarrow>
    bit (entry_num br v) j \<longleftrightarrow> j \<in> br_bits br \<and> bit (as_num v) (j - br_offset br)"
proof -
  assume "0 \<le> as_num v" "as_num v < 2 ^ br_length br"
  then have "as_num v = take_bit (br_length br) (as_num v)" by (simp add: take_bit_int_eq_self)
  then have "bit (as_num v) (j - br_offset br) \<Longrightarrow> j - br_offset br < br_length br"
    by (metis bit_take_bit_iff)
  then show ?thesis
    by (auto simp: entry_num_def bit_push_bit_iff br_bits_def)
qed

lemma bit_or_entries:
  "apart s \<Longrightarrow> list_all (\<lambda>(n, b). fits b (v n)) s \<Longrightarrow> bit (or_entries s v) j \<Longrightarrow>
    \<exists>(n, b) \<in> set s. j \<in> br_bits b"
proof (induction s rule: apart.induct)
  case (2 name br s)
  then show ?case using as_num_range [of br "v name"]
    by (auto simp: bit_or_iff bit_entry_num)
qed simp

lemma or_entries_bit:
  assumes "apart s" "list_all (\<lambda>(n, b). fits b (v n)) s" "(name, br) \<in> set s" "j \<in> br_bits br"
  shows "bit (or_entries s v) j \<longleftrightarrow> bit (as_num (v name)) (j - br_offset br)"
  using assms
proof (induction s rule: apart.induct)
  case (2 n b s)
  have num: "0 \<le> as_num (v n)" "as_num (v n) < 2 ^ br_length b"
    using as_num_range [of b "v n"] 2 by simp_all
  have disj: "\<And>m c. (m, c) \<in> set s \<Longrightarrow> br_bits c \<inter> br_bits b = {}"
    using 2 by (auto simp: list_all_iff)
  show ?case
  proof (cases "(name, br) = (n, b)")
    case True
    then have "\<not> bit (or_entries s v) j" using bit_or_entries [of s v j] disj 2 by fastforce
    then show ?thesis using True num 2 by (simp add: bit_or_iff bit_entry_num)
  next
    case False
    then have "(name, br) \<in> set s" using 2 by auto
    then show ?thesis using num disj 2 by (auto simp: bit_or_iff bit_entry_num)
  qed
qed simp

lemma decode_entry:
  assumes "coherent s" "list_all (\<lambda>(n, b). fits b (v n)) s" "(name, br) \<in> set s"
  shows "bitmap_decode_entry br (bitmap_encode s v) = the (v name)"
proof -
  define E where "E = or_entries s v"
  have enc: "bitmap_encode s v = E" "0 \<le> E" "E < 2 ^ 31"
    using encode_loop_or [OF assms(1,2), of 0] by (simp_all add: bitmap_encode_def E_def)
  have br: "br_offset br + br_length br \<le> 31" "br_length br < 31" "br_type br = BitFlagType \<longrightarrow> br_length br = 1"
    using assms(1,3) apart_entry by (auto simp: coherent_def list_all_iff)
  have fit: "fits br (v name)" using assms(2,3) by (auto simp: list_all_iff)
  note num = as_num_range [OF fit br(3)]
  define M :: int where "M = push_bit (br_offset br) (mask (br_length br))"
  have M: "bitmap_mask br = M" "0 \<le> M" "M < 2 ^ 31"
    using bitmap_mask_eq [OF br(1,2)] push_bit_less [of "mask (br_length br)" "br_length br" "br_offset br" 31] br
    by (simp_all add: M_def mask_eq_exp_minus_1)
  have "E AND M = entry_num br (v name)"
  proof (rule bit_eqI)
    fix j
    show "bit (E AND M) j \<longleftrightarrow> bit (entry_num br (v name)) j"
      using or_entries_bit [OF coherent_apart [OF assms(1)] assms(2,3), of j] num
      by (auto simp: bit_and_iff M_def bit_push_bit_iff bit_mask_iff bit_entry_num E_def br_bits_def)
  qed
  then have and_eq: "js_and (bitmap_encode s v) (bitmap_mask br) = entry_num br (v name)"
    using enc M by (simp add: js_and_small)
  have shr: "js_shr (entry_num br (v name)) (int (br_offset br)) = as_num (v name)"
    using entry_num_range [OF fit br(1,3)] br(1)
    by (simp add: js_shr_def to_int32_id) (simp add: entry_num_def drop_bit_eq_div push_bit_eq_mult)
  show ?thesis
    using fit unfolding bitmap_decode_entry_def and_eq shr
    by (auto simp: fits_def entry_num_def split: option.splits bit_value.splits)
qed

lemma bitmap_decode_map: "apart s \<Longrightarrow> (name, br) \<in> set s \<Longrightarrow>
    bitmap_decode s x name = Some (bitmap_decode_entry br x)"
  by (induction s rule: apart.induct) (auto simp: list_all_iff)

lemma bitmap_decode_encode:
  assumes "coherent s" "list_all (\<lambda>(n, b). fits b (v n)) s" "(name, br) \<in> set s"
  shows "bitmap_decode s (bitmap_encode s v) name = v name"
proof -
  have "fits br (v name)" using assms(2,3) by (auto simp: list_all_iff)
  then have "v name \<noteq> None" by (cases "v name") (simp_all add: fits_def)
  then show ?thesis using decode_entry [OF assms] bitmap_decode_map [OF coherent_apart [OF assms(1)] assms(3)] by auto
qed

text \<open>The packed number needs no more bits than the schema spans.\<close>

lemma or_entries_range:
  "apart s \<Longrightarrow> list_all (\<lambda>(n, b). fits b (v n)) s \<Longrightarrow>
    list_all (\<lambda>(n, b). br_offset b + br_length b \<le> m) s \<Longrightarrow> 0 \<le> or_entries s v \<and> or_entries s v < 2 ^ m"
proof (induction s rule: apart.induct)
  case (2 name br s)
  have "0 \<le> entry_num br (v name)" "entry_num br (v name) < 2 ^ m"
    using as_num_range [of br "v name"] push_bit_less [of "as_num (v name)" "br_length br" "br_offset br" m] 2
    by (simp_all add: entry_num_def)
  then show ?case using 2 or_less_pow2 [of "entry_num br (v name)" m "or_entries s v"] by simp
qed simp

lemma bitmap_encode_range:
  assumes "coherent s" "list_all (\<lambda>(n, b). fits b (v n)) s" "list_all (\<lambda>(n, b). br_offset b + br_length b \<le> m) s"
  shows "0 \<le> bitmap_encode s v" "bitmap_encode s v < 2 ^ m"
  using encode_loop_or [OF assms(1,2), of 0] or_entries_range [OF coherent_apart [OF assms(1)] assms(2,3)] by (simp_all add: bitmap_encode_def)

section \<open>Bitmaps in a byte array\<close>

text \<open>
  \<open>ByteArrayBitmapSchema\<close> spreads its ranges over an array of bytes.  Its two loops run until a number becomes zero, which
  is not evident for a signed number: \<open>None\<close> stands for a loop that does not end.
\<close>

definition array_mask :: "bit_range \<Rightarrow> int" where
  "array_mask br =
    (if br_type br = BitFlagType then js_shl 1 (int (br_offset br mod 8)) else js_shl 1 (int (br_length br)) - 1)"

definition byteArrayLength :: "bit_schema \<Rightarrow> nat" where
  "byteArrayLength s = (foldl (\<lambda>m (name, br). max m (br_offset br + br_length br)) 0 s + 7) div 8"

text \<open>Elements outside a typed array read as \<open>undefined\<close>, which bit operators take for zero, and are not written.\<close>

definition byte_at :: "bytes \<Rightarrow> nat \<Rightarrow> int" where
  "byte_at bs i = (if i < length bs then uint (bs ! i) else 0)"

definition or_byte :: "bytes \<Rightarrow> nat \<Rightarrow> int \<Rightarrow> bytes" where
  "or_byte bs i v = (if i < length bs then bs[i := word_of_int (js_or (uint (bs ! i)) v)] else bs)"

partial_function (option) write_bits :: "int \<Rightarrow> nat \<Rightarrow> nat \<Rightarrow> bytes \<Rightarrow> bytes option" where
  "write_bits numValue bitOffset byteOffset result =
    (if numValue = 0 then Some result
     else write_bits (js_shr numValue (int (8 - bitOffset))) 0 (byteOffset + 1)
       (or_byte result byteOffset (js_and (js_shl numValue (int bitOffset)) 0xff)))"

fun array_encode_loop :: "bit_schema \<Rightarrow> bit_values \<Rightarrow> bytes \<Rightarrow> bytes option" where
  "array_encode_loop [] v result = Some result"
| "array_encode_loop ((name, br) # s) v result =
    Option.bind
      (if br_type br = BitFlagType then Some (if truthy (v name) then or_byte result (br_offset br div 8) (array_mask br) else result)
       else write_bits (js_and (as_num (v name)) (array_mask br)) (br_offset br mod 8) (br_offset br div 8) result)
      (array_encode_loop s v)"

definition array_encode :: "bit_schema \<Rightarrow> bit_values \<Rightarrow> bytes option" where
  "array_encode s v = array_encode_loop s v (replicate (byteArrayLength s) 0)"

partial_function (option) read_bits :: "bytes \<Rightarrow> int \<Rightarrow> nat \<Rightarrow> nat \<Rightarrow> nat \<Rightarrow> int \<Rightarrow> int option" where
  "read_bits bitmap m bitOffset byteOffset valueBitOffset v =
    (if m = 0 then Some v
     else read_bits bitmap (js_shr m (int (8 - bitOffset))) 0 (byteOffset + 1) (valueBitOffset + (8 - bitOffset))
       (js_or v (js_shl (js_and (js_shr (byte_at bitmap byteOffset) (int bitOffset)) m) (int valueBitOffset))))"

definition array_decode_entry :: "bit_range \<Rightarrow> bytes \<Rightarrow> bit_value option" where
  "array_decode_entry br bitmap =
    (if br_type br = BitFlagType then Some (FlagV (js_and (byte_at bitmap (br_offset br div 8)) (array_mask br) \<noteq> 0))
     else map_option NumV (read_bits bitmap (array_mask br) (br_offset br mod 8) (br_offset br div 8) 0 0))"

fun array_decode_loop :: "bit_schema \<Rightarrow> bytes \<Rightarrow> bit_values option" where
  "array_decode_loop [] bitmap = Some Map.empty"
| "array_decode_loop ((name, br) # s) bitmap =
    Option.bind (array_decode_entry br bitmap) (\<lambda>x. map_option (\<lambda>r. r(name \<mapsto> x)) (array_decode_loop s bitmap))"

definition array_decode :: "bit_schema \<Rightarrow> bytes \<Rightarrow> (error + bit_values) option" where
  "array_decode s bitmap =
    (if length bitmap \<noteq> byteArrayLength s then Some (Inl UnexpectedDataError) else map_option Inr (array_decode_loop s bitmap))"

declare write_bits.simps [code] read_bits.simps [code]

subsection \<open>The loops end\<close>

lemma length_or_byte [simp]: "length (or_byte bs i v) = length bs"
  by (simp add: or_byte_def)

lemma js_shr_less: "0 \<le> n \<Longrightarrow> n < 2147483648 \<Longrightarrow> n \<noteq> 0 \<Longrightarrow> bo < 8 \<Longrightarrow> 0 \<le> js_shr n (int (8 - bo)) \<and> js_shr n (int (8 - bo)) < n"
proof -
  assume a: "0 \<le> n" "n < 2147483648" "n \<noteq> 0" "bo < 8"
  have "(2 :: int) ^ 1 \<le> 2 ^ (8 - bo)" using a(4) by (intro power_increasing) auto
  then have "n div 2 ^ (8 - bo) < n" using a by (intro int_div_less_self) auto
  then show ?thesis using a js_shr_small [of n "8 - bo"] by (simp add: pos_imp_zdiv_nonneg_iff)
qed

lemma write_bits_ends: "0 \<le> n \<Longrightarrow> n < 2147483648 \<Longrightarrow> bo < 8 \<Longrightarrow> \<exists>r. write_bits n bo i bs = Some r \<and> length r = length bs"
proof (induction "nat n" arbitrary: n bo i bs rule: less_induct)
  case less
  show ?case
  proof (cases "n = 0")
    case False
    note d = js_shr_less [OF less(2,3) False less(4)]
    have "\<exists>r. write_bits (js_shr n (int (8 - bo))) 0 (i + 1) bs' = Some r \<and> length r = length bs'" for bs'
      by (rule less(1)) (use d less(3) in auto)
    from this [of "or_byte bs i (js_and (js_shl n (int bo)) 0xff)"] show ?thesis
      using False by (subst write_bits.simps) (simp add: length_or_byte)
  qed (simp add: write_bits.simps)
qed

lemma read_bits_ends: "0 \<le> m \<Longrightarrow> m < 2147483648 \<Longrightarrow> bo < 8 \<Longrightarrow> \<exists>r. read_bits bs m bo i k v = Some r"
proof (induction "nat m" arbitrary: m bo i k v rule: less_induct)
  case less
  show ?case
  proof (cases "m = 0")
    case False
    note d = js_shr_less [OF less(2,3) False less(4)]
    have "\<exists>r. read_bits bs (js_shr m (int (8 - bo))) 0 (i + 1) k' v' = Some r" for k' v'
      by (rule less(1)) (use d less(3) in auto)
    then show ?thesis using False by (subst read_bits.simps) simp
  qed (simp add: read_bits.simps)
qed

text \<open>The mask of a number is a block of ones, except for a length of 31, where the subtraction leaves the 32-bit range; bit
  operators take that mask for 31 ones as well.\<close>

lemma number_mask: "js_shl 1 (int len) - 1 = mask (len mod 32) \<or> js_shl 1 (int len) - 1 = - 2147483649"
proof -
  have e: "js_shl 1 (int len) = js_shl 1 (int (len mod 32))" by (simp add: js_shl_def zmod_int)
  show ?thesis
  proof (cases "len mod 32 = 31")
    case True
    then have "js_shl 1 (int len) = - 2147483648" unfolding e by (simp add: js_shl_def to_int32_id push_bit_eq_mult to_int32_high)
    then show ?thesis by simp
  next
    case False
    have "len mod 32 < 32" by simp
    then have "js_shl 1 (int (len mod 32)) = 2 ^ (len mod 32)"
      using False js_shl_small [of 1 1 "len mod 32"] by (simp add: push_bit_eq_mult)
    then show ?thesis unfolding e by (simp add: mask_eq_exp_minus_1)
  qed
qed

lemma js_and_range: "0 \<le> to_int32 m \<Longrightarrow> 0 \<le> js_and x m \<and> js_and x m < 2147483648"
  using AND_upper2 [of "to_int32 m" "to_int32 x"] to_int32_range(2) [of m] by (simp add: js_and_def)

lemma number_mask_int32: "0 \<le> to_int32 (js_shl 1 (int len) - 1)"
proof -
  have "(2 :: int) ^ (len mod 32) \<le> 2 ^ 31" by (intro power_increasing) auto
  then have "to_int32 (mask (len mod 32)) = mask (len mod 32)" by (intro to_int32_id_nonneg) (simp_all add: mask_eq_exp_minus_1)
  moreover have "to_int32 (- 2147483649) = 2147483647" by (simp add: to_int32_def)
  ultimately show ?thesis using number_mask [of len] by (elim disjE) (simp_all only: mask_nonnegative_int zero_le_numeral)
qed

lemma array_encode_loop_ends: "\<exists>r. array_encode_loop s v bs = Some r \<and> length r = length bs"
proof (induction s arbitrary: bs rule: apart.induct)
  case (2 name br s)
  have "\<exists>r. (if br_type br = BitFlagType then Some (if truthy (v name) then or_byte bs (br_offset br div 8) (array_mask br) else bs)
       else write_bits (js_and (as_num (v name)) (array_mask br)) (br_offset br mod 8) (br_offset br div 8) bs) = Some r \<and> length r = length bs"
    using js_and_range [OF number_mask_int32, of "as_num (v name)" "br_length br"]
    by (simp add: array_mask_def write_bits_ends)
  then obtain r where "array_encode_loop ((name, br) # s) v bs = array_encode_loop s v r" "length r = length bs" by force
  then show ?case using 2 [of r] by metis
qed simp

lemma array_decode_entry_ends: "\<exists>x. array_decode_entry br bs = Some x"
proof (cases "js_shl 1 (int (br_length br)) - 1 = - 2147483649")
  case True
  define d where "d = 8 - br_offset br mod 8"
  have d: "d < 32" unfolding d_def by simp
  have "js_shr (- 2147483649) (int d) = js_shr 2147483647 (int d)" by (simp add: js_shr_def to_int32_def)
  then have "0 \<le> js_shr (- 2147483649) (int d)" "js_shr (- 2147483649) (int d) < 2147483648"
    using js_shr_small [OF _ _ d, of 2147483647] d zdiv_mono2 [of 2147483647 1 "2 ^ d"] by (simp_all add: pos_imp_zdiv_nonneg_iff)
  then have "\<exists>r. read_bits bs (- 2147483649) (br_offset br mod 8) (br_offset br div 8) 0 0 = Some r"
    by (subst read_bits.simps) (simp add: read_bits_ends d_def)
  then show ?thesis by (auto simp: array_decode_entry_def array_mask_def True simp del: diff_eq_eq)
next
  case False
  have "(2 :: int) ^ (br_length br mod 32) \<le> 2 ^ 31" by (intro power_increasing) auto
  then show ?thesis using False number_mask [of "br_length br"] read_bits_ends [of "mask (br_length br mod 32)" "br_offset br mod 8"]
    by (auto simp: array_decode_entry_def array_mask_def mask_eq_exp_minus_1)
qed

lemma array_decode_loop_ends: "\<exists>r. array_decode_loop s bs = Some r"
proof (induction s rule: apart.induct)
  case (2 name br s)
  then show ?case using array_decode_entry_ends [of br bs] by auto
qed simp

subsection \<open>The array as one number\<close>

lemma bit_le_value: "bit (le_value bs) k \<longleftrightarrow> k < 8 * length bs \<and> bit (bs ! (k div 8)) (k mod 8)"
proof (induction bs arbitrary: k)
  case (Cons b bs)
  have "le_value (b # bs) = concat_bit 8 (uint b) (le_value bs)"
    using uint_byte_bounds [of b] by (simp add: concat_bit_eq push_bit_eq_mult take_bit_int_eq_self)
  then have "bit (le_value (b # bs)) k \<longleftrightarrow> (if k < 8 then bit b k else bit (le_value bs) (k - 8))"
    by (simp add: bit_concat_bit_iff bit_uint_iff not_less)
  moreover have "k div 8 = Suc ((k - 8) div 8)" "k mod 8 = (k - 8) mod 8" if "\<not> k < 8" using that by (simp_all add: le_div_geq le_mod_geq)
  ultimately show ?case unfolding Cons.IH by (cases "k < 8") (auto simp del: le_value.simps)
qed simp

lemma byte_at_value: "byte_at bs i = take_bit 8 (drop_bit (8 * i) (le_value bs))"
proof (rule bit_eqI)
  fix k
  have "k < 8 \<Longrightarrow> (8 * i + k) div 8 = i \<and> (8 * i + k) mod 8 = k \<and> (8 * i + k < 8 * length bs \<longleftrightarrow> i < length bs)" by auto
  then show "bit (byte_at bs i) k \<longleftrightarrow> bit (take_bit 8 (drop_bit (8 * i) (le_value bs))) k"
    by (auto simp: byte_at_def bit_take_bit_iff bit_drop_bit_eq bit_le_value bit_uint_iff)
qed

lemma or_byte_value:
  assumes "i < length bs" "0 \<le> v" "v < 256"
  shows "le_value (or_byte bs i v) = le_value bs OR push_bit (8 * i) v"
proof (rule bit_eqI)
  fix k
  have v: "bit v j \<Longrightarrow> j < 8" for j using take_bit_int_eq_self [of v 8] bit_take_bit_iff [of 8 v j] assms(2,3) by simp
  have e: "bs[i := w] ! j = (if j = i then w else bs ! j)" for w j using assms(1) by (simp add: nth_list_update)
  have "js_or (uint (bs ! i)) v = uint (bs ! i) OR v" using js_or_eval(1) uint_byte_bounds [of "bs ! i"] assms by simp
  then have "le_value (or_byte bs i v) = le_value (bs[i := word_of_int (uint (bs ! i) OR v)])" using assms by (simp add: or_byte_def)
  then show "bit (le_value (or_byte bs i v)) k \<longleftrightarrow> bit (le_value bs OR push_bit (8 * i) v) k"
    using v [of "k - 8 * i"] assms(1) by (auto simp: bit_le_value bit_or_iff bit_push_bit_iff e bit_word_of_int_iff bit_uint_iff minus_mult_div_eq_mod)
qed

lemma push_bit_chunks: "push_bit (8 * i + b) n = push_bit (8 * i) (take_bit 8 (push_bit b n)) OR push_bit (8 * (i + 1)) (drop_bit (8 - b) n)"
  if "b < 8" for n :: int
proof (rule bit_eqI)
  fix k
  have "8 * i + 8 \<le> k \<Longrightarrow> 8 - b + (k - (8 * i + 8)) = k - (8 * i + b)" using that by simp
  then show "bit (push_bit (8 * i + b) n) k \<longleftrightarrow> bit (push_bit (8 * i) (take_bit 8 (push_bit b n)) OR push_bit (8 * (i + 1)) (drop_bit (8 - b) n)) k"
    using that by (cases "k < 8 * i + 8") (simp_all add: bit_simps, auto)
qed

lemma chunk_value: "js_and (js_shl n (int b)) 0xff = take_bit 8 (push_bit b n)" if "b < 8"
proof -
  have b: "nat (int b mod 32) = b" using that by simp
  have "js_and (js_shl n (int b)) 0xff = take_bit 8 (js_shl n (int b))" by (simp add: js_and_ff take_bit_eq_mod)
  also have "\<dots> = take_bit 8 (push_bit b n)"
    unfolding js_shl_def b to_int32_def by (rule bit_eqI) (auto simp: bit_take_bit_iff bit_signed_take_bit_iff bit_push_bit_iff min_def)
  finally show ?thesis .
qed

lemma drop_bit_less: "0 \<le> n \<Longrightarrow> n < 2 ^ len \<Longrightarrow> drop_bit d n < 2 ^ (len - d)" for n :: int
proof (cases "d \<le> len")
  case True
  then have "(2 :: int) ^ len = 2 ^ (len - d) * 2 ^ d" by (simp flip: power_add)
  moreover have "n div 2 ^ d * 2 ^ d \<le> n" using minus_mod_eq_div_mult [of n "2 ^ d"] pos_mod_sign [of "2 ^ d" n] zero_less_power [of "2 :: int" d] by linarith
  ultimately have "n < 2 ^ len \<Longrightarrow> n div 2 ^ d * 2 ^ d < 2 ^ (len - d) * 2 ^ d" by linarith
  then show "n < 2 ^ len \<Longrightarrow> drop_bit d n < 2 ^ (len - d)" by (simp add: drop_bit_eq_div)
next
  case False
  then have "(2 :: int) ^ len \<le> 2 ^ d" by (intro power_increasing) auto
  then have "0 \<le> n \<Longrightarrow> n < 2 ^ len \<Longrightarrow> n div 2 ^ d = 0" by (intro div_pos_pos_trivial) linarith+
  then show "0 \<le> n \<Longrightarrow> n < 2 ^ len \<Longrightarrow> drop_bit d n < 2 ^ (len - d)" by (simp add: drop_bit_eq_div)
qed

lemma write_bits_value:
  assumes "0 \<le> n" "n < 2147483648" "b < 8" "n < 2 ^ len" "8 * i + b + len \<le> 8 * length bs"
  shows "\<exists>r. write_bits n b i bs = Some r \<and> length r = length bs \<and> le_value r = le_value bs OR push_bit (8 * i + b) n"
  using assms
proof (induction "nat n" arbitrary: n b i bs len rule: less_induct)
  case less
  show ?case
  proof (cases "n = 0")
    case False
    define w where "w = or_byte bs i (js_and (js_shl n (int b)) 0xff)"
    have l: "len \<noteq> 0" using False less(2,5) by (intro notI) simp
    then have w: "le_value w = le_value bs OR push_bit (8 * i) (take_bit 8 (push_bit b n))"
      unfolding w_def chunk_value [OF less(4)] using less(4,6) take_bit_int_less_exp [of 8] by (intro or_byte_value) auto
    note d = js_shr_less [OF less(2,3) False less(4)]
    have s: "js_shr n (int (8 - b)) = drop_bit (8 - b) n"
      using js_shr_small [OF less(2,3), of "8 - b"] by (simp add: drop_bit_eq_div)
    have "drop_bit (8 - b) n < 2 ^ (len - (8 - b))" by (rule drop_bit_less [OF less(2,5)])
    moreover have i: "i < length bs" and pos: "0 < n" using l False less(2,6) by auto
    moreover from i have "8 * (i + 1) + 0 + (len - (8 - b)) \<le> 8 * length w" using less(4,6) by (cases "len \<le> 8 - b") (simp_all add: w_def)
    ultimately have "\<exists>r. write_bits (drop_bit (8 - b) n) 0 (i + 1) w = Some r \<and> length r = length w \<and>
        le_value r = le_value w OR push_bit (8 * (i + 1) + 0) (drop_bit (8 - b) n)"
      using d pos less(3) unfolding s by (intro less(1) [where len = "len - (8 - b)"]) simp_all
    then show ?thesis using False w push_bit_chunks [OF less(4), of i n]
      by (subst write_bits.simps) (auto simp: s w_def or.assoc)
  qed (simp add: write_bits.simps)
qed

lemma number_mask_small: "len < 31 \<Longrightarrow> js_shl 1 (int len) - 1 = mask len \<and> mask len < (2147483648 :: int)"
proof -
  assume len: "len < 31"
  have "(2 :: int) ^ len \<le> 2 ^ 31" using len by (intro power_increasing) auto
  then show ?thesis using js_shl_small [of 1 1 len] len by (simp add: mask_eq_exp_minus_1 push_bit_eq_mult)
qed

lemma array_encode_loop_value:
  assumes "apart s" "list_all (\<lambda>(n, b). fits b (v n)) s" "list_all (\<lambda>(n, b). br_offset b + br_length b \<le> 8 * length bs) s"
  shows "\<exists>r. array_encode_loop s v bs = Some r \<and> length r = length bs \<and> le_value r = le_value bs OR or_entries s v"
  using assms
proof (induction s arbitrary: bs rule: apart.induct)
  case (2 name br s)
  have fit: "fits br (v name)" and len: "br_length br < 31" "br_type br = BitFlagType \<longrightarrow> br_length br = 1"
    and off: "br_offset br + br_length br \<le> 8 * length bs" using 2(2-4) by simp_all
  note num = as_num_range [OF fit len(2)]
  have o: "8 * (br_offset br div 8) + br_offset br mod 8 = br_offset br" by simp
  have "\<exists>r. (if br_type br = BitFlagType then Some (if truthy (v name) then or_byte bs (br_offset br div 8) (array_mask br) else bs)
       else write_bits (js_and (as_num (v name)) (array_mask br)) (br_offset br mod 8) (br_offset br div 8) bs) = Some r \<and>
       length r = length bs \<and> le_value r = le_value bs OR entry_num br (v name)"
  proof (cases "br_type br = BitFlagType")
    case True
    have "br_offset br div 8 < length bs" using off len(2) True by auto
    moreover have m: "array_mask br = push_bit (br_offset br mod 8) 1" "push_bit (br_offset br mod 8) (1 :: int) < 256"
      using True js_shl_small [of 1 1 "br_offset br mod 8"] push_bit_less [of 1 1 "br_offset br mod 8" 8] by (simp_all add: array_mask_def)
    ultimately have "le_value (or_byte bs (br_offset br div 8) (array_mask br)) = le_value bs OR push_bit (br_offset br) 1"
      by (subst or_byte_value) (simp_all only: m push_bit_push_bit o add.commute [of "br_offset br mod 8"] push_bit_nonnegative_int_iff zero_le_one)
    then show ?thesis using True fit by (auto simp: entry_num_def fits_def split: option.splits bit_value.splits)
  next
    case False
    note m = number_mask_small [OF len(1)]
    have "(2 :: int) ^ br_length br \<le> 2 ^ 31" using len(1) by (intro power_increasing) auto
    then have n: "as_num (v name) < 2147483648" using num by simp
    have "js_and (as_num (v name)) (array_mask br) = as_num (v name) AND mask (br_length br)"
      unfolding array_mask_def using False num n m by (simp add: js_and_small)
    also have "\<dots> = as_num (v name)" using num by (simp add: take_bit_int_eq_self flip: take_bit_eq_mask)
    finally show ?thesis
      using False num n write_bits_value [of "as_num (v name)" "br_offset br mod 8" "br_length br" "br_offset br div 8" bs] off
      by (simp add: o entry_num_def)
  qed
  then obtain r where r: "array_encode_loop ((name, br) # s) v bs = array_encode_loop s v r" "length r = length bs"
    "le_value r = le_value bs OR entry_num br (v name)" by force
  then show ?case using 2(1) [of r] 2(2-4) by (auto simp: or.assoc)
qed simp

lemma chunk_read:
  assumes "b < 8" "mask j < (2147483648 :: int)"
  shows "js_and (js_shr (byte_at bs i) (int b)) (mask j) = take_bit j (take_bit (8 - b) (drop_bit (8 * i + b) (le_value bs)))"
proof -
  define B where "B = byte_at bs i"
  have B: "0 \<le> B" "B < 256" using take_bit_int_less_exp [of 8 "drop_bit (8 * i) (le_value bs)"] by (simp_all add: B_def byte_at_value)
  have "drop_bit b B \<le> B" using zdiv_mono2 [of B 1 "2 ^ b"] B by (simp add: drop_bit_eq_div)
  then have "js_and (js_shr B (int b)) (mask j) = drop_bit b B AND mask j"
    using js_shr_small [of B b] B assms by (simp add: js_and_small flip: drop_bit_eq_div)
  then show ?thesis unfolding B_def byte_at_value by (simp add: take_bit_eq_mask [symmetric] drop_bit_take_bit add.commute)
qed

lemma chunk_join:
  fixes L :: int
  assumes "b < 8" "8 - b \<le> j"
  shows "push_bit k (take_bit j (take_bit (8 - b) (drop_bit (8 * i + b) L))) OR
      push_bit (k + (8 - b)) (take_bit (j - (8 - b)) (drop_bit (8 * (i + 1) + 0) L)) = push_bit k (take_bit j (drop_bit (8 * i + b) L))"
proof (rule bit_eqI)
  fix n
  have "k + (8 - b) \<le> n \<Longrightarrow> 8 * (i + 1) + 0 + (n - (k + (8 - b))) = 8 * i + b + (n - k)" using assms by simp
  then show "bit (push_bit k (take_bit j (take_bit (8 - b) (drop_bit (8 * i + b) L))) OR
      push_bit (k + (8 - b)) (take_bit (j - (8 - b)) (drop_bit (8 * (i + 1) + 0) L))) n \<longleftrightarrow>
      bit (push_bit k (take_bit j (drop_bit (8 * i + b) L))) n"
    using assms by (cases "k + (8 - b) \<le> n") (auto simp: bit_or_iff bit_push_bit_iff bit_take_bit_iff bit_drop_bit_eq)
qed

lemma read_bits_value:
  assumes "b < 8" "k + j \<le> 31" "0 \<le> v" "v < 2 ^ 31"
  shows "read_bits bs (mask j) b i k v = Some (v OR push_bit k (take_bit j (drop_bit (8 * i + b) (le_value bs))))"
  using assms
proof (induction j arbitrary: b i k v rule: less_induct)
  case (less j)
  show ?case
  proof (cases "j = 0")
    case False
    define L where "L = le_value bs"
    define c where "c = take_bit j (take_bit (8 - b) (drop_bit (8 * i + b) L))"
    have "(2 :: int) ^ j \<le> 2 ^ 31" using less(3) by (intro power_increasing) auto
    then have m: "mask j < (2147483648 :: int)" by (simp add: mask_eq_exp_minus_1)
    have "js_and (js_shr (byte_at bs i) (int b)) (mask j) = c" unfolding c_def L_def using m less(2) by (intro chunk_read) auto
    moreover have c: "0 \<le> c" "c < 2 ^ j" using take_bit_int_less_exp [of j] by (simp_all add: c_def del: take_bit_take_bit)
    moreover have "js_shl c (int k) = push_bit k c" using js_shl_small [OF c] less(3) by (simp add: add.commute)
    moreover have p: "push_bit k c < 2 ^ 31" using push_bit_less [OF c, of k 31] less(3) by simp
    ultimately have "js_or v (js_shl (js_and (js_shr (byte_at bs i) (int b)) (mask j)) (int k)) = v OR push_bit k c"
      using less(4,5) by (simp add: js_or_small)
    then have step: "read_bits bs (mask j) b i k v = read_bits bs (mask (j - (8 - b))) 0 (i + 1) (k + (8 - b)) (v OR push_bit k c)"
      using False m js_shr_small [of "mask j" "8 - b"]
      by (subst read_bits.simps) (simp add: drop_bit_mask_eq of_nat_diff flip: drop_bit_eq_div)
    show ?thesis
    proof (cases "j \<le> 8 - b")
      case True
      then have "c = take_bit j (drop_bit (8 * i + b) L)" by (simp add: c_def)
      then show ?thesis unfolding step using True by (simp add: read_bits.simps L_def)
    next
      case False
      have "v OR push_bit k c < 2 ^ 31" using or_less_pow2 [of v 31 "push_bit k c"] p c less(4,5) by simp
      then have "read_bits bs (mask (j - (8 - b))) 0 (i + 1) (k + (8 - b)) (v OR push_bit k c) =
          Some ((v OR push_bit k c) OR push_bit (k + (8 - b)) (take_bit (j - (8 - b)) (drop_bit (8 * (i + 1) + 0) L)))"
        unfolding L_def using False less(2-5) c by (intro less(1)) simp_all
      moreover have "push_bit k c OR push_bit (k + (8 - b)) (take_bit (j - (8 - b)) (drop_bit (8 * (i + 1) + 0) L)) =
          push_bit k (take_bit j (drop_bit (8 * i + b) L))"
        unfolding c_def using False less(2) by (intro chunk_join) auto
      ultimately show ?thesis unfolding step by (simp add: or.assoc L_def)
    qed
  qed (simp add: read_bits.simps)
qed

lemma array_decode_entry_value:
  assumes "apart s" "list_all (\<lambda>(n, b). fits b (v n)) s" "(name, br) \<in> set s" "le_value bs = or_entries s v"
  shows "array_decode_entry br bs = v name"
proof -
  have len: "br_length br < 31" "br_type br = BitFlagType \<longrightarrow> br_length br = 1" using apart_entry [OF assms(1,3)] by simp_all
  have fit: "fits br (v name)" using assms(2,3) by (auto simp: list_all_iff)
  note num = as_num_range [OF fit len(2)]
  have o: "8 * (br_offset br div 8) + br_offset br mod 8 = br_offset br" by simp
  have val: "take_bit (br_length br) (drop_bit (br_offset br) (le_value bs)) = as_num (v name)"
  proof (rule bit_eqI)
    fix j
    have "bit (as_num (v name)) j \<Longrightarrow> j < br_length br" using num take_bit_int_eq_self [of "as_num (v name)"] bit_take_bit_iff by metis
    then show "bit (take_bit (br_length br) (drop_bit (br_offset br) (le_value bs))) j \<longleftrightarrow> bit (as_num (v name)) j"
      using or_entries_bit [OF assms(1-3), of "br_offset br + j"] by (auto simp: assms(4) bit_take_bit_iff bit_drop_bit_eq br_bits_def)
  qed
  show ?thesis
  proof (cases "br_type br = BitFlagType")
    case True
    have m: "array_mask br = 2 ^ (br_offset br mod 8)" "(2 :: int) ^ (br_offset br mod 8) < 256"
      using True js_shl_small [of 1 1 "br_offset br mod 8"] push_bit_less [of 1 1 "br_offset br mod 8" 8]
      by (simp_all add: array_mask_def push_bit_eq_mult)
    have "js_and (byte_at bs (br_offset br div 8)) (array_mask br) \<noteq> 0 \<longleftrightarrow> byte_at bs (br_offset br div 8) AND push_bit (br_offset br mod 8) 1 \<noteq> 0"
      using m take_bit_int_less_exp [of 8 "drop_bit (8 * (br_offset br div 8)) (le_value bs)"] by (simp add: js_and_small byte_at_value)
    also have "\<dots> \<longleftrightarrow> bit (le_value bs) (br_offset br)"
      unfolding bit_iff_and_push_bit_not_eq_0 [symmetric] byte_at_value by (simp add: bit_take_bit_iff bit_drop_bit_eq)
    also have "\<dots> \<longleftrightarrow> as_num (v name) \<noteq> 0" unfolding val [symmetric] using len(2) True by (simp add: take_bit_Suc bit_iff_odd_drop_bit mod_2_eq_odd)
    finally show ?thesis using True fit by (auto simp: array_decode_entry_def fits_def split: option.splits bit_value.splits)
  next
    case False
    have "array_mask br = mask (br_length br)" using False number_mask_small [OF len(1)] by (simp add: array_mask_def)
    then show ?thesis using False fit val read_bits_value [of "br_offset br mod 8" 0 "br_length br" 0 bs "br_offset br div 8"] len(1)
      by (auto simp: array_decode_entry_def fits_def o split: option.splits bit_value.splits)
  qed
qed

lemma array_decode_loop_value:
  assumes "\<And>n b. (n, b) \<in> set s \<Longrightarrow> array_decode_entry b bs = v n" "\<And>n b. (n, b) \<in> set s \<Longrightarrow> v n \<noteq> None" "distinct (map fst s)"
  shows "array_decode_loop s bs = Some (v |` (fst ` set s))"
  using assms
proof (induction s rule: apart.induct)
  case (2 name br s)
  then have "array_decode_loop s bs = Some (v |` (fst ` set s))" by force
  moreover obtain x where "array_decode_entry br bs = Some x" "v name = Some x" using 2(2,3) by (metis list.set_intros(1) option.exhaust)
  moreover have "(v |` (fst ` set s))(name \<mapsto> x) = v |` insert name (fst ` set s)" if "v name = Some x"
    using that by (auto simp: restrict_map_def)
  ultimately show ?case by simp
qed (simp add: restrict_map_def)

lemma apart_distinct: "apart s \<Longrightarrow> distinct (map fst s)"
  by (induction s rule: apart.induct) (auto simp: list_all_iff)

lemma byteArrayLength_covers: "list_all (\<lambda>(n, b). br_offset b + br_length b \<le> 8 * byteArrayLength s) s"
proof -
  define f :: "nat \<Rightarrow> bit_schema \<Rightarrow> nat" where "f = foldl (\<lambda>m (name, br). max m (br_offset br + br_length br))"
  have a: "m \<le> f m s \<and> list_all (\<lambda>(n, b). br_offset b + br_length b \<le> f m s) s" for m s
  proof (induction s arbitrary: m)
    case (Cons a s)
    obtain n b where a: "a = (n, b)" by (cases a)
    have "f m (a # s) = f (max m (br_offset b + br_length b)) s" by (simp add: f_def a)
    then show ?case using Cons [of "max m (br_offset b + br_length b)"] by (simp add: a)
  qed (simp add: f_def)
  have "f 0 s \<le> 8 * byteArrayLength s" unfolding byteArrayLength_def f_def by simp
  then show ?thesis using conjunct2 [OF a [of 0 s]] unfolding list_all_iff by (auto intro: order_trans)
qed

lemma array_decode_encode:
  assumes "apart s" "list_all (\<lambda>(n, b). fits b (v n)) s"
  obtains bs where "array_encode s v = Some bs" "length bs = byteArrayLength s" "array_decode s bs = Some (Inr (v |` (fst ` set s)))"
proof -
  obtain bs where bs: "array_encode s v = Some bs" "length bs = byteArrayLength s" "le_value bs = or_entries s v"
  proof -
    have "le_value (replicate n 0) = 0" for n by (induction n) simp_all
    then show thesis using array_encode_loop_value [OF assms, of "replicate (byteArrayLength s) 0"] byteArrayLength_covers that
      by (auto simp: array_encode_def)
  qed
  have "v n \<noteq> None" if "(n, b) \<in> set s" for n b using assms(2) that by (auto simp: list_all_iff fits_def split: option.splits)
  then have "array_decode_loop s bs = Some (v |` (fst ` set s))"
    using array_decode_entry_value [OF assms _ bs(3)] apart_distinct [OF assms(1)] by (intro array_decode_loop_value) auto
  then show thesis using that bs by (simp add: array_decode_def)
qed

section \<open>Properties\<close>

text \<open>
  C34: the loops of byte array bitmaps end, for every schema and every value or input.
\<close>

theorem array_loops_end: "(\<exists>bs. array_encode s v = Some bs \<and> length bs = byteArrayLength s) \<and> (\<exists>r. array_decode s bitmap = Some r)"
  using array_encode_loop_ends [of s v "replicate (byteArrayLength s) 0"] array_decode_loop_ends [of s bitmap]
  by (auto simp: array_encode_def array_decode_def)

text \<open>
  C19: with a schema whose ranges lie apart within 31 bits, decoding an encoded bitmap gives back every
  entry whose value fits its range.
\<close>

theorem bitmap_roundtrip:
  assumes "coherent s" "list_all (\<lambda>(n, b). fits b (v n)) s" "(name, br) \<in> set s"
  shows "bitmap_decode s (bitmap_encode s v) name = v name"
  using bitmap_decode_encode [OF assms] .

theorem bitmap_roundtrip_witness:
  "bitmap_decode [(''flow'', BitFieldEnum 3 2), (''ble'', BitFlag 1)]
    (bitmap_encode [(''flow'', BitFieldEnum 3 2), (''ble'', BitFlag 1)]
      [''flow'' \<mapsto> NumV 2, ''ble'' \<mapsto> FlagV True]) ''flow'' = Some (NumV 2)"
  using bitmap_roundtrip [of "[(''flow'', BitFieldEnum 3 2), (''ble'', BitFlag 1)]"
      "[''flow'' \<mapsto> NumV 2, ''ble'' \<mapsto> FlagV True]" "''flow''" "BitFieldEnum 3 2"]
  by (simp add: BitFieldEnum_def BitFlag_def br_bits_def fits_def coherent_def)

end
