(* ===== verification/Tlv_Codec.thy ===== *)
theory Tlv_Codec
  imports Bitmap_Schema
begin

text \<open>
  \<open>TlvCodec\<close> of the package \<open>types\<close>: the control byte, tag and primitive value of one Matter TLV
  element.  Each static method is a definition that threads the reader or the writer.

  The lemmas show that an element written with \<open>writeTag\<close> and \<open>writePrimitive\<close> is read back by
  \<open>readTagType\<close> and \<open>readPrimitive\<close>, that the announced lengths are the written ones, and that
  the length classes chosen for integers are the smallest that hold the value.
\<close>

section \<open>Types\<close>

datatype TlvType =
    SignedInt | UnsignedInt | Boolean | Float | Utf8String | ByteString
  | NullType | Structure | ArrayType | ListType | EndOfContainer

fun tlv_type_num :: "TlvType \<Rightarrow> int" where
  "tlv_type_num SignedInt = 0x00"
| "tlv_type_num UnsignedInt = 0x04"
| "tlv_type_num Boolean = 0x08"
| "tlv_type_num Float = 0x0a"
| "tlv_type_num Utf8String = 0x0c"
| "tlv_type_num ByteString = 0x10"
| "tlv_type_num NullType = 0x14"
| "tlv_type_num Structure = 0x15"
| "tlv_type_num ArrayType = 0x16"
| "tlv_type_num ListType = 0x17"
| "tlv_type_num EndOfContainer = 0x18"

datatype TlvLength = OneByte | TwoBytes | FourBytes | EightBytes

fun tlv_length_num :: "TlvLength \<Rightarrow> int" where
  "tlv_length_num OneByte = 0"
| "tlv_length_num TwoBytes = 1"
| "tlv_length_num FourBytes = 2"
| "tlv_length_num EightBytes = 3"

text \<open>
  \<open>TlvTypeLength\<close>: types with a length or value, and \<open>TL_Plain n\<close> for an element whose type
  number \<open>n\<close> stands alone.  The reader does not check that \<open>n\<close> is a known type.
\<close>

datatype TlvTypeLength =
    TL_SignedInt TlvLength
  | TL_UnsignedInt TlvLength
  | TL_Boolean bool
  | TL_Float TlvLength
  | TL_Utf8String TlvLength
  | TL_ByteString TlvLength
  | TL_Plain int

datatype tlv_value =
    IntV int
  | DoubleV js_double
  | StringV js_string
  | BytesV bytes
  | BoolV bool
  | NullV

record TlvTag =
  tag_profile :: "int option"
  tag_id :: "int option"

definition MATTER_COMMON_PROFILE :: int where
  "MATTER_COMMON_PROFILE = 0"

definition ControlByteSchema :: bit_schema where
  "ControlByteSchema = [(''typeLength'', BitField 0 5), (''tagControl'', BitFieldEnum 5 3)]"

section \<open>Length classes\<close>

definition getUIntTlvLength :: "int \<Rightarrow> TlvLength" where
  "getUIntTlvLength v =
    (if v \<le> 0xff then OneByte else if v \<le> 0xffff then TwoBytes
     else if v \<le> 0xffffffff then FourBytes else EightBytes)"

definition getIntTlvLength :: "int \<Rightarrow> TlvLength" where
  "getIntTlvLength v =
    (if v > 0 then
       if v \<le> 127 then OneByte else if v \<le> 32767 then TwoBytes
       else if v \<le> 2147483647 then FourBytes else EightBytes
     else
       if v \<ge> - 128 then OneByte else if v \<ge> - 32768 then TwoBytes
       else if v \<ge> - 2147483648 then FourBytes else EightBytes)"

fun getUIntByteLength :: "TlvLength \<Rightarrow> int" where
  "getUIntByteLength OneByte = 1"
| "getUIntByteLength TwoBytes = 2"
| "getUIntByteLength FourBytes = 4"
| "getUIntByteLength EightBytes = 8"

section \<open>Reading\<close>

definition readTag :: "int \<Rightarrow> TlvTag option read" where
  "readTag tagControl r =
    (if tagControl = 0 then Inr (None, r)
     else if tagControl = 1 then
       bindE (readUInt8 r) (\<lambda>(i, r). Inr (Some \<lparr>tag_profile = None, tag_id = Some i\<rparr>, r))
     else if tagControl = 2 then
       bindE (readUInt16 r)
         (\<lambda>(i, r). Inr (Some \<lparr>tag_profile = Some MATTER_COMMON_PROFILE, tag_id = Some i\<rparr>, r))
     else if tagControl = 3 then
       bindE (readUInt32 r)
         (\<lambda>(i, r). Inr (Some \<lparr>tag_profile = Some MATTER_COMMON_PROFILE, tag_id = Some i\<rparr>, r))
     else if tagControl = 4 \<or> tagControl = 5 then Inl NotImplementedError
     else if tagControl = 6 then
       bindE (readUInt32 r) (\<lambda>(p, r). bindE (readUInt16 r)
         (\<lambda>(i, r). Inr (Some \<lparr>tag_profile = Some p, tag_id = Some i\<rparr>, r)))
     else Inl NotImplementedError)"

definition tlv_length_of :: "int \<Rightarrow> TlvLength" where
  "tlv_length_of n =
    (if n = 0 then OneByte else if n = 1 then TwoBytes else if n = 2 then FourBytes else EightBytes)"

definition parseTypeLength :: "int \<Rightarrow> TlvTypeLength" where
  "parseTypeLength typeLength =
    (let len = tlv_length_of (js_and typeLength 0x03); type = js_and typeLength 0xfc in
     if type = tlv_type_num Utf8String then TL_Utf8String len
     else if type = tlv_type_num ByteString then TL_ByteString len
     else if type = tlv_type_num SignedInt then TL_SignedInt len
     else if type = tlv_type_num UnsignedInt then TL_UnsignedInt len
     else if type = tlv_type_num Boolean then
       (case len of
          OneByte \<Rightarrow> TL_Boolean False
        | TwoBytes \<Rightarrow> TL_Boolean True
        | FourBytes \<Rightarrow> TL_Float FourBytes
        | EightBytes \<Rightarrow> TL_Float EightBytes)
     else TL_Plain typeLength)"

definition readTagType :: "(TlvTag option \<times> TlvTypeLength) read" where
  "readTagType r = bindE (readUInt8 r) (\<lambda>(b, r).
    let ctl = bitmap_decode ControlByteSchema b;
        tagControl = as_num (ctl ''tagControl''); typeLength = as_num (ctl ''typeLength'') in
    bindE (readTag tagControl r) (\<lambda>(tag, r). Inr ((tag, parseTypeLength typeLength), r)))"

fun read_length :: "TlvLength \<Rightarrow> int read" where
  "read_length OneByte r = readUInt8 r"
| "read_length TwoBytes r = readUInt16 r"
| "read_length FourBytes r = readUInt32 r"
| "read_length EightBytes r = bindE (readUInt64 r) (\<lambda>(n, r). Inr (toNumber n, r))"

fun readPrimitive :: "TlvTypeLength \<Rightarrow> tlv_value read" where
  "readPrimitive (TL_SignedInt len) r =
    bindE (case len of OneByte \<Rightarrow> readInt8 r | TwoBytes \<Rightarrow> readInt16 r
      | FourBytes \<Rightarrow> readInt32 r | EightBytes \<Rightarrow> readInt64 r) (\<lambda>(v, r). Inr (IntV v, r))"
| "readPrimitive (TL_UnsignedInt len) r =
    bindE (case len of OneByte \<Rightarrow> readUInt8 r | TwoBytes \<Rightarrow> readUInt16 r
      | FourBytes \<Rightarrow> readUInt32 r | EightBytes \<Rightarrow> readUInt64 r) (\<lambda>(v, r). Inr (IntV v, r))"
| "readPrimitive (TL_Float len) r =
    (case len of
       FourBytes \<Rightarrow> bindE (readFloat r) (\<lambda>(v, r). Inr (DoubleV v, r))
     | EightBytes \<Rightarrow> bindE (readDouble r) (\<lambda>(v, r). Inr (DoubleV v, r))
     | _ \<Rightarrow> Inl UnexpectedDataError)"
| "readPrimitive (TL_Utf8String len) r =
    bindE (read_length len r) (\<lambda>(n, r). bindE (readUtf8String n r) (\<lambda>(v, r). Inr (StringV v, r)))"
| "readPrimitive (TL_ByteString len) r =
    bindE (read_length len r) (\<lambda>(n, r). bindE (readByteArray n r) (\<lambda>(v, r). Inr (BytesV v, r)))"
| "readPrimitive (TL_Boolean b) r = Inr (BoolV b, r)"
| "readPrimitive (TL_Plain n) r =
    (if n = tlv_type_num NullType then Inr (NullV, r) else Inl UnexpectedDataError)"

section \<open>Writing\<close>

fun type_length_num :: "TlvTypeLength \<Rightarrow> int" where
  "type_length_num (TL_Utf8String len) = js_or (tlv_type_num Utf8String) (tlv_length_num len)"
| "type_length_num (TL_ByteString len) = js_or (tlv_type_num ByteString) (tlv_length_num len)"
| "type_length_num (TL_SignedInt len) = js_or (tlv_type_num SignedInt) (tlv_length_num len)"
| "type_length_num (TL_UnsignedInt len) = js_or (tlv_type_num UnsignedInt) (tlv_length_num len)"
| "type_length_num (TL_Float len) = js_or (tlv_type_num Float) (tlv_length_num len)"
| "type_length_num (TL_Boolean b) = tlv_type_num Boolean + (if b then 1 else 0)"
| "type_length_num (TL_Plain n) = n"

definition control_byte :: "int \<Rightarrow> int \<Rightarrow> int" where
  "control_byte tagControl typeLength =
    bitmap_encode ControlByteSchema [''tagControl'' \<mapsto> NumV tagControl, ''typeLength'' \<mapsto> NumV typeLength]"

definition tag_fields :: "TlvTag option \<Rightarrow> int option \<times> int option" where
  "tag_fields tag = (case tag of None \<Rightarrow> (None, None) | Some t \<Rightarrow> (tag_profile t, tag_id t))"

definition writeTag :: "data_writer \<Rightarrow> TlvTypeLength \<Rightarrow> TlvTag option \<Rightarrow> error + data_writer" where
  "writeTag w tyl tag =
    (let typeLength = type_length_num tyl; (profile, i) = tag_fields tag in
     if profile = None \<and> i = None then Inr (writeUInt8 (control_byte 0 typeLength) w)
     else case profile of
       None \<Rightarrow> (case i of
           None \<Rightarrow> Inl UnexpectedDataError
         | Some i \<Rightarrow> Inr (writeUInt8 i (writeUInt8 (control_byte 1 typeLength) w)))
     | Some p \<Rightarrow>
         if p = MATTER_COMMON_PROFILE then
           (case i of
              None \<Rightarrow> Inl UnexpectedDataError
            | Some i \<Rightarrow>
                if js_and i 0xffff0000 = 0 then
                  Inr (writeUInt16 i (writeUInt8 (control_byte 2 typeLength) w))
                else Inr (writeUInt32 i (writeUInt8 (control_byte 3 typeLength) w)))
         else
           (case i of
              None \<Rightarrow> Inl UnexpectedDataError
            | Some i \<Rightarrow>
                if js_and i 0xffff0000 = 0 then
                  Inr (writeUInt16 i (writeUInt32 p (writeUInt8 (control_byte 6 typeLength) w)))
                else Inr (writeUInt32 i (writeUInt32 p (writeUInt8 (control_byte 7 typeLength) w)))))"

definition getTagByteLength :: "TlvTag option \<Rightarrow> error + int" where
  "getTagByteLength tag =
    (let (profile, i) = tag_fields tag in
     if profile = None \<and> i = None then Inr 1
     else case profile of
       None \<Rightarrow> (case i of None \<Rightarrow> Inl UnexpectedDataError | Some _ \<Rightarrow> Inr 2)
     | Some p \<Rightarrow>
         if p = MATTER_COMMON_PROFILE then
           (case i of
              None \<Rightarrow> Inl UnexpectedDataError
            | Some i \<Rightarrow> if js_and i 0xffff0000 = 0 then Inr 3 else Inr 5)
         else
           (case i of
              None \<Rightarrow> Inl UnexpectedDataError
            | Some i \<Rightarrow> if js_and i 0xffff0000 = 0 then Inr 7 else Inr 9))"

fun writeUInt :: "data_writer \<Rightarrow> TlvLength \<Rightarrow> int \<Rightarrow> data_writer" where
  "writeUInt w OneByte v = writeInt8 v w"
| "writeUInt w TwoBytes v = writeInt16 v w"
| "writeUInt w FourBytes v = writeInt32 v w"
| "writeUInt w EightBytes v = writeInt64 v w"

text \<open>
  TypeScript's types tie the value to the type of the element.  \<open>TypeMismatch\<close> is the model's
  answer to a combination they rule out.
\<close>

fun writePrimitive :: "data_writer \<Rightarrow> TlvTypeLength \<Rightarrow> tlv_value \<Rightarrow> error + data_writer" where
  "writePrimitive w (TL_SignedInt len) (IntV v) = Inr (writeUInt w len v)"
| "writePrimitive w (TL_UnsignedInt len) (IntV v) =
    Inr (case len of OneByte \<Rightarrow> writeUInt8 v w | TwoBytes \<Rightarrow> writeUInt16 v w
      | FourBytes \<Rightarrow> writeUInt32 v w | EightBytes \<Rightarrow> writeUInt64 v w)"
| "writePrimitive w (TL_Float len) (DoubleV v) =
    (case len of FourBytes \<Rightarrow> Inr (writeFloat v w) | EightBytes \<Rightarrow> Inr (writeDouble v w)
      | _ \<Rightarrow> Inl UnexpectedDataError)"
| "writePrimitive w (TL_Utf8String len) (StringV s) =
    (let stringData = text_encode s in
     Inr (writeByteArray stringData (writeUInt w len (int (length stringData)))))"
| "writePrimitive w (TL_ByteString len) (BytesV bs) =
    Inr (writeByteArray bs (writeUInt w len (int (length bs))))"
| "writePrimitive w (TL_Boolean b) v = Inr w"
| "writePrimitive w (TL_Plain n) v = Inl UnexpectedDataError"
| "writePrimitive w tyl v = Inl TypeMismatch"

fun getPrimitiveByteLength :: "TlvTypeLength \<Rightarrow> tlv_value \<Rightarrow> error + int" where
  "getPrimitiveByteLength (TL_SignedInt len) v = Inr (getUIntByteLength len)"
| "getPrimitiveByteLength (TL_UnsignedInt len) v = Inr (getUIntByteLength len)"
| "getPrimitiveByteLength (TL_Float len) v = Inr (getUIntByteLength len)"
| "getPrimitiveByteLength (TL_Utf8String len) (StringV s) =
    Inr (getUIntByteLength len + int (length (text_encode s)))"
| "getPrimitiveByteLength (TL_ByteString len) (BytesV bs) =
    Inr (getUIntByteLength len + int (length bs))"
| "getPrimitiveByteLength (TL_Boolean b) v = Inr 0"
| "getPrimitiveByteLength (TL_Plain n) v = Inl UnexpectedDataError"
| "getPrimitiveByteLength tyl v = Inl TypeMismatch"

section \<open>The control byte\<close>

abbreviation control_values :: "int \<Rightarrow> int \<Rightarrow> bit_values" where
  "control_values c t \<equiv> [''tagControl'' \<mapsto> NumV c, ''typeLength'' \<mapsto> NumV t]"

lemma ControlByteSchema_coherent: "coherent ControlByteSchema"
  by (simp add: ControlByteSchema_def BitField_def BitFieldEnum_def br_bits_def coherent_def)

lemma ControlByteSchema_fits:
  "0 \<le> c \<Longrightarrow> c < 8 \<Longrightarrow> 0 \<le> t \<Longrightarrow> t < 32 \<Longrightarrow> list_all (\<lambda>(n, b). fits b (control_values c t n)) ControlByteSchema"
  by (simp add: ControlByteSchema_def BitField_def BitFieldEnum_def fits_def)

lemma control_byte_range:
  assumes "0 \<le> c" "c < 8" "0 \<le> t" "t < 32"
  shows "0 \<le> control_byte c t" "control_byte c t < 256"
  using bitmap_encode_range [where v = "control_values c t", OF ControlByteSchema_coherent ControlByteSchema_fits [OF assms], of 8]
  by (simp_all add: control_byte_def ControlByteSchema_def BitField_def BitFieldEnum_def)

lemma control_byte_decode:
  assumes "0 \<le> c" "c < 8" "0 \<le> t" "t < 32"
  shows "bitmap_decode ControlByteSchema (control_byte c t) ''tagControl'' = Some (NumV c)"
    "bitmap_decode ControlByteSchema (control_byte c t) ''typeLength'' = Some (NumV t)"
  using bitmap_decode_encode [where v = "control_values c t", OF ControlByteSchema_coherent ControlByteSchema_fits [OF assms],
      of "''tagControl''" "BitFieldEnum 5 3"]
    bitmap_decode_encode [where v = "control_values c t", OF ControlByteSchema_coherent ControlByteSchema_fits [OF assms],
      of "''typeLength''" "BitField 0 5"]
  by (simp_all add: control_byte_def ControlByteSchema_def)

section \<open>Tags and types\<close>

definition valid_type :: "TlvTypeLength \<Rightarrow> bool" where
  "valid_type tyl = (case tyl of
      TL_Float len \<Rightarrow> len = FourBytes \<or> len = EightBytes
    | TL_Plain n \<Rightarrow> 0x14 \<le> n \<and> n \<le> 0x1f
    | _ \<Rightarrow> True)"

text \<open>The tags the reader supports: everything but an implicit or a 64-bit fully qualified tag.\<close>

definition valid_tag :: "TlvTag option \<Rightarrow> bool" where
  "valid_tag tag = (case tag_fields tag of
      (None, None) \<Rightarrow> tag = None
    | (None, Some i) \<Rightarrow> 0 \<le> i \<and> i < 2 ^ 8
    | (Some p, Some i) \<Rightarrow> if p = MATTER_COMMON_PROFILE then 0 \<le> i \<and> i < 2 ^ 32
        else 0 \<le> p \<and> p < 2 ^ 32 \<and> 0 \<le> i \<and> i < 2 ^ 16
    | (Some p, None) \<Rightarrow> False)"

lemma parse_plain_all: "list_all (\<lambda>n. parseTypeLength n = TL_Plain n) [0x14..0x1f]"
  by (simp add: upto_rec_numeral parseTypeLength_def js_or_eval)

lemma parse_plain: "0x14 \<le> n \<Longrightarrow> n \<le> 0x1f \<Longrightarrow> parseTypeLength n = TL_Plain n"
  using parse_plain_all unfolding list_all_iff set_upto by simp

lemma parse_type_length: "valid_type tyl \<Longrightarrow> parseTypeLength (type_length_num tyl) = tyl"
proof (cases tyl)
  case (TL_Plain n)
  then show "valid_type tyl \<Longrightarrow> ?thesis" by (simp add: valid_type_def parse_plain)
next
  case (TL_SignedInt l)
  then show ?thesis by (cases l) (simp_all add: parseTypeLength_def js_or_eval tlv_length_of_def)
next
  case (TL_UnsignedInt l)
  then show ?thesis by (cases l) (simp_all add: parseTypeLength_def js_or_eval tlv_length_of_def)
next
  case (TL_Utf8String l)
  then show ?thesis by (cases l) (simp_all add: parseTypeLength_def js_or_eval tlv_length_of_def)
next
  case (TL_ByteString l)
  then show ?thesis by (cases l) (simp_all add: parseTypeLength_def js_or_eval tlv_length_of_def)
next
  case (TL_Boolean b)
  then show ?thesis by (cases b) (simp_all add: parseTypeLength_def js_or_eval tlv_length_of_def)
next
  case (TL_Float l)
  then show "valid_type tyl \<Longrightarrow> ?thesis"
    by (cases l) (simp_all add: parseTypeLength_def js_or_eval tlv_length_of_def valid_type_def)
qed

lemma type_length_range:
  assumes "valid_type tyl"
  shows "0 \<le> type_length_num tyl" "type_length_num tyl < 32"
proof -
  have "js_or (tlv_type_num type) (tlv_length_num len) < 32 \<and> 0 \<le> js_or (tlv_type_num type) (tlv_length_num len)"
    for type len
    by (cases type; cases len) (simp_all add: js_or_eval)
  then have "0 \<le> type_length_num tyl \<and> type_length_num tyl < 32"
    using assms by (cases tyl) (simp_all add: valid_type_def del: tlv_type_num.simps(1,2,4,5,6))
  then show "0 \<le> type_length_num tyl" "type_length_num tyl < 32" by simp_all
qed

text \<open>The bytes of a control byte and tag.\<close>

definition tag_bytes :: "int \<Rightarrow> TlvTag option \<Rightarrow> bytes" where
  "tag_bytes t tag = (case tag_fields tag of
      (None, None) \<Rightarrow> [word_of_int (control_byte 0 t)]
    | (None, Some i) \<Rightarrow> [word_of_int (control_byte 1 t), word_of_int i]
    | (Some p, None) \<Rightarrow> []
    | (Some p, Some i) \<Rightarrow>
        if p = MATTER_COMMON_PROFILE then
          if i < 2 ^ 16 then word_of_int (control_byte 2 t) # le_bytes 2 i
          else word_of_int (control_byte 3 t) # le_bytes 4 i
        else word_of_int (control_byte 6 t) # le_bytes 4 p @ le_bytes 2 i)"

lemma writeTag_bytes:
  assumes "valid_type tyl" "valid_tag tag" "wf_writer w" "wr_littleEndian w"
  obtains w' where "writeTag w tyl tag = Inr w'" "wf_writer w'" "wr_littleEndian w'"
    "written w' = written w @ tag_bytes (type_length_num tyl) tag"
proof -
  define t where "t = type_length_num tyl"
  note t = type_length_range [OF assms(1), folded t_def]
  have c: "toNumber (control_byte c t) = control_byte c t" if "0 \<le> c" "c < 8" for c
    using control_byte_range [of c t] that t by (simp add: toNumber_small)
  have "\<exists>w'. writeTag w tyl tag = Inr w' \<and> wf_writer w' \<and> wr_littleEndian w' \<and>
      written w' = written w @ tag_bytes t tag"
    using assms(2-4)
    by (auto simp: writeTag_def tag_bytes_def valid_tag_def Let_def t_def [symmetric] js_and_high_half
        io_simps c MATTER_COMMON_PROFILE_def split: option.splits if_splits prod.splits)
  then show thesis using that unfolding t_def by blast
qed

lemma readTagType_bytes:
  assumes "valid_type tyl" "valid_tag tag"
  shows "readTagType (reader_at pre (tag_bytes (type_length_num tyl) tag @ rest)) =
    Inr ((tag, tyl), reader_at (pre @ tag_bytes (type_length_num tyl) tag) rest)"
proof -
  define t where "t = type_length_num tyl"
  note t = type_length_range [OF assms(1), folded t_def]
  have c: "readTagType (reader_at pre (word_of_int (control_byte c t) # bs)) =
      bindE (readTag c (reader_at (pre @ [word_of_int (control_byte c t)]) bs)) (\<lambda>(tag, r). Inr ((tag, tyl), r))"
    if "0 \<le> c" "c < 8" for c bs
    using control_byte_range [of c t] control_byte_decode [of c t] that t parse_type_length [OF assms(1)]
    by (simp add: readTagType_def io_simps t_def)
  show ?thesis
    using assms(2)
    by (cases tag)
      (auto simp: tag_bytes_def valid_tag_def tag_fields_def t_def [symmetric] c readTag_def io_simps
        MATTER_COMMON_PROFILE_def split: option.splits if_splits)
qed

section \<open>Primitive values\<close>

fun int_bits :: "TlvLength \<Rightarrow> nat" where
  "int_bits OneByte = 8"
| "int_bits TwoBytes = 16"
| "int_bits FourBytes = 32"
| "int_bits EightBytes = 64"

text \<open>The values an element of the type holds exactly.\<close>

fun valid_value :: "TlvTypeLength \<Rightarrow> tlv_value \<Rightarrow> bool" where
  "valid_value (TL_SignedInt len) (IntV v) \<longleftrightarrow> - (2 ^ (int_bits len - 1)) \<le> v \<and> v < 2 ^ (int_bits len - 1)"
| "valid_value (TL_UnsignedInt len) (IntV v) \<longleftrightarrow> 0 \<le> v \<and> v < 2 ^ int_bits len"
| "valid_value (TL_Float len) (DoubleV d) \<longleftrightarrow>
    (len = FourBytes \<and> f64_to_f32 d < 2 ^ 32 \<and> f32_to_f64 (f64_to_f32 d) = d) \<or> (len = EightBytes \<and> d < 2 ^ 64)"
| "valid_value (TL_Utf8String len) (StringV s) \<longleftrightarrow>
    well_formed s \<and> take 1 s \<noteq> [0xFEFF] \<and> length (text_encode s) < 2 ^ min 53 (int_bits len)"
| "valid_value (TL_ByteString len) (BytesV bs) \<longleftrightarrow> length bs < 2 ^ min 53 (int_bits len)"
| "valid_value (TL_Boolean b) (BoolV c) \<longleftrightarrow> b = c"
| "valid_value _ _ \<longleftrightarrow> False"

text \<open>An integer in the byte representation the reader lemmas use.\<close>

fun int_bytes :: "TlvLength \<Rightarrow> int \<Rightarrow> bytes" where
  "int_bytes OneByte v = [word_of_int v]"
| "int_bytes TwoBytes v = le_bytes 2 v"
| "int_bytes FourBytes v = le_bytes 4 v"
| "int_bytes EightBytes v = le_bytes 8 v"

fun value_bytes :: "TlvTypeLength \<Rightarrow> tlv_value \<Rightarrow> bytes" where
  "value_bytes (TL_SignedInt len) (IntV v) = int_bytes len v"
| "value_bytes (TL_UnsignedInt len) (IntV v) = int_bytes len v"
| "value_bytes (TL_Float len) (DoubleV d) =
    (if len = FourBytes then le_bytes 4 (int (f64_to_f32 d)) else le_bytes 8 (int d))"
| "value_bytes (TL_Utf8String len) (StringV s) = int_bytes len (int (length (text_encode s))) @ text_encode s"
| "value_bytes (TL_ByteString len) (BytesV bs) = int_bytes len (int (length bs)) @ bs"
| "value_bytes _ _ = []"

lemma writeUInt_simps [simp]:
  "wf_writer w \<Longrightarrow> wf_writer (writeUInt w len v)"
  "wr_littleEndian (writeUInt w len v) = wr_littleEndian w"
  "wr_littleEndian w \<Longrightarrow> len = EightBytes \<or> \<bar>v\<bar> < 2 ^ 53 \<Longrightarrow>
    written (writeUInt w len v) = written w @ int_bytes len v"
  by (cases len; simp add: io_simps)+

lemma read_length_bytes: "n < 2 ^ min 53 (int_bits len) \<Longrightarrow>
    read_length len (reader_at pre (int_bytes len (int n) @ rest)) =
      Inr (int n, reader_at (pre @ int_bytes len (int n)) rest)"
  by (cases len) (simp_all add: io_simps)

lemma small_length: "n < 2 ^ min 53 k \<Longrightarrow> int n < 2 ^ 53"
proof -
  assume "n < 2 ^ min 53 k"
  also have "\<dots> \<le> (2 :: nat) ^ 53" by (rule power_increasing) simp_all
  finally show ?thesis by (simp del: of_nat_less_iff add: of_nat_less_iff [symmetric])
qed

lemma writePrimitive_bytes:
  assumes "valid_value tyl v" "wf_writer w" "wr_littleEndian w"
  obtains w' where "writePrimitive w tyl v = Inr w'" "wf_writer w'" "wr_littleEndian w'"
    "written w' = written w @ value_bytes tyl v"
proof -
  have "\<exists>w'. writePrimitive w tyl v = Inr w' \<and> wf_writer w' \<and> wr_littleEndian w' \<and>
      written w' = written w @ value_bytes tyl v"
    using assms
  proof (induction tyl v rule: valid_value.induct)
    case (1 len v)
    then show ?case by (cases len) (auto simp: io_simps abs_less_iff)
  next
    case (2 len v)
    then show ?case by (cases len) (simp_all add: io_simps)
  next
    case (3 len d)
    then show ?case by (cases len) (simp_all add: io_simps)
  next
    case (4 len s)
    then show ?case using small_length [of "length (text_encode s)" "int_bits len"] by (simp add: io_simps Let_def)
  next
    case (5 len bs)
    then show ?case using small_length [of "length bs" "int_bits len"] by (simp add: io_simps)
  qed simp_all
  then show thesis using that by blast
qed

lemma readPrimitive_bytes:
  "valid_value tyl v \<Longrightarrow> readPrimitive tyl (reader_at pre (value_bytes tyl v @ rest)) =
    Inr (v, reader_at (pre @ value_bytes tyl v) rest)"
proof (induction tyl v rule: valid_value.induct)
  case (1 len v)
  then show ?case by (cases len) (simp_all add: io_simps)
next
  case (2 len v)
  then show ?case by (cases len) (simp_all add: io_simps)
next
  case (3 len d)
  then show ?case by (cases len) (auto simp: io_simps nat_mod_distrib)
next
  case (4 len s)
  then show ?case by (simp add: io_simps read_length_bytes text_roundtrip)
next
  case (5 len bs)
  then show ?case by (simp add: io_simps read_length_bytes)
qed simp_all

section \<open>Elements\<close>

text \<open>
  An element with a primitive value, written and read the way the schemas of \<open>types/src/tlv\<close> do:
  tag and type first, then the value.
\<close>

definition encode_element :: "TlvTag option \<times> TlvTypeLength \<times> tlv_value \<Rightarrow> error + bytes" where
  "encode_element e = (case e of (tag, tyl, v) \<Rightarrow>
    bindE (writeTag (DataWriter True) tyl tag) (\<lambda>w. bindE (writePrimitive w tyl v) to_bytes))"

definition decode_element :: "(TlvTag option \<times> TlvTypeLength \<times> tlv_value) read" where
  "decode_element r = bindE (readTagType r) (\<lambda>((tag, tyl), r).
    bindE (readPrimitive tyl r) (\<lambda>(v, r). Inr ((tag, tyl, v), r)))"

definition valid_element :: "TlvTag option \<times> TlvTypeLength \<times> tlv_value \<Rightarrow> bool" where
  "valid_element e = (case e of (tag, tyl, v) \<Rightarrow> valid_tag tag \<and> valid_value tyl v)"

lemma valid_value_type: "valid_value tyl v \<Longrightarrow> valid_type tyl"
  by (induction tyl v rule: valid_value.induct) (auto simp: valid_type_def)

lemma encode_element_bytes:
  assumes "valid_element (tag, tyl, v)"
  shows "encode_element (tag, tyl, v) = Inr (tag_bytes (type_length_num tyl) tag @ value_bytes tyl v)"
proof -
  have v: "valid_tag tag" "valid_value tyl v" "valid_type tyl"
    using assms valid_value_type by (auto simp: valid_element_def)
  obtain w where w: "writeTag (DataWriter True) tyl tag = Inr w" "wf_writer w" "wr_littleEndian w"
      "written w = tag_bytes (type_length_num tyl) tag"
    using writeTag_bytes [OF v(3,1), of "DataWriter True"] by auto
  obtain w' where "writePrimitive w tyl v = Inr w'" "wf_writer w'" "written w' = written w @ value_bytes tyl v"
    using writePrimitive_bytes [OF v(2) w(2,3)] by blast
  then show ?thesis using w by (simp add: encode_element_def)
qed

lemma decode_element_bytes:
  assumes "valid_element (tag, tyl, v)"
  shows "decode_element (reader_at pre (tag_bytes (type_length_num tyl) tag @ value_bytes tyl v @ rest)) =
    Inr ((tag, tyl, v), reader_at (pre @ tag_bytes (type_length_num tyl) tag @ value_bytes tyl v) rest)"
  using assms valid_value_type [of tyl v]
  by (simp add: valid_element_def decode_element_def readTagType_bytes readPrimitive_bytes)

interpretation tlv_element: codec encode_element decode_element valid_element
proof unfold_locales
  fix e
  assume e: "valid_element e"
  obtain tag tyl v where e3: "e = (tag, tyl, v)" by (cases e)
  note enc = encode_element_bytes [OF e [unfolded e3], folded e3]
  show "\<exists>bs. encode_element e = Inr bs" using enc by simp
  show "decode_element (reader_at pre (bs @ rest)) = Inr (e, reader_at (pre @ bs) rest)"
    if "encode_element e = Inr bs" for bs pre rest
    using decode_element_bytes [OF e [unfolded e3], of pre rest, folded e3] enc that by simp
qed

lemma getTagByteLength_tag_bytes: "valid_tag tag \<Longrightarrow> getTagByteLength tag = Inr (int (length (tag_bytes t tag)))"
  by (auto simp: getTagByteLength_def tag_bytes_def valid_tag_def js_and_high_half MATTER_COMMON_PROFILE_def
      split: option.splits if_splits prod.splits)

lemma length_int_bytes [simp]: "int (length (int_bytes len v)) = getUIntByteLength len"
  by (cases len) simp_all

lemma getPrimitiveByteLength_value_bytes:
  "valid_value tyl v \<Longrightarrow> getPrimitiveByteLength tyl v = Inr (int (length (value_bytes tyl v)))"
  by (induction tyl v rule: valid_value.induct) auto

section \<open>Properties\<close>

text \<open>
  C11: a sequence of primitive TLV elements, written one after the other with \<open>writeTag\<close> and
  \<open>writePrimitive\<close>, always encodes, and reading as many elements from the bytes gives back the same
  tags, types and values and leaves nothing unread.
\<close>

theorem tlv_stream_roundtrip:
  assumes "list_all valid_element es"
  shows "\<exists>bs r. encode_many encode_element es = Inr bs \<and>
    decode_many decode_element (length es) (DataReader bs True) = Inr (es, r) \<and> remainingBytesCount r = 0"
proof -
  obtain bs where "encode_many encode_element es = Inr bs"
    "\<And>pre rest. decode_many decode_element (length es) (reader_at pre (bs @ rest)) = Inr (es, reader_at (pre @ bs) rest)"
    using tlv_element.many_roundtrip [OF assms] by blast
  from this(1) this(2) [of "[]" "[]"] show ?thesis by (simp add: DataReader_at remaining_at)
qed

theorem tlv_stream_roundtrip_witness:
  "\<exists>bs r. encode_many encode_element
      [(Some \<lparr>tag_profile = None, tag_id = Some 3\<rparr>, TL_UnsignedInt TwoBytes, IntV 4660),
       (Some \<lparr>tag_profile = Some 65521, tag_id = Some 7\<rparr>, TL_SignedInt OneByte, IntV (- 5)),
       (None, TL_ByteString OneByte, BytesV [1, 2, 3])] = Inr bs \<and>
    decode_many decode_element 3 (DataReader bs True) =
      Inr ([(Some \<lparr>tag_profile = None, tag_id = Some 3\<rparr>, TL_UnsignedInt TwoBytes, IntV 4660),
       (Some \<lparr>tag_profile = Some 65521, tag_id = Some 7\<rparr>, TL_SignedInt OneByte, IntV (- 5)),
       (None, TL_ByteString OneByte, BytesV [1, 2, 3])], r) \<and> remainingBytesCount r = 0"
  using tlv_stream_roundtrip
    [of "[(Some \<lparr>tag_profile = None, tag_id = Some 3\<rparr>, TL_UnsignedInt TwoBytes, IntV 4660),
       (Some \<lparr>tag_profile = Some 65521, tag_id = Some 7\<rparr>, TL_SignedInt OneByte, IntV (- 5)),
       (None, TL_ByteString OneByte, BytesV [1, 2, 3])]"]
  by (simp add: valid_element_def valid_tag_def tag_fields_def MATTER_COMMON_PROFILE_def numeral_3_eq_3
      del: encode_many.simps decode_many.simps)

text \<open>
  C12: the lengths that \<open>getTagByteLength\<close> and \<open>getPrimitiveByteLength\<close> announce add up to the number
  of bytes the writer produces for the element.
\<close>

theorem tlv_announced_length:
  assumes "valid_element (tag, tyl, v)"
  shows "\<exists>bs n m. encode_element (tag, tyl, v) = Inr bs \<and> getTagByteLength tag = Inr n \<and>
    getPrimitiveByteLength tyl v = Inr m \<and> int (length bs) = n + m"
  using assms encode_element_bytes [OF assms] getTagByteLength_tag_bytes [of tag "type_length_num tyl"]
    getPrimitiveByteLength_value_bytes [of tyl v]
  by (simp add: valid_element_def)

theorem tlv_announced_length_witness:
  "\<exists>bs n m. encode_element (Some \<lparr>tag_profile = Some 0, tag_id = Some 70000\<rparr>, TL_UnsignedInt FourBytes, IntV 99) = Inr bs \<and>
    getTagByteLength (Some \<lparr>tag_profile = Some 0, tag_id = Some 70000\<rparr>) = Inr n \<and>
    getPrimitiveByteLength (TL_UnsignedInt FourBytes) (IntV 99) = Inr m \<and> int (length bs) = n + m"
  by (rule tlv_announced_length) (simp add: valid_element_def valid_tag_def tag_fields_def MATTER_COMMON_PROFILE_def)

text \<open>
  C13: for every integer of 64 bits the length class that \<open>getUIntTlvLength\<close> or \<open>getIntTlvLength\<close>
  picks holds the value, and no shorter class does.
\<close>

theorem tlv_length_minimal:
  assumes "0 \<le> u" "u < 2 ^ 64" "- (2 ^ 63) \<le> i" "i < 2 ^ 63"
  shows "(valid_value (TL_UnsignedInt len) (IntV u) \<longleftrightarrow> getUIntByteLength (getUIntTlvLength u) \<le> getUIntByteLength len) \<and>
    (valid_value (TL_SignedInt len) (IntV i) \<longleftrightarrow> getUIntByteLength (getIntTlvLength i) \<le> getUIntByteLength len)"
  using assms by (cases len) (auto simp: getUIntTlvLength_def getIntTlvLength_def)

theorem tlv_length_minimal_witness:
  "(valid_value (TL_UnsignedInt OneByte) (IntV 256) \<longleftrightarrow> getUIntByteLength (getUIntTlvLength 256) \<le> getUIntByteLength OneByte) \<and>
   (valid_value (TL_SignedInt OneByte) (IntV (- 128)) \<longleftrightarrow> getUIntByteLength (getIntTlvLength (- 128)) \<le> getUIntByteLength OneByte)"
  using tlv_length_minimal [of 256 "- 128" OneByte] by simp

text \<open>
  C14: a fully qualified tag whose number needs more than 16 bits is written with the 64-bit form, and the
  reader refuses exactly that form: what \<open>writeTag\<close> produces for it, \<open>readTagType\<close> rejects with
  \<open>NotImplementedError\<close>.
\<close>

theorem tlv_fully_qualified64_unreadable:
  assumes "valid_type tyl" "p \<noteq> MATTER_COMMON_PROFILE" "2 ^ 16 \<le> i" "i < 2 ^ 32"
  shows "\<exists>bs. bindE (writeTag (DataWriter True) tyl (Some \<lparr>tag_profile = Some p, tag_id = Some i\<rparr>)) to_bytes = Inr bs \<and>
    readTagType (DataReader bs True) = Inl NotImplementedError"
  using assms control_byte_range [of 7 "type_length_num tyl"] control_byte_decode [of 7 "type_length_num tyl"]
    type_length_range [of tyl] js_and_high_half [of i]
  by (simp add: writeTag_def tag_fields_def readTagType_def readTag_def io_simps DataReader_at)

theorem tlv_fully_qualified64_unreadable_witness:
  "\<exists>bs. bindE (writeTag (DataWriter True) (TL_Boolean True) (Some \<lparr>tag_profile = Some 65521, tag_id = Some 70000\<rparr>)) to_bytes = Inr bs \<and>
    readTagType (DataReader bs True) = Inl NotImplementedError"
  by (rule tlv_fully_qualified64_unreadable) (simp_all add: valid_type_def MATTER_COMMON_PROFILE_def)

end
