(* ===== verification/Identifiers.thy ===== *)
theory Identifiers
  imports Prelude
begin

text \<open>
  Node ids, group ids and CASE authenticated tags (\<open>types/src/datatype\<close>).  The source recognises
  and builds the subranges of the 64-bit node id space through hexadecimal strings.  Such a string is
  the list of its digit values here.

  The lemmas show that the string tests are the numeric ranges of the specification, that tags and group
  ids survive the way through a node id, and which tags the code cannot turn into a node id.
\<close>

section \<open>Hexadecimal strings\<close>

function hex :: "int \<Rightarrow> int list" where
  "hex n = (if n < 16 then [n] else hex (n div 16) @ [n mod 16])"
  by pat_completeness auto
termination
  by (relation "measure nat") auto

declare hex.simps [simp del]

definition hex_fixed :: "int \<Rightarrow> nat \<Rightarrow> int list" where
  "hex_fixed value width = replicate (width - length (hex value)) 0 @ hex value"

text \<open>The number a string of digits denotes: \<open>BigInt("0x...")\<close> and \<open>parseInt(..., 16)\<close>.\<close>

definition hex_value :: "int list \<Rightarrow> int" where
  "hex_value ds = foldl (\<lambda>acc d. acc * 16 + d) 0 ds"

definition startsWith :: "int list \<Rightarrow> int list \<Rightarrow> bool" where
  "startsWith ds p \<longleftrightarrow> take (length p) ds = p"

section \<open>CASE authenticated tags\<close>

definition CaseAuthenticatedTag :: "int \<Rightarrow> int option \<Rightarrow> error + int" where
  "CaseAuthenticatedTag idOrTag version =
    (let idOrTag = (case version of None \<Rightarrow> idOrTag | Some v \<Rightarrow> js_or (js_shl idOrTag 16) v) in
     if js_and idOrTag 0xffff = 0 then Inl ValidationOutOfBoundsError else Inr idOrTag)"

definition AdministratorIdentifier :: "int \<Rightarrow> error + int" where
  "AdministratorIdentifier version =
    (if version \<le> 0 \<or> version > 0xffff then Inl ValidationOutOfBoundsError
     else Inr (js_or (js_shl 0xfffd 16) version))"

definition AnchorIdentifier :: "int \<Rightarrow> error + int" where
  "AnchorIdentifier version =
    (if version \<le> 0 \<or> version > 0xffff then Inl ValidationOutOfBoundsError
     else Inr (js_or (js_shl 0xfffe 16) version))"

definition getIdentifyValue :: "int \<Rightarrow> int" where
  "getIdentifyValue tag = js_ushr tag 16"

definition getVersion :: "int \<Rightarrow> int" where
  "getVersion tag = js_and tag 0xffff"

definition increaseVersion :: "int \<Rightarrow> error + int" where
  "increaseVersion tag =
    (if getVersion tag = 0xffff then Inl ValidationOutOfBoundsError
     else CaseAuthenticatedTag (tag + 1) None)"

definition validateNocTagList :: "int list \<Rightarrow> error + unit" where
  "validateNocTagList tags =
    (if length tags > 3 then Inl ValidationOutOfBoundsError
     else if length (remdups (map getIdentifyValue tags)) \<noteq> length tags then Inl ValidationOutOfBoundsError
     else Inr ())"

section \<open>Group ids and node ids\<close>

definition GroupId :: "int \<Rightarrow> error + int" where
  "GroupId groupId = (if groupId \<ge> 0x0000 \<and> groupId \<le> 0xffff then Inr groupId else Inl ValidationOutOfBoundsError)"

definition isApplicationGroupId :: "int \<Rightarrow> bool" where
  "isApplicationGroupId groupId \<longleftrightarrow> groupId \<ge> 0x0001 \<and> groupId \<le> 0xfeff"

definition assertGroupId :: "int \<Rightarrow> error + unit" where
  "assertGroupId groupId = (if groupId = 0 then Inl UnexpectedDataError else Inr ())"

definition isOperationalNodeId :: "int \<Rightarrow> bool" where
  "isOperationalNodeId nodeId \<longleftrightarrow> nodeId \<ge> 0x0000000000000001 \<and> nodeId \<le> 0xFFFFFFEFFFFFFFFF"

definition fromGroupId :: "int \<Rightarrow> error + int" where
  "fromGroupId groupId = bindE (GroupId groupId) (\<lambda>g. Inr (hex_value (replicate 12 15 @ hex_fixed g 4)))"

definition fromTemporaryLocalNodeId :: "int \<Rightarrow> error + int" where
  "fromTemporaryLocalNodeId i =
    (if i < 0 \<or> i > 0xffffffff then Inl UnexpectedDataError
     else Inr (hex_value ((replicate 7 15 @ [14]) @ hex_fixed i 8)))"

definition fromCaseAuthenticatedTag :: "int \<Rightarrow> error + int" where
  "fromCaseAuthenticatedTag i =
    (if i < 0 \<or> i > 0xffffffff then Inl UnexpectedDataError
     else Inr (hex_value ((replicate 7 15 @ [13]) @ hex_fixed i 8)))"

definition isCaseAuthenticatedTag :: "int \<Rightarrow> bool" where
  "isCaseAuthenticatedTag nodeId \<longleftrightarrow>
    (let nodeIdHex = hex nodeId in startsWith nodeIdHex (replicate 7 15 @ [13]) \<and> length nodeIdHex = 16)"

definition extractAsCaseAuthenticatedTag :: "int \<Rightarrow> error + int" where
  "extractAsCaseAuthenticatedTag nodeId =
    (if \<not> isCaseAuthenticatedTag nodeId then Inl UnexpectedDataError
     else CaseAuthenticatedTag (hex_value (drop 8 (hex nodeId))) None)"

definition getFromPakeKeyIdentifier :: "int \<Rightarrow> error + int" where
  "getFromPakeKeyIdentifier i =
    (if i < 0 \<or> i > 0xffffffff then Inl UnexpectedDataError
     else Inr (hex_value ((replicate 7 15 @ [11]) @ hex_fixed i 8)))"

definition isGroupNodeId :: "int \<Rightarrow> bool" where
  "isGroupNodeId nodeId \<longleftrightarrow>
    (let nodeIdHex = hex nodeId in startsWith nodeIdHex (replicate 12 15) \<and> length nodeIdHex = 16)"

definition fromNodeId :: "int \<Rightarrow> error + int" where
  "fromNodeId nodeId =
    (if \<not> isGroupNodeId nodeId then Inl InternalError else GroupId (nodeId AND 0xffff))"

section \<open>Hexadecimal strings as numbers\<close>

fun low_digits :: "nat \<Rightarrow> int \<Rightarrow> int list" where
  "low_digits 0 n = []"
| "low_digits (Suc k) n = low_digits k (n div 16) @ [n mod 16]"

lemma length_low_digits [simp]: "length (low_digits k n) = k"
  by (induction k arbitrary: n) simp_all

lemma hex_value_snoc [simp]: "hex_value (ds @ [d]) = hex_value ds * 16 + d"
  by (simp add: hex_value_def)

lemma hex_value_append: "hex_value (ds @ es) = hex_value ds * 16 ^ length es + hex_value es"
  by (induction es rule: rev_induct)
    (simp_all add: hex_value_def algebra_simps flip: append_assoc)

lemma hex_value_zeros [simp]: "hex_value (replicate k 0 @ ds) = hex_value ds"
  by (induction k) (simp_all add: hex_value_def)

lemma hex_value_low_digits: "hex_value (low_digits k n) = n mod 16 ^ k"
proof (induction k arbitrary: n)
  case (Suc k)
  have "n mod 16 ^ Suc k = n mod 16 + 16 * (n div 16 mod 16 ^ k)"
    by (simp add: zmod_zmult2_eq)
  then show ?case using Suc by simp
qed (simp add: hex_value_def)

lemma hex_value_zero_digits [simp]: "hex_value (replicate k 0) = 0"
  using hex_value_zeros [of k "[]"] by (simp add: hex_value_def)

lemma hex_value_hex [simp]: "hex_value (hex n) = n"
proof (induction n rule: hex.induct)
  case (1 n)
  then show ?case by (simp add: hex.simps [of n] hex_value_def)
qed

lemma hex_inject: "hex m = hex n \<longleftrightarrow> m = n"
  using hex_value_hex by metis

lemma hex_split: "16 ^ k \<le> n \<Longrightarrow> hex n = hex (n div 16 ^ k) @ low_digits k n"
proof (induction k arbitrary: n)
  case (Suc k)
  have p: "(1 :: int) \<le> 16 ^ k" by simp
  have "(16 :: int) \<le> 16 ^ Suc k" using mult_left_mono [OF p, of 16] by simp
  then have "16 \<le> n" using Suc.prems by (rule order_trans)
  then have "hex n = hex (n div 16) @ [n mod 16]" by (simp add: hex.simps [of n])
  moreover have "16 ^ k \<le> n div 16" using Suc.prems zdiv_mono1 [of "16 ^ Suc k" n 16] by simp
  ultimately show ?case using Suc.IH [of "n div 16"] by (simp add: zdiv_zmult2_eq)
qed simp

lemma length_hex_le: "n < 16 ^ Suc k \<Longrightarrow> length (hex n) \<le> Suc k"
proof (induction k arbitrary: n)
  case 0
  then show ?case by (simp add: hex.simps [of n])
next
  case (Suc k)
  define c :: int where "c = 16 ^ Suc k"
  have "n < c * 16" using Suc.prems by (simp add: c_def)
  then have "n div 16 < 16 ^ Suc k" unfolding c_def [symmetric] by linarith
  then show ?case using Suc.IH [of "n div 16"] by (simp add: hex.simps [of n])
qed

lemma length_hex_ge: "16 ^ k \<le> n \<Longrightarrow> Suc k \<le> length (hex n)"
  using hex_split [of k n] by (cases "hex (n div 16 ^ k)") (simp_all add: hex.simps [of "n div 16 ^ k"] split: if_splits)

lemma length_hex_iff: "length (hex n) = Suc (Suc k) \<longleftrightarrow> 16 ^ Suc k \<le> n \<and> n < 16 ^ Suc (Suc k)"
proof -
  define a :: int where "a = 16 ^ Suc k"
  define b :: int where "b = 16 ^ Suc (Suc k)"
  have "n < a \<Longrightarrow> length (hex n) \<le> Suc k" "n < b \<Longrightarrow> length (hex n) \<le> Suc (Suc k)"
    "a \<le> n \<Longrightarrow> Suc (Suc k) \<le> length (hex n)" "b \<le> n \<Longrightarrow> Suc (Suc (Suc k)) \<le> length (hex n)"
    unfolding a_def b_def by (rule length_hex_le length_hex_ge, assumption)+
  then show ?thesis unfolding a_def [symmetric] b_def [symmetric] by linarith
qed

text \<open>A fixed prefix of a full-width string is a test on the high digits of the number.\<close>

lemma prefix_iff:
  assumes "p = hex h" "length p + k = 16" "0 < length p" "0 < k" "16 ^ (length p - 1) \<le> h" "h < 16 ^ length p"
  shows "startsWith (hex n) p \<and> length (hex n) = 16 \<longleftrightarrow> n div 16 ^ k = h"
proof
  assume l: "startsWith (hex n) p \<and> length (hex n) = 16"
  then have "16 ^ 15 \<le> n" using length_hex_iff [of n 14] by simp
  moreover have "(16 :: int) ^ k \<le> 16 ^ 15" using assms(2,3) by (intro power_increasing) linarith+
  ultimately have s: "hex n = hex (n div 16 ^ k) @ low_digits k n" using hex_split by simp
  then have "length (hex (n div 16 ^ k)) = length p" using l assms(2) by (metis add_right_cancel length_append length_low_digits)
  then have "hex (n div 16 ^ k) = p" using l s by (simp add: startsWith_def)
  then show "n div 16 ^ k = h" using assms(1) by (simp add: hex_inject)
next
  assume n: "n div 16 ^ k = h"
  have "1 \<le> h" using assms(5) by (metis one_le_power one_le_numeral order_trans)
  then have "16 ^ k \<le> n" using n by (metis int_one_le_iff_zero_less pos_imp_zdiv_pos_iff zero_less_numeral zero_less_power)
  from hex_split [OF this] n have "hex n = p @ low_digits k n" using assms(1) by simp
  then show "startsWith (hex n) p \<and> length (hex n) = 16" using assms(2) by (simp add: startsWith_def)
qed

lemma hex_value_fixed: "0 \<le> i \<Longrightarrow> i < 16 ^ Suc k \<Longrightarrow> hex_value (p @ hex_fixed i (Suc k)) = hex_value p * 16 ^ Suc k + i"
  using length_hex_le [of i k] by (simp add: hex_value_append hex_fixed_def)

section \<open>The subranges of the node id space\<close>

lemma hex_FFFFFFFD: "replicate 7 15 @ [13] = hex 0xFFFFFFFD"
  by (simp add: hex.simps numeral_eq_Suc)

lemma hex_FFFFFFFFFFFF: "replicate 12 15 = hex 0xFFFFFFFFFFFF"
  by (simp add: hex.simps numeral_eq_Suc)

lemma isCaseAuthenticatedTag_iff: "isCaseAuthenticatedTag n \<longleftrightarrow> n div 2 ^ 32 = 0xFFFFFFFD"
  using prefix_iff [OF hex_FFFFFFFD, where k = 8 and n = n] by (simp add: isCaseAuthenticatedTag_def)

lemma isGroupNodeId_iff: "isGroupNodeId n \<longleftrightarrow> n div 2 ^ 16 = 0xFFFFFFFFFFFF"
  using prefix_iff [OF hex_FFFFFFFFFFFF, where k = 4 and n = n] by (simp add: isGroupNodeId_def)

lemma subrange_value:
  "0 \<le> i \<Longrightarrow> i \<le> 0xffffffff \<Longrightarrow> hex_value ((replicate 7 15 @ [d]) @ hex_fixed i 8) = (0xFFFFFFF0 + d) * 2 ^ 32 + i"
  using hex_value_fixed [of i 7 "replicate 7 15 @ [d]"] by (simp add: hex_value_def numeral_eq_Suc)

lemma fromGroupId_value: "0 \<le> g \<Longrightarrow> g \<le> 0xffff \<Longrightarrow> fromGroupId g = Inr (0xFFFFFFFFFFFF * 2 ^ 16 + g)"
  using hex_value_fixed [of g 3 "replicate 12 15"] hex_value_hex [of "0xFFFFFFFFFFFF", folded hex_FFFFFFFFFFFF]
  by (simp add: fromGroupId_def GroupId_def)

lemma hex_value_drop: "16 ^ 15 \<le> n \<Longrightarrow> n < 16 ^ 16 \<Longrightarrow> hex_value (drop 8 (hex n)) = n mod 2 ^ 32"
proof -
  assume n: "16 ^ 15 \<le> n" "n < 16 ^ 16"
  have s: "hex n = hex (n div 16 ^ 8) @ low_digits 8 n" using hex_split [of 8 n] n by simp
  have "length (hex n) = 16" using length_hex_iff [of n 14] n by simp
  then have "length (hex (n div 16 ^ 8)) = 8" using s by (metis add_right_cancel length_append length_low_digits numeral_Bit0)
  then have "drop 8 (hex n) = low_digits 8 n" using s by simp
  then show ?thesis using hex_value_low_digits [of 8 n] by simp
qed

lemma extract_tag:
  assumes "isCaseAuthenticatedTag n"
  shows "extractAsCaseAuthenticatedTag n = (if n mod 2 ^ 16 = 0 then Inl ValidationOutOfBoundsError else Inr (n mod 2 ^ 32))"
proof -
  define h where "h = (0xFFFFFFFD :: int)"
  have h: "n div 2 ^ 32 = h" using assms by (simp add: isCaseAuthenticatedTag_iff h_def)
  define l where "l = n mod 2 ^ 32"
  have n: "n = h * 2 ^ 32 + l" using h div_mult_mod_eq [of n "2 ^ 32"] by (simp add: l_def)
  have l: "0 \<le> l" "l < 2 ^ 32" by (simp_all add: l_def)
  have r: "16 ^ 15 \<le> n" "n < 16 ^ 16" unfolding n using l by (simp_all add: h_def)
  have m: "n mod 2 ^ 32 mod 2 ^ 16 = n mod 2 ^ 16" by (rule mod_mod_cancel) simp
  show ?thesis
    using assms m unfolding extractAsCaseAuthenticatedTag_def CaseAuthenticatedTag_def hex_value_drop [OF r] js_and_ffff by simp
qed

lemma div_eq_range: "0 < k \<Longrightarrow> n div k = h \<longleftrightarrow> h * k \<le> n \<and> n < h * k + k" for n k h :: int
proof
  assume k: "0 < k" "n div k = h"
  have "n = h * k + n mod k" using div_mult_mod_eq [of n k] k(2) by simp
  then show "h * k \<le> n \<and> n < h * k + k" using pos_mod_bound [OF k(1)] pos_mod_sign [OF k(1)] by (metis add_less_cancel_left le_add_same_cancel1)
next
  assume "0 < k" "h * k \<le> n \<and> n < h * k + k"
  then show "n div k = h" using int_div_pos_eq [of n k h "n - h * k"] by (simp add: mult.commute)
qed

lemma tag_range: "isCaseAuthenticatedTag n \<longleftrightarrow> 0xFFFFFFFD00000000 \<le> n \<and> n \<le> 0xFFFFFFFDFFFFFFFF"
  unfolding isCaseAuthenticatedTag_iff by (subst div_eq_range) auto

lemma group_range: "isGroupNodeId n \<longleftrightarrow> 0xFFFFFFFFFFFF0000 \<le> n \<and> n \<le> 0xFFFFFFFFFFFFFFFF"
  unfolding isGroupNodeId_iff by (subst div_eq_range) auto

lemma fromNodeId_value:
  assumes "isGroupNodeId n"
  shows "fromNodeId n = Inr (n - 0xFFFFFFFFFFFF0000)"
proof -
  define h where "h = (0xFFFFFFFFFFFF :: int)"
  have "n div 2 ^ 16 = h" using assms by (simp add: isGroupNodeId_iff h_def)
  then have m: "n mod 2 ^ 16 = n - h * 2 ^ 16" using div_mult_mod_eq [of n "2 ^ 16"] by simp
  have a: "n AND 0xffff = n mod 2 ^ 16"
    using take_bit_eq_mask [of 16 n] by (simp add: mask_eq_exp_minus_1 take_bit_eq_mod)
  have "0 \<le> n mod 2 ^ 16" "n mod 2 ^ 16 < 2 ^ 16" by simp_all
  then show ?thesis using assms unfolding fromNodeId_def GroupId_def a m by (simp add: h_def)
qed

section \<open>Properties\<close>

text \<open>
  C17: the subranges of the node id space.  The string tests recognise exactly the numeric subrange of CASE
  authenticated tags, \<open>0xFFFFFFFD_00000000\<close> to \<open>0xFFFFFFFD_FFFFFFFF\<close>, and exactly that of groups, the ids from
  \<open>0xFFFFFFFF_FFFF0000\<close>; both are disjoint from each other and from the operational node ids.  Every 32-bit tag is
  embedded at its place in the subrange and every other number is refused, and likewise every 16-bit group id.
  Extraction gives back the tag of an id of the subrange unless the version in its low 16 bits is zero, and the
  group id of a group, and refuses every other node id.
\<close>

theorem node_id_subranges:
  "(isCaseAuthenticatedTag n \<longleftrightarrow> 0xFFFFFFFD00000000 \<le> n \<and> n \<le> 0xFFFFFFFDFFFFFFFF) \<and>
    (isGroupNodeId n \<longleftrightarrow> 0xFFFFFFFFFFFF0000 \<le> n \<and> n \<le> 0xFFFFFFFFFFFFFFFF) \<and>
    \<not> (isCaseAuthenticatedTag n \<and> isGroupNodeId n) \<and>
    \<not> (isOperationalNodeId n \<and> (isCaseAuthenticatedTag n \<or> isGroupNodeId n)) \<and>
    fromCaseAuthenticatedTag tag =
      (if 0 \<le> tag \<and> tag < 2 ^ 32 then Inr (0xFFFFFFFD00000000 + tag) else Inl UnexpectedDataError) \<and>
    fromGroupId g = (if 0 \<le> g \<and> g < 2 ^ 16 then Inr (0xFFFFFFFFFFFF0000 + g) else Inl ValidationOutOfBoundsError) \<and>
    extractAsCaseAuthenticatedTag n =
      (if \<not> isCaseAuthenticatedTag n then Inl UnexpectedDataError
       else if n mod 2 ^ 16 = 0 then Inl ValidationOutOfBoundsError
       else Inr (n - 0xFFFFFFFD00000000)) \<and>
    fromNodeId n = (if isGroupNodeId n then Inr (n - 0xFFFFFFFFFFFF0000) else Inl InternalError)"
proof -
  have "fromCaseAuthenticatedTag tag =
      (if 0 \<le> tag \<and> tag < 2 ^ 32 then Inr (0xFFFFFFFD00000000 + tag) else Inl UnexpectedDataError)"
    using subrange_value [of tag 13] by (simp add: fromCaseAuthenticatedTag_def)
  moreover have "fromGroupId g = (if 0 \<le> g \<and> g < 2 ^ 16 then Inr (0xFFFFFFFFFFFF0000 + g) else Inl ValidationOutOfBoundsError)"
    using fromGroupId_value [of g] by (simp add: fromGroupId_def GroupId_def)
  moreover have "extractAsCaseAuthenticatedTag n = Inl UnexpectedDataError" if "\<not> isCaseAuthenticatedTag n"
    using that by (simp add: extractAsCaseAuthenticatedTag_def)
  moreover have "n mod 2 ^ 32 = n - 0xFFFFFFFD00000000" if "isCaseAuthenticatedTag n"
    using that div_mult_mod_eq [of n "2 ^ 32"] by (simp add: isCaseAuthenticatedTag_iff)
  moreover have "fromNodeId n = Inl InternalError" if "\<not> isGroupNodeId n"
    using that by (simp add: fromNodeId_def)
  moreover have "\<not> (isCaseAuthenticatedTag n \<and> isGroupNodeId n)"
    "\<not> (isOperationalNodeId n \<and> (isCaseAuthenticatedTag n \<or> isGroupNodeId n))"
    unfolding tag_range group_range isOperationalNodeId_def by linarith+
  ultimately show ?thesis
    using tag_range [of n] group_range [of n] extract_tag [of n] fromNodeId_value [of n] by simp
qed

text \<open>
  C18: the tag constructors shift with 32-bit signed arithmetic, so an identifier of \<open>0x8000\<close> or more
  together with a version gives a negative number.  The reserved administrator and anchor tags are such
  identifiers: \<open>fromCaseAuthenticatedTag\<close> refuses every one of them.
\<close>

theorem high_tag_has_no_node_id:
  assumes "0x8000 \<le> ident" "ident \<le> 0xffff" "0 < version" "version \<le> 0xffff"
  shows "\<exists>cat. CaseAuthenticatedTag ident (Some version) = Inr cat \<and> cat = ident * 2 ^ 16 + version - 2 ^ 32 \<and>
    fromCaseAuthenticatedTag cat = Inl UnexpectedDataError \<and>
    (\<exists>a b. AdministratorIdentifier version = Inr a \<and> fromCaseAuthenticatedTag a = Inl UnexpectedDataError \<and>
      AnchorIdentifier version = Inr b \<and> fromCaseAuthenticatedTag b = Inl UnexpectedDataError)"
proof -
  have shl: "js_shl x 16 = x * 2 ^ 16 - 2 ^ 32" if "0x8000 \<le> x" "x \<le> 0xffff" for x
    using that to_int32_high [of "x * 65536"] by (simp add: js_shl_def to_int32_id push_bit_eq_mult)
  have orv: "js_or (x * 2 ^ 16 - 2 ^ 32) version = x * 2 ^ 16 + version - 2 ^ 32"
    if "0x8000 \<le> x" "x \<le> 0xffff" for x
    using that assms(3,4) or_low_part [of version 16 "x - 2 ^ 16"] by (simp add: js_or_def to_int32_id algebra_simps)
  have cat: "js_and (ident * 2 ^ 16 + version - 2 ^ 32) 0xffff \<noteq> 0"
    using high_part(2) [of version "2 ^ 16" "ident - 2 ^ 16"] assms(3,4) by (simp add: js_and_ffff algebra_simps)
  show ?thesis
    using assms cat shl [OF assms(1,2)] orv [OF assms(1,2)] shl [of "0xfffd"] shl [of "0xfffe"] orv [of "0xfffd"] orv [of "0xfffe"]
    by (simp add: CaseAuthenticatedTag_def AdministratorIdentifier_def AnchorIdentifier_def fromCaseAuthenticatedTag_def)
qed

theorem high_tag_has_no_node_id_witness:
  "\<exists>cat. CaseAuthenticatedTag 0xfffd (Some 1) = Inr cat \<and> cat = 0xfffd * 2 ^ 16 + 1 - 2 ^ 32 \<and>
    fromCaseAuthenticatedTag cat = Inl UnexpectedDataError \<and>
    (\<exists>a b. AdministratorIdentifier 1 = Inr a \<and> fromCaseAuthenticatedTag a = Inl UnexpectedDataError \<and>
      AnchorIdentifier 1 = Inr b \<and> fromCaseAuthenticatedTag b = Inl UnexpectedDataError)"
  by (rule high_tag_has_no_node_id) simp_all

end
