(* ===== verification/Message_Codec.thy ===== *)
theory Message_Codec
  imports Data_IO Identifiers
begin

text \<open>
  \<open>MessageCodec\<close> and \<open>MessagePrivacy\<close> of the package \<open>protocol\<close>: the packet header, the payload
  header and the obfuscation of the header of privacy-enhanced messages.

  The lemmas show that packets and payloads are decoded to what was encoded, which packets the decoder
  accepts, and that the decoder never reads past the message.
\<close>

section \<open>Data\<close>

datatype SessionType = Unicast | Group

fun session_type_num :: "SessionType \<Rightarrow> int" where
  "session_type_num Unicast = 0"
| "session_type_num Group = 1"

record PacketHeader =
  sessionId :: int
  sessionType :: SessionType
  hasPrivacyEnhancements :: bool
  isControlMessage :: bool
  hasMessageExtensions :: bool
  messageId :: int
  sourceNodeId :: "int option"
  destNodeId :: "int option"
  destGroupId :: "int option"

record DecodedPacketHeader = PacketHeader +
  securityFlags :: int

record PayloadHeader =
  exchangeId :: int
  protocolId :: int
  messageType :: int
  isInitiatorMessage :: bool
  requiresAck :: bool
  ackedMessageId :: "int option"
  hasSecuredExtension :: bool

record 'h Packet =
  header :: 'h
  messageExtension :: "bytes option"
  applicationPayload :: bytes
  headerBytes :: "bytes option"

record DecodedPacket = "DecodedPacketHeader Packet" +
  privacyHeader :: "bytes option"

record 'h Message =
  packetHeader :: 'h
  payloadHeader :: PayloadHeader
  securityExtension :: "bytes option"
  payload :: bytes

text \<open>The result of \<open>decodeFixedHeader\<close>.\<close>

record FixedHeader =
  fx_flags :: int
  fx_sessionType :: SessionType
  fx_hasPrivacyEnhancements :: bool
  fx_hasMessageExtensions :: bool
  fx_sessionId :: int
  fx_securityFlags :: int
  fx_messageId :: "int option"
  fx_sourceNodeId :: "int option"
  fx_destNodeId :: "int option"
  fx_destGroupId :: "int option"
  fx_obfuscatedRegion :: "bytes option"
  fx_applicationPayload :: bytes

abbreviation (input) HasDestNodeId :: int where "HasDestNodeId \<equiv> 0x01"
abbreviation (input) HasDestGroupId :: int where "HasDestGroupId \<equiv> 0x02"
abbreviation (input) HasSourceNodeId :: int where "HasSourceNodeId \<equiv> 0x04"
abbreviation (input) VersionMask :: int where "VersionMask \<equiv> 0xf0"

abbreviation (input) IsInitiatorMessage :: int where "IsInitiatorMessage \<equiv> 0x01"
abbreviation (input) IsAckMessage :: int where "IsAckMessage \<equiv> 0x02"
abbreviation (input) RequiresAck :: int where "RequiresAck \<equiv> 0x04"
abbreviation (input) HasSecureExtension :: int where "HasSecureExtension \<equiv> 0x08"
abbreviation (input) HasVendorId :: int where "HasVendorId \<equiv> 0x10"

abbreviation (input) HasPrivacyEnhancements :: int where "HasPrivacyEnhancements \<equiv> 0x80"
abbreviation (input) IsControlMessage :: int where "IsControlMessage \<equiv> 0x40"
abbreviation (input) HasMessageExtension :: int where "HasMessageExtension \<equiv> 0x20"
abbreviation (input) SessionTypeMask :: int where "SessionTypeMask \<equiv> 0x03"

definition CRYPTO_AEAD_MIC_LENGTH_BYTES :: nat where
  "CRYPTO_AEAD_MIC_LENGTH_BYTES = 16"

section \<open>Decoding\<close>

definition privacy_header_length :: "int \<Rightarrow> int" where
  "privacy_header_length flags =
    4 + (if has_flag flags HasSourceNodeId then 8 else 0) +
    (if has_flag flags HasDestNodeId then 8 else if has_flag flags HasDestGroupId then 2 else 0)"

type_synonym header_fields = "int \<times> int option \<times> int option \<times> int option"

text \<open>The message counter and the addresses, in the clear or deobfuscated.\<close>

definition read_header_fields :: "int \<Rightarrow> header_fields read" where
  "read_header_fields flags r =
    bindE (readUInt32 r) (\<lambda>(mid, r).
    bindE (read_if (has_flag flags HasSourceNodeId) readUInt64 r) (\<lambda>(src, r).
    bindE (read_if (has_flag flags HasDestNodeId) readUInt64 r) (\<lambda>(dst, r).
    bindE (read_if (has_flag flags HasDestGroupId) readUInt16 r) (\<lambda>(grp, r).
    Inr ((mid, src, dst, grp), r)))))"

text \<open>
  \<open>decodeFixedHeader\<close> in two steps: the cleartext prefix with its checks, then the fields or the obfuscated
  region.
\<close>

definition decode_prefix :: "(int \<times> int \<times> int \<times> SessionType) read" where
  "decode_prefix r =
    bindE (readUInt8 r) (\<lambda>(flags, r).
    let version = js_shr (js_and flags VersionMask) 4;
        hasDestNodeId = has_flag flags HasDestNodeId;
        hasDestGroupId = has_flag flags HasDestGroupId;
        hasSourceNodeId = has_flag flags HasSourceNodeId in
    if hasDestNodeId \<and> hasDestGroupId then Inl UnexpectedDataError
    else if version \<noteq> 0 then Inl NotImplementedError
    else
    bindE (readUInt16 r) (\<lambda>(sid, r).
    bindE (readUInt8 r) (\<lambda>(sflags, r).
    let st = js_and sflags SessionTypeMask in
    if st \<noteq> session_type_num Group \<and> st \<noteq> session_type_num Unicast then Inl UnexpectedDataError
    else if st = session_type_num Unicast \<and> hasDestGroupId then Inl UnexpectedDataError
    else if st = session_type_num Group \<and> \<not> hasDestGroupId \<and> \<not> hasDestNodeId then Inl UnexpectedDataError
    else if st = session_type_num Group \<and> \<not> hasSourceNodeId then Inl UnexpectedDataError
    else if has_flag sflags IsControlMessage then Inl NotImplementedError
    else Inr ((flags, sid, sflags, if st = session_type_num Group then Group else Unicast), r))))"

definition decode_tail :: "int \<times> int \<times> int \<times> SessionType \<Rightarrow> data_reader \<Rightarrow> error + FixedHeader" where
  "decode_tail prefix r = (case prefix of (flags, sid, sflags, type) \<Rightarrow>
    if has_flag sflags HasPrivacyEnhancements then
      if has_flag sflags HasMessageExtension then Inl NotImplementedError
      else if remainingBytesCount r < privacy_header_length flags then Inl UnexpectedDataError
      else bindE (readByteArray (privacy_header_length flags) r) (\<lambda>(region, r).
        Inr \<lparr>fx_flags = flags, fx_sessionType = type, fx_hasPrivacyEnhancements = True,
          fx_hasMessageExtensions = False, fx_sessionId = sid, fx_securityFlags = sflags, fx_messageId = None,
          fx_sourceNodeId = None, fx_destNodeId = None, fx_destGroupId = None,
          fx_obfuscatedRegion = Some region, fx_applicationPayload = remainingBytes r\<rparr>)
    else
    bindE (read_header_fields flags r) (\<lambda>((mid, src, dst, grp), r).
    Inr \<lparr>fx_flags = flags, fx_sessionType = type, fx_hasPrivacyEnhancements = False,
      fx_hasMessageExtensions = has_flag sflags HasMessageExtension, fx_sessionId = sid, fx_securityFlags = sflags,
      fx_messageId = Some mid, fx_sourceNodeId = src, fx_destNodeId = dst, fx_destGroupId = grp,
      fx_obfuscatedRegion = None, fx_applicationPayload = remainingBytes r\<rparr>))"

definition decodeFixedHeader :: "bytes \<Rightarrow> error + FixedHeader" where
  "decodeFixedHeader data = bindE (decode_prefix (DataReader data True)) (\<lambda>(prefix, r). decode_tail prefix r)"

definition optE :: "('a \<Rightarrow> error + 'b) \<Rightarrow> 'a option \<Rightarrow> error + 'b option" where
  "optE f x = (case x of None \<Rightarrow> Inr None | Some a \<Rightarrow> bindE (f a) (\<lambda>b. Inr (Some b)))"

definition read_extension :: "bytes read" where
  "read_extension r = bindE (readUInt16 r) (\<lambda>(len, r).
    if len > remainingBytesCount r then Inl UnexpectedDataError else readByteArray len r)"

definition decodePacket :: "bytes \<Rightarrow> error + DecodedPacket" where
  "decodePacket data = bindE (decodeFixedHeader data) (\<lambda>f.
    if fx_hasPrivacyEnhancements f then
      case fx_obfuscatedRegion f of
        None \<Rightarrow> Inl UnexpectedDataError
      | Some region \<Rightarrow>
          if length (fx_applicationPayload f) < CRYPTO_AEAD_MIC_LENGTH_BYTES then Inl UnexpectedDataError
          else Inr \<lparr>header = \<lparr>sessionId = fx_sessionId f, sessionType = fx_sessionType f,
              hasPrivacyEnhancements = True, isControlMessage = False, hasMessageExtensions = False,
              messageId = 0, sourceNodeId = None, destNodeId = None, destGroupId = None,
              securityFlags = fx_securityFlags f\<rparr>,
            messageExtension = None, applicationPayload = fx_applicationPayload f, headerBytes = None,
            privacyHeader = Some region\<rparr>
    else
      case fx_messageId f of
        None \<Rightarrow> Inl UnexpectedDataError
      | Some mid \<Rightarrow>
          bindE (optE GroupId (fx_destGroupId f)) (\<lambda>grp.
          let h = \<lparr>sessionId = fx_sessionId f, sessionType = fx_sessionType f,
              hasPrivacyEnhancements = False, isControlMessage = False,
              hasMessageExtensions = fx_hasMessageExtensions f, messageId = mid,
              sourceNodeId = fx_sourceNodeId f, destNodeId = fx_destNodeId f, destGroupId = grp,
              securityFlags = fx_securityFlags f\<rparr> in
          if fx_hasMessageExtensions f then
            bindE (read_extension (DataReader (fx_applicationPayload f) True)) (\<lambda>(ext, r).
              Inr \<lparr>header = h, messageExtension = Some ext, applicationPayload = remainingBytes r,
                headerBytes = None, privacyHeader = None\<rparr>)
          else Inr \<lparr>header = h, messageExtension = None, applicationPayload = fx_applicationPayload f,
                headerBytes = None, privacyHeader = None\<rparr>))"

definition decodeObfuscatedHeaderFields :: "int \<Rightarrow> bytes \<Rightarrow> error + header_fields" where
  "decodeObfuscatedHeaderFields messageFlags region =
    (if has_flag messageFlags HasDestNodeId \<and> has_flag messageFlags HasDestGroupId then Inl UnexpectedDataError
     else if int (length region) < privacy_header_length messageFlags then Inl UnexpectedDataError
     else
     bindE (read_header_fields messageFlags (DataReader region True)) (\<lambda>((mid, src, dst, grp), r).
     bindE (optE GroupId grp) (\<lambda>grp.
     Inr (mid, src, dst, grp))))"

definition decodePayloadHeader :: "PayloadHeader read" where
  "decodePayloadHeader r =
    bindE (readUInt8 r) (\<lambda>(exchangeFlags, r).
    bindE (readUInt8 r) (\<lambda>(mtype, r).
    bindE (readUInt16 r) (\<lambda>(exch, r).
    bindE (read_if (has_flag exchangeFlags HasVendorId) readUInt16 r) (\<lambda>(vendor, r).
    bindE (readUInt16 r) (\<lambda>(proto, r).
    bindE (read_if (has_flag exchangeFlags IsAckMessage) readUInt32 r) (\<lambda>(acked, r).
    Inr (\<lparr>exchangeId = exch,
      protocolId = (case vendor of None \<Rightarrow> 0 | Some v \<Rightarrow> v) * 0x10000 + proto,
      messageType = mtype,
      isInitiatorMessage = has_flag exchangeFlags IsInitiatorMessage,
      requiresAck = has_flag exchangeFlags RequiresAck,
      ackedMessageId = acked,
      hasSecuredExtension = has_flag exchangeFlags HasSecureExtension\<rparr>, r)))))))"

text \<open>JavaScript's truth value of an optional number: absent and zero both count as false.\<close>

definition truthy_num :: "int option \<Rightarrow> bool" where
  "truthy_num x \<longleftrightarrow> x \<noteq> None \<and> x \<noteq> Some 0"

definition decodePayload :: "DecodedPacketHeader \<Rightarrow> bytes \<Rightarrow> error + DecodedPacketHeader Message" where
  "decodePayload h appPayload =
    bindE (decodePayloadHeader (DataReader appPayload True)) (\<lambda>(ph, r).
    bindE (read_if (hasSecuredExtension ph) read_extension r) (\<lambda>(ext, r).
    if sessionType h = Group \<and> \<not> isControlMessage h \<and> (requiresAck ph \<or> truthy_num (ackedMessageId ph))
    then Inl UnexpectedDataError
    else Inr \<lparr>packetHeader = h, payloadHeader = ph, securityExtension = ext, payload = remainingBytes r\<rparr>))"

section \<open>Encoding\<close>

definition encodePacketHeader :: "'z PacketHeader_scheme \<Rightarrow> error + bytes" where
  "encodePacketHeader h =
    (if sessionType h = Group \<and> (destGroupId h = None \<or> sourceNodeId h = None \<or> destNodeId h \<noteq> None)
     then Inl InternalError
     else
       let flags = js_or (js_or (js_or (js_shl 0 4)
             (if destGroupId h \<noteq> None then HasDestGroupId else 0))
             (if destNodeId h \<noteq> None then HasDestNodeId else 0))
             (if sourceNodeId h \<noteq> None then HasSourceNodeId else 0);
           sflags = js_or (session_type_num (sessionType h)) (if hasPrivacyEnhancements h then HasPrivacyEnhancements else 0);
           w = writeUInt32 (messageId h) (writeUInt8 sflags (writeUInt16 (sessionId h) (writeUInt8 flags (DataWriter True))));
           w = (case sourceNodeId h of None \<Rightarrow> w | Some n \<Rightarrow> writeUInt64 n w);
           w = (case destNodeId h of None \<Rightarrow> w | Some n \<Rightarrow> writeUInt64 n w);
           w = (case destGroupId h of None \<Rightarrow> w | Some g \<Rightarrow> writeUInt16 g w)
       in to_bytes w)"

definition encodePayloadHeader :: "PayloadHeader \<Rightarrow> error + bytes" where
  "encodePayloadHeader p =
    (let vendorId = js_ushr (js_and (protocolId p) 0xffff0000) 16;
         flags = js_or (js_or (js_or
             (if isInitiatorMessage p then IsInitiatorMessage else 0)
             (if ackedMessageId p \<noteq> None then IsAckMessage else 0))
             (if requiresAck p then RequiresAck else 0))
             (if vendorId \<noteq> 0 then HasVendorId else 0);
         w = writeUInt16 (exchangeId p) (writeUInt8 (messageType p) (writeUInt8 flags (DataWriter True)));
         w = (if vendorId \<noteq> 0 then writeUInt16 vendorId w else w);
         w = writeUInt16 (js_and (protocolId p) 0xffff) w;
         w = (case ackedMessageId p of None \<Rightarrow> w | Some a \<Rightarrow> writeUInt32 a w)
     in to_bytes w)"

definition encodePayload :: "'h Message \<Rightarrow> error + 'h Packet" where
  "encodePayload m =
    (if securityExtension m \<noteq> None \<or> hasSecuredExtension (payloadHeader m) then Inl NotImplementedError
     else bindE (encodePayloadHeader (payloadHeader m)) (\<lambda>hb.
       Inr \<lparr>header = packetHeader m, messageExtension = None, applicationPayload = hb @ payload m, headerBytes = None\<rparr>))"

definition encodePacket :: "'z PacketHeader_scheme Packet \<Rightarrow> error + bytes" where
  "encodePacket p =
    (if messageExtension p \<noteq> None \<or> hasMessageExtensions (header p) then Inl NotImplementedError
     else bindE (case headerBytes p of Some hb \<Rightarrow> Inr hb | None \<Rightarrow> encodePacketHeader (header p)) (\<lambda>hb.
       Inr (hb @ applicationPayload p)))"

section \<open>Privacy\<close>

definition buildNonce :: "int \<Rightarrow> bytes \<Rightarrow> error + bytes" where
  "buildNonce sid mic =
    (if length mic \<noteq> CRYPTO_AEAD_MIC_LENGTH_BYTES then Inl CryptoInputError
     else Inr ([word_of_int (js_and (js_shr sid 8) 0xff), word_of_int (js_and sid 0xff)] @
       take (13 - 2) (drop (CRYPTO_AEAD_MIC_LENGTH_BYTES - (13 - 2)) mic)))"

text \<open>
  The cryptographic provider is a parameter: \<open>encrypt key data nonce aad\<close>, the last argument empty
  where the source passes none.
\<close>

definition obfuscate :: "(bytes \<Rightarrow> bytes \<Rightarrow> bytes \<Rightarrow> bytes \<Rightarrow> bytes) \<Rightarrow> bytes \<Rightarrow> bytes \<Rightarrow> bytes \<Rightarrow> bytes" where
  "obfuscate encrypt privacyKey data nonce = take (length data) (encrypt privacyKey data nonce [])"

section \<open>Payload headers\<close>

definition valid_payload_header :: "PayloadHeader \<Rightarrow> bool" where
  "valid_payload_header p \<longleftrightarrow>
    0 \<le> exchangeId p \<and> exchangeId p < 2 ^ 16 \<and> 0 \<le> protocolId p \<and> protocolId p < 2 ^ 32 \<and>
    0 \<le> messageType p \<and> messageType p < 2 ^ 8 \<and>
    (case ackedMessageId p of None \<Rightarrow> True | Some a \<Rightarrow> 0 \<le> a \<and> a < 2 ^ 32) \<and> \<not> hasSecuredExtension p"

definition payload_flags :: "bool \<Rightarrow> bool \<Rightarrow> bool \<Rightarrow> bool \<Rightarrow> int" where
  "payload_flags ini ack req ven = (if ini then 1 else 0) + (if ack then 2 else 0) + (if req then 4 else 0) + (if ven then 16 else 0)"

lemma payload_flags_or:
  "js_or (js_or (js_or (if ini then 1 else 0) (if ack then 2 else 0)) (if req then 4 else 0)) (if ven then 16 else 0)
    = payload_flags ini ack req ven"
  by (cases ini; cases ack; cases req; cases ven) (simp_all add: payload_flags_def js_or_eval)

lemma payload_flags_test [simp]:
  "has_flag (payload_flags ini ack req ven) 1 = ini" "has_flag (payload_flags ini ack req ven) 2 = ack"
  "has_flag (payload_flags ini ack req ven) 4 = req" "has_flag (payload_flags ini ack req ven) 16 = ven"
  "has_flag (payload_flags ini ack req ven) 8 = False"
  by (cases ini; cases ack; cases req; cases ven; simp add: payload_flags_def js_or_eval has_flag_def)+

lemma payload_flags_byte [simp]:
  "toNumber (payload_flags ini ack req ven) = payload_flags ini ack req ven"
  "payload_flags ini ack req ven mod 256 = payload_flags ini ack req ven"
  by (simp_all add: payload_flags_def toNumber_small)

definition payload_header_bytes :: "PayloadHeader \<Rightarrow> bytes" where
  "payload_header_bytes p = (let v = protocolId p div 65536 in
    [word_of_int (payload_flags (isInitiatorMessage p) (ackedMessageId p \<noteq> None) (requiresAck p) (v \<noteq> 0)),
     word_of_int (messageType p)] @ le_bytes 2 (exchangeId p) @
    (if v \<noteq> 0 then le_bytes 2 v else []) @ le_bytes 2 (protocolId p mod 65536) @
    (case ackedMessageId p of None \<Rightarrow> [] | Some a \<Rightarrow> le_bytes 4 a))"

lemma protocol_parts:
  assumes "valid_payload_header p"
  shows "0 \<le> protocolId p div 65536" "protocolId p div 65536 < 65536"
    "0 \<le> protocolId p mod 65536" "protocolId p mod 65536 < 65536"
proof -
  have "0 \<le> protocolId p" "protocolId p < 4294967296" using assms by (auto simp: valid_payload_header_def)
  then show "0 \<le> protocolId p div 65536" "protocolId p div 65536 < 65536"
    "0 \<le> protocolId p mod 65536" "protocolId p mod 65536 < 65536" by linarith+
qed

lemma encodePayloadHeader_bytes:
  assumes "valid_payload_header p"
  shows "encodePayloadHeader p = Inr (payload_header_bytes p)"
proof -
  have v: "js_ushr (js_and (protocolId p) 0xffff0000) 16 = protocolId p div 65536"
    using assms js_high_half by (simp add: valid_payload_header_def)
  note d = protocol_parts [OF assms]
  show ?thesis
    using assms d
    by (auto simp: encodePayloadHeader_def payload_header_bytes_def v js_and_ffff payload_flags_or Let_def
        valid_payload_header_def io_simps split: option.splits)
qed

lemma decodePayloadHeader_bytes:
  assumes "valid_payload_header p"
  shows "decodePayloadHeader (reader_at pre (payload_header_bytes p @ rest)) =
    Inr (p, reader_at (pre @ payload_header_bytes p) rest)"
proof -
  note d = protocol_parts [OF assms]
  have e: "protocolId p div 65536 = 0 \<Longrightarrow> protocolId p mod 65536 = protocolId p"
    using mult_div_mod_eq [of 65536 "protocolId p"] by simp
  show ?thesis
    using assms d e mult_div_mod_eq [of 65536 "protocolId p"]
    by (cases p) (auto simp: decodePayloadHeader_def payload_header_bytes_def Let_def read_if_def
        valid_payload_header_def io_simps split: option.splits)
qed

interpretation payload_header: codec encodePayloadHeader decodePayloadHeader valid_payload_header
  by unfold_locales (auto simp: encodePayloadHeader_bytes decodePayloadHeader_bytes)

section \<open>Packet headers\<close>

text \<open>The headers a sender may build: every field within its width, addresses as the session type asks.\<close>

definition valid_packet_header :: "'z PacketHeader_scheme \<Rightarrow> bool" where
  "valid_packet_header h \<longleftrightarrow>
    0 \<le> sessionId h \<and> sessionId h < 2 ^ 16 \<and> 0 \<le> messageId h \<and> messageId h < 2 ^ 32 \<and>
    opt_below (2 ^ 64) (sourceNodeId h) \<and> opt_below (2 ^ 64) (destNodeId h) \<and> opt_below (2 ^ 16) (destGroupId h) \<and>
    \<not> isControlMessage h \<and> \<not> hasMessageExtensions h \<and>
    (case sessionType h of
       Unicast \<Rightarrow> destGroupId h = None
     | Group \<Rightarrow> destGroupId h \<noteq> None \<and> sourceNodeId h \<noteq> None \<and> destNodeId h = None)"

definition packet_flags :: "'z PacketHeader_scheme \<Rightarrow> int" where
  "packet_flags h = (if destNodeId h \<noteq> None then 1 else 0) + (if destGroupId h \<noteq> None then 2 else 0) +
    (if sourceNodeId h \<noteq> None then 4 else 0)"

definition security_flags :: "'z PacketHeader_scheme \<Rightarrow> int" where
  "security_flags h = session_type_num (sessionType h) + (if hasPrivacyEnhancements h then 128 else 0)"

lemma packet_flags_or:
  "js_or (js_or (js_or (js_shl 0 4) (if destGroupId h \<noteq> None then 2 else 0)) (if destNodeId h \<noteq> None then 1 else 0))
      (if sourceNodeId h \<noteq> None then 4 else 0) = packet_flags h"
  by (auto simp: packet_flags_def js_or_eval js_shl_def to_int32_id)

lemma security_flags_or:
  "js_or (session_type_num (sessionType h)) (if hasPrivacyEnhancements h then 128 else 0) = security_flags h"
  by (cases "sessionType h") (auto simp: security_flags_def js_or_eval)

lemma packet_flags_test [simp]:
  "has_flag (packet_flags h) 1 \<longleftrightarrow> destNodeId h \<noteq> None" "has_flag (packet_flags h) 2 \<longleftrightarrow> destGroupId h \<noteq> None"
  "has_flag (packet_flags h) 4 \<longleftrightarrow> sourceNodeId h \<noteq> None" "js_shr (js_and (packet_flags h) 0xf0) 4 = 0"
  "toNumber (packet_flags h) = packet_flags h" "packet_flags h mod 256 = packet_flags h"
  by (auto simp: packet_flags_def js_or_eval has_flag_def js_shr_def to_int32_id toNumber_small)

lemma security_flags_test [simp]:
  "has_flag (security_flags h) 128 \<longleftrightarrow> hasPrivacyEnhancements h" "has_flag (security_flags h) 64 = False"
  "has_flag (security_flags h) 32 = False" "js_and (security_flags h) 3 = session_type_num (sessionType h)"
  "toNumber (security_flags h) = security_flags h" "security_flags h mod 256 = security_flags h"
  by (cases "sessionType h"; auto simp: security_flags_def js_or_eval has_flag_def toNumber_small)+

text \<open>The part of the header that privacy enhancements hide.\<close>

definition region_bytes :: "'z PacketHeader_scheme \<Rightarrow> bytes" where
  "region_bytes h = le_bytes 4 (messageId h) @
    (case sourceNodeId h of None \<Rightarrow> [] | Some n \<Rightarrow> le_bytes 8 n) @
    (case destNodeId h of None \<Rightarrow> [] | Some n \<Rightarrow> le_bytes 8 n) @
    (case destGroupId h of None \<Rightarrow> [] | Some g \<Rightarrow> le_bytes 2 g)"

definition fixed_bytes :: "'z PacketHeader_scheme \<Rightarrow> bytes" where
  "fixed_bytes h = word_of_int (packet_flags h) # le_bytes 2 (sessionId h) @ [word_of_int (security_flags h)]"

lemma encodePacketHeader_bytes:
  "valid_packet_header h \<Longrightarrow> encodePacketHeader h = Inr (fixed_bytes h @ region_bytes h)"
  unfolding encodePacketHeader_def packet_flags_or security_flags_or Let_def
  by (auto simp: valid_packet_header_def fixed_bytes_def region_bytes_def io_simps split: option.splits SessionType.splits)

lemma length_region_bytes: "valid_packet_header h \<Longrightarrow> int (length (region_bytes h)) = privacy_header_length (packet_flags h)"
  by (auto simp: region_bytes_def privacy_header_length_def valid_packet_header_def split: option.splits SessionType.splits)

lemma valid_header_addresses: "valid_packet_header h \<Longrightarrow> destNodeId h = None \<or> destGroupId h = None"
  "valid_packet_header h \<Longrightarrow> sessionType h = Unicast \<Longrightarrow> destGroupId h = None"
  "valid_packet_header h \<Longrightarrow> sessionType h = Group \<Longrightarrow> destGroupId h \<noteq> None \<and> sourceNodeId h \<noteq> None"
  by (cases "sessionType h"; simp add: valid_packet_header_def)+

lemma read_header_fields_region:
  "valid_packet_header h \<Longrightarrow> read_header_fields (packet_flags h) (reader_at pre (region_bytes h @ rest)) =
    Inr ((messageId h, sourceNodeId h, destNodeId h, destGroupId h), reader_at (pre @ region_bytes h) rest)"
  unfolding read_header_fields_def region_bytes_def valid_packet_header_def
  by (cases "sourceNodeId h"; cases "destNodeId h"; cases "destGroupId h") (simp_all add: io_simps read_if_def)

lemma decodeObfuscated_region:
  "valid_packet_header h \<Longrightarrow> decodeObfuscatedHeaderFields (packet_flags h) (region_bytes h) =
    Inr (messageId h, sourceNodeId h, destNodeId h, destGroupId h)"
  using length_region_bytes [of h] valid_header_addresses(1) [of h] read_header_fields_region [of h "[]" "[]"]
  by (auto simp: decodeObfuscatedHeaderFields_def DataReader_at optE_def GroupId_def valid_packet_header_def
      split: option.splits)

definition fixed_header_of :: "'z PacketHeader_scheme \<Rightarrow> bytes \<Rightarrow> FixedHeader" where
  "fixed_header_of h rest = \<lparr>fx_flags = packet_flags h, fx_sessionType = sessionType h,
     fx_hasPrivacyEnhancements = False, fx_hasMessageExtensions = False, fx_sessionId = sessionId h,
     fx_securityFlags = security_flags h, fx_messageId = Some (messageId h), fx_sourceNodeId = sourceNodeId h,
     fx_destNodeId = destNodeId h, fx_destGroupId = destGroupId h, fx_obfuscatedRegion = None,
     fx_applicationPayload = rest\<rparr>"

definition decoded_header :: "'z PacketHeader_scheme \<Rightarrow> DecodedPacketHeader" where
  "decoded_header h = \<lparr>sessionId = sessionId h, sessionType = sessionType h, hasPrivacyEnhancements = hasPrivacyEnhancements h,
     isControlMessage = False, hasMessageExtensions = False, messageId = messageId h, sourceNodeId = sourceNodeId h,
     destNodeId = destNodeId h, destGroupId = destGroupId h, securityFlags = security_flags h\<rparr>"

text \<open>Reading the fixed part and then what follows it.\<close>

lemma decodeFixedHeader_plain:
  assumes "valid_packet_header h" "\<not> hasPrivacyEnhancements h"
  shows "decodeFixedHeader (fixed_bytes h @ region_bytes h @ rest) = Inr (fixed_header_of h rest)"
proof -
  have r: "0 \<le> sessionId h" "sessionId h < 65536" using assms(1) by (auto simp: valid_packet_header_def)
  show ?thesis
    using assms(2) r valid_header_addresses [OF assms(1)] read_header_fields_region [OF assms(1)]
    unfolding decodeFixedHeader_def decode_prefix_def decode_tail_def fixed_bytes_def
    by (cases "sessionType h") (simp_all add: io_simps fixed_header_of_def Let_def)
qed

lemma decodeFixedHeader_private:
  assumes "valid_packet_header h" "hasPrivacyEnhancements h" "int (length region) = privacy_header_length (packet_flags h)"
  shows "decodeFixedHeader (fixed_bytes h @ region @ rest) = Inr \<lparr>fx_flags = packet_flags h, fx_sessionType = sessionType h,
     fx_hasPrivacyEnhancements = True, fx_hasMessageExtensions = False, fx_sessionId = sessionId h,
     fx_securityFlags = security_flags h, fx_messageId = None, fx_sourceNodeId = None,
     fx_destNodeId = None, fx_destGroupId = None, fx_obfuscatedRegion = Some region, fx_applicationPayload = rest\<rparr>"
proof -
  have r: "0 \<le> sessionId h" "sessionId h < 65536" using assms(1) by (auto simp: valid_packet_header_def)
  show ?thesis
    using assms(2,3) r valid_header_addresses [OF assms(1)]
    unfolding decodeFixedHeader_def decode_prefix_def decode_tail_def fixed_bytes_def
    by (cases "sessionType h") (simp_all add: io_simps Let_def)
qed

lemma decodePacket_plain:
  assumes "valid_packet_header h" "\<not> hasPrivacyEnhancements h"
  shows "decodePacket (fixed_bytes h @ region_bytes h @ rest) = Inr \<lparr>header = decoded_header h, messageExtension = None,
    applicationPayload = rest, headerBytes = None, privacyHeader = None\<rparr>"
  using assms decodeFixedHeader_plain [OF assms, of rest]
  by (auto simp: decodePacket_def fixed_header_of_def decoded_header_def optE_def GroupId_def valid_packet_header_def
      Let_def split: option.splits)

section \<open>What the decoder accepts\<close>

lemma read_extension_inv:
  assumes "reader_over d r" "read_extension r = Inr (ext, r')"
  shows "reader_over d r'"
proof -
  obtain len r1 where "readUInt16 r = Inr (len, r1)" "readByteArray len r1 = Inr (ext, r')"
    using assms(2) by (auto simp: read_extension_def bindE_eq_Inr_iff split: if_splits)
  then show ?thesis using read_inv(2) [OF assms(1)] readByteArray_inv by blast
qed

text \<open>The fixed headers \<open>decodeFixedHeader\<close> returns.\<close>

definition accepted_fixed_header :: "bytes \<Rightarrow> FixedHeader \<Rightarrow> bool" where
  "accepted_fixed_header data f \<longleftrightarrow>
    (\<exists>pre. data = pre @ fx_applicationPayload f) \<and> 0 \<le> fx_sessionId f \<and> fx_sessionId f < 2 ^ 16 \<and>
    (if fx_hasPrivacyEnhancements f then
       \<not> fx_hasMessageExtensions f \<and>
       (\<exists>region. fx_obfuscatedRegion f = Some region \<and> int (length region) = privacy_header_length (fx_flags f))
     else
       (\<exists>mid. fx_messageId f = Some mid \<and> 0 \<le> mid \<and> mid < 2 ^ 32) \<and>
       opt_below (2 ^ 64) (fx_sourceNodeId f) \<and> opt_below (2 ^ 64) (fx_destNodeId f) \<and>
       opt_below (2 ^ 16) (fx_destGroupId f) \<and>
       (fx_destNodeId f = None \<or> fx_destGroupId f = None) \<and>
       (case fx_sessionType f of
          Unicast \<Rightarrow> fx_destGroupId f = None
        | Group \<Rightarrow> (fx_destGroupId f \<noteq> None \<or> fx_destNodeId f \<noteq> None) \<and> fx_sourceNodeId f \<noteq> None))"

lemma read_header_fields_inv:
  assumes "reader_over d r" "read_header_fields flags r = Inr ((mid, src, dst, grp), r')"
  shows "reader_over d r'" "0 \<le> mid \<and> mid < 2 ^ 32" "opt_below (2 ^ 64) src" "opt_below (2 ^ 64) dst"
    "opt_below (2 ^ 16) grp" "(src \<noteq> None) = has_flag flags 4" "(dst \<noteq> None) = has_flag flags 1"
    "(grp \<noteq> None) = has_flag flags 2"
proof -
  obtain r1 r2 r3 where m: "readUInt32 r = Inr (mid, r1)"
    and s: "read_if (has_flag flags 4) readUInt64 r1 = Inr (src, r2)"
    and t: "read_if (has_flag flags 1) readUInt64 r2 = Inr (dst, r3)"
    and g: "read_if (has_flag flags 2) readUInt16 r3 = Inr (grp, r')"
    using assms(2) by (auto simp: read_header_fields_def bindE_eq_Inr_iff)
  note m = read_inv(3) [OF assms(1) m]
  then have r1: "reader_over d r1" by simp
  note s = read_if_inv [OF read_inv(4) [OF r1] r1 s]
  note t = read_if_inv [OF read_inv(4) [OF s(1)] s(1) t]
  note g = read_if_inv [OF read_inv(2) [OF t(1)] t(1) g]
  show "reader_over d r'" "0 \<le> mid \<and> mid < 2 ^ 32" "opt_below (2 ^ 64) src" "opt_below (2 ^ 64) dst"
    "opt_below (2 ^ 16) grp" "(src \<noteq> None) = has_flag flags 4" "(dst \<noteq> None) = has_flag flags 1"
    "(grp \<noteq> None) = has_flag flags 2"
    using g s t m by blast+
qed

lemma decode_prefix_inv:
  assumes "reader_over d r" "decode_prefix r = Inr ((flags, sid, sflags, type), r')"
  shows "reader_over d r'" "0 \<le> sid" "sid < 2 ^ 16" "\<not> (has_flag flags 1 \<and> has_flag flags 2)"
    "type = Unicast \<Longrightarrow> \<not> has_flag flags 2"
    "type = Group \<Longrightarrow> (has_flag flags 2 \<or> has_flag flags 1) \<and> has_flag flags 4"
proof -
  obtain r1 r2 where a: "readUInt8 r = Inr (flags, r1)" "readUInt16 r1 = Inr (sid, r2)" "readUInt8 r2 = Inr (sflags, r')"
    and g: "\<not> (has_flag flags 1 \<and> has_flag flags 2)" "type = Unicast \<Longrightarrow> \<not> has_flag flags 2"
      "type = Group \<Longrightarrow> (has_flag flags 2 \<or> has_flag flags 1) \<and> has_flag flags 4"
    using assms(2) unfolding decode_prefix_def
    by (auto simp: bindE_eq_Inr_iff Let_def split: if_splits)
  note r1 = read_inv(1) [OF assms(1) a(1), THEN conjunct1]
  note r2 = read_inv(2) [OF r1 a(2)]
  show "reader_over d r'" using read_inv(1) [OF r2 [THEN conjunct1] a(3)] by simp
  show "0 \<le> sid" "sid < 2 ^ 16" using r2 by simp_all
  show "\<not> (has_flag flags 1 \<and> has_flag flags 2)" "type = Unicast \<Longrightarrow> \<not> has_flag flags 2"
    "type = Group \<Longrightarrow> (has_flag flags 2 \<or> has_flag flags 1) \<and> has_flag flags 4" using g by blast+
qed

lemma decodeFixedHeader_inv:
  assumes "decodeFixedHeader data = Inr f"
  shows "accepted_fixed_header data f"
proof -
  obtain flags sid sflags type r where p: "decode_prefix (DataReader data True) = Inr ((flags, sid, sflags, type), r)"
    and t: "decode_tail (flags, sid, sflags, type) r = Inr f"
    using assms by (auto simp: decodeFixedHeader_def bindE_eq_Inr_iff)
  note i = decode_prefix_inv [OF reader_over_DataReader p]
  show ?thesis
  proof (cases "has_flag sflags 128")
    case True
    then obtain region r' where "readByteArray (privacy_header_length flags) r = Inr (region, r')"
      and f: "fx_flags f = flags" "fx_hasPrivacyEnhancements f" "\<not> fx_hasMessageExtensions f" "fx_sessionId f = sid"
        "fx_obfuscatedRegion f = Some region" "fx_applicationPayload f = remainingBytes r'"
      using t by (auto simp: decode_tail_def bindE_eq_Inr_iff split: if_splits)
    from readByteArray_inv [OF i(1) this(1)] show ?thesis
      using reader_over_remaining [of data r'] i by (simp add: accepted_fixed_header_def f)
  next
    case False
    then obtain mid src dst grp r' where "read_header_fields flags r = Inr ((mid, src, dst, grp), r')"
      and f: "fx_sessionType f = type" "\<not> fx_hasPrivacyEnhancements f" "fx_sessionId f = sid"
        "fx_messageId f = Some mid" "fx_sourceNodeId f = src" "fx_destNodeId f = dst" "fx_destGroupId f = grp"
        "fx_applicationPayload f = remainingBytes r'"
      using t by (auto simp: decode_tail_def bindE_eq_Inr_iff)
    note h = read_header_fields_inv [OF i(1) this(1)]
    show ?thesis
      using reader_over_remaining [OF h(1)] h(2-8) i
      unfolding accepted_fixed_header_def f using f(2) by (cases type) auto
  qed
qed

lemma decodePayload_bytes:
  assumes "valid_payload_header ph"
  shows "decodePayload h (payload_header_bytes ph @ data) =
    (if sessionType h = Group \<and> \<not> isControlMessage h \<and> (requiresAck ph \<or> truthy_num (ackedMessageId ph))
     then Inl UnexpectedDataError
     else Inr \<lparr>packetHeader = h, payloadHeader = ph, securityExtension = None, payload = data\<rparr>)"
  using decodePayloadHeader_bytes [OF assms, of "[]" data] assms
  by (simp add: decodePayload_def DataReader_at read_if_def valid_payload_header_def)

lemma sample_packet:
  "decodePacket [4, 5, 0, 0, 9, 0, 0, 0, 1, 0, 0, 0, 0, 0, 0, 0, 170] = Inr \<lparr>header = \<lparr>sessionId = 5,
    sessionType = Unicast, hasPrivacyEnhancements = False, isControlMessage = False, hasMessageExtensions = False,
    messageId = 9, sourceNodeId = Some 1, destNodeId = None, destGroupId = None, securityFlags = 0\<rparr>,
    messageExtension = None, applicationPayload = [170], headerBytes = None, privacyHeader = None\<rparr>"
  by code_simp

section \<open>Properties\<close>

text \<open>
  C8: a packet with a well-formed header and no privacy enhancements is encoded, and decoding the bytes gives
  the same header fields, the security flags byte of the wire and the same application payload.
\<close>

theorem packet_roundtrip:
  assumes "valid_packet_header h" "\<not> hasPrivacyEnhancements h"
  shows "\<exists>bs. encodePacket \<lparr>header = h, messageExtension = None, applicationPayload = data, headerBytes = None\<rparr> = Inr bs \<and>
    decodePacket bs = Inr \<lparr>header = decoded_header h, messageExtension = None, applicationPayload = data,
      headerBytes = None, privacyHeader = None\<rparr>"
  using assms encodePacketHeader_bytes [OF assms(1)] decodePacket_plain [OF assms, of data]
  by (simp add: encodePacket_def valid_packet_header_def)

theorem packet_roundtrip_witness:
  "\<exists>bs. encodePacket \<lparr>header = \<lparr>sessionId = 5, sessionType = Group, hasPrivacyEnhancements = False, isControlMessage = False,
      hasMessageExtensions = False, messageId = 9, sourceNodeId = Some 77, destNodeId = None, destGroupId = Some 3\<rparr>,
      messageExtension = None, applicationPayload = [1, 2], headerBytes = None\<rparr> = Inr bs \<and>
    decodePacket bs = Inr \<lparr>header = decoded_header \<lparr>sessionId = 5, sessionType = Group, hasPrivacyEnhancements = False,
      isControlMessage = False, hasMessageExtensions = False, messageId = 9, sourceNodeId = Some 77, destNodeId = None,
      destGroupId = Some 3\<rparr>, messageExtension = None, applicationPayload = [1, 2], headerBytes = None, privacyHeader = None\<rparr>"
  by (rule packet_roundtrip) (simp_all add: valid_packet_header_def)

text \<open>
  C7: whatever bytes arrive, a packet that \<open>decodePacket\<close> accepts is never a control message, has every
  field within its width, carries a group destination only in a group session, has a source and a
  destination in a group session, and its payload is an end piece of the received bytes.  A packet with
  privacy enhancements holds at least a full message integrity code and reveals no counter or address.
\<close>

theorem decodePacket_accepts:
  assumes "decodePacket data = Inr p"
  shows "\<not> isControlMessage (header p) \<and> 0 \<le> sessionId (header p) \<and> sessionId (header p) < 2 ^ 16 \<and>
    (\<exists>pre. data = pre @ applicationPayload p) \<and>
    (if hasPrivacyEnhancements (header p) then
       CRYPTO_AEAD_MIC_LENGTH_BYTES \<le> length (applicationPayload p) \<and> privacyHeader p \<noteq> None \<and>
       \<not> hasMessageExtensions (header p) \<and> messageId (header p) = 0 \<and> sourceNodeId (header p) = None \<and>
       destNodeId (header p) = None \<and> destGroupId (header p) = None
     else
       privacyHeader p = None \<and> 0 \<le> messageId (header p) \<and> messageId (header p) < 2 ^ 32 \<and>
       opt_below (2 ^ 64) (sourceNodeId (header p)) \<and> opt_below (2 ^ 64) (destNodeId (header p)) \<and>
       opt_below (2 ^ 16) (destGroupId (header p)) \<and>
       (destNodeId (header p) = None \<or> destGroupId (header p) = None) \<and>
       (sessionType (header p) = Unicast \<longrightarrow> destGroupId (header p) = None) \<and>
       (sessionType (header p) = Group \<longrightarrow> sourceNodeId (header p) \<noteq> None \<and>
         (destGroupId (header p) \<noteq> None \<or> destNodeId (header p) \<noteq> None)))"
proof -
  obtain f where f: "decodeFixedHeader data = Inr f" using assms by (auto simp: decodePacket_def bindE_eq_Inr_iff)
  note acc = decodeFixedHeader_inv [OF f, unfolded accepted_fixed_header_def]
  show ?thesis
  proof (cases "fx_hasPrivacyEnhancements f")
    case True
    then show ?thesis using assms f acc by (auto simp: decodePacket_def split: option.splits if_splits)
  next
    case False
    then obtain mid where mid: "fx_messageId f = Some mid" using acc by auto
    have ext: "\<exists>pre. data = pre @ remainingBytes r"
      if "read_extension (DataReader (fx_applicationPayload f) True) = Inr (x, r)" for x r
      using acc reader_over_remaining [OF read_extension_inv [OF reader_over_DataReader that]] append_assoc by metis
    have grp: "optE GroupId (fx_destGroupId f) = Inr (fx_destGroupId f)"
      using acc False by (auto simp: optE_def GroupId_def split: option.splits)
    show ?thesis
      using assms f acc False mid grp
      by (auto simp: decodePacket_def Let_def bindE_eq_Inr_iff dest: ext split: if_splits SessionType.splits)
  qed
qed

theorem decodePacket_accepts_witness:
  "\<exists>p. decodePacket [4, 5, 0, 0, 9, 0, 0, 0, 1, 0, 0, 0, 0, 0, 0, 0, 170] = Inr p \<and>
    \<not> isControlMessage (header p) \<and> messageId (header p) < 2 ^ 32 \<and> opt_below (2 ^ 64) (sourceNodeId (header p))"
  using decodePacket_accepts [OF sample_packet] sample_packet by simp

text \<open>
  C9: a message without secured extension is encoded into the application payload and decoded from it to the
  same payload header and payload, for every packet header of a unicast session and, when it neither
  requires nor carries an acknowledgement, of a group session.
\<close>

theorem message_payload_roundtrip:
  assumes "valid_payload_header (payloadHeader m)" "securityExtension m = None" "\<not> isControlMessage h"
    "sessionType h = Group \<longrightarrow> \<not> requiresAck (payloadHeader m) \<and> ackedMessageId (payloadHeader m) = None"
  shows "\<exists>pk. encodePayload m = Inr pk \<and> header pk = packetHeader m \<and>
    decodePayload h (applicationPayload pk) =
      Inr \<lparr>packetHeader = h, payloadHeader = payloadHeader m, securityExtension = None, payload = payload m\<rparr>"
  using assms encodePayloadHeader_bytes [OF assms(1)] decodePayload_bytes [OF assms(1), of h "payload m"]
  by (auto simp: encodePayload_def valid_payload_header_def truthy_num_def)

theorem message_payload_roundtrip_witness:
  "\<exists>pk. encodePayload \<lparr>packetHeader = (), payloadHeader = \<lparr>exchangeId = 7, protocolId = 65537, messageType = 2,
      isInitiatorMessage = True, requiresAck = True, ackedMessageId = Some 0, hasSecuredExtension = False\<rparr>,
      securityExtension = None, payload = [1, 2, 3]\<rparr> = Inr pk \<and> header pk = () \<and>
    decodePayload \<lparr>sessionId = 5, sessionType = Unicast, hasPrivacyEnhancements = False, isControlMessage = False,
      hasMessageExtensions = False, messageId = 9, sourceNodeId = None, destNodeId = None, destGroupId = None,
      securityFlags = 0\<rparr> (applicationPayload pk) =
      Inr \<lparr>packetHeader = \<lparr>sessionId = 5, sessionType = Unicast, hasPrivacyEnhancements = False, isControlMessage = False,
      hasMessageExtensions = False, messageId = 9, sourceNodeId = None, destNodeId = None, destGroupId = None,
      securityFlags = 0\<rparr>, payloadHeader = \<lparr>exchangeId = 7, protocolId = 65537, messageType = 2,
      isInitiatorMessage = True, requiresAck = True, ackedMessageId = Some 0, hasSecuredExtension = False\<rparr>,
      securityExtension = None, payload = [1, 2, 3]\<rparr>"
  using message_payload_roundtrip [of "\<lparr>packetHeader = (), payloadHeader = \<lparr>exchangeId = 7, protocolId = 65537, messageType = 2,
      isInitiatorMessage = True, requiresAck = True, ackedMessageId = Some 0, hasSecuredExtension = False\<rparr>,
      securityExtension = None, payload = [1, 2, 3]\<rparr>" "\<lparr>sessionId = 5, sessionType = Unicast, hasPrivacyEnhancements = False, isControlMessage = False,
      hasMessageExtensions = False, messageId = 9, sourceNodeId = None, destNodeId = None, destGroupId = None,
      securityFlags = 0\<rparr>"]
  by (simp add: valid_payload_header_def)

text \<open>
  C10: the exact acceptance condition for data messages of a group session.  The check tests the
  acknowledged counter for truth, so a message that acknowledges counter zero passes although it carries an
  acknowledgement.
\<close>

theorem group_payload_acceptance:
  assumes "valid_payload_header ph" "sessionType h = Group" "\<not> isControlMessage h"
  shows "\<exists>hb. encodePayloadHeader ph = Inr hb \<and>
    (is_ok (decodePayload h (hb @ data)) \<longleftrightarrow> \<not> requiresAck ph \<and> (ackedMessageId ph = None \<or> ackedMessageId ph = Some 0))"
  using assms encodePayloadHeader_bytes [OF assms(1)] decodePayload_bytes [OF assms(1), of h data]
  by (auto simp: truthy_num_def is_ok_def)

theorem group_payload_acceptance_witness:
  "\<exists>hb. encodePayloadHeader \<lparr>exchangeId = 7, protocolId = 1, messageType = 2, isInitiatorMessage = True,
      requiresAck = False, ackedMessageId = Some 0, hasSecuredExtension = False\<rparr> = Inr hb \<and>
    is_ok (decodePayload \<lparr>sessionId = 5, sessionType = Group, hasPrivacyEnhancements = False, isControlMessage = False,
      hasMessageExtensions = False, messageId = 9, sourceNodeId = Some 1, destNodeId = None, destGroupId = Some 2,
      securityFlags = 1\<rparr> (hb @ [5]))"
  using group_payload_acceptance [of "\<lparr>exchangeId = 7, protocolId = 1, messageType = 2, isInitiatorMessage = True,
      requiresAck = False, ackedMessageId = Some 0, hasSecuredExtension = False\<rparr>"
      "\<lparr>sessionId = 5, sessionType = Group, hasPrivacyEnhancements = False, isControlMessage = False,
      hasMessageExtensions = False, messageId = 9, sourceNodeId = Some 1, destNodeId = None, destGroupId = Some 2,
      securityFlags = 1\<rparr>" "[5]"]
  by (auto simp: valid_payload_header_def)

end
