(* ===== verification/Secure_Session.thy ===== *)
theory Secure_Session
  imports Message_Codec
begin

text \<open>
  Encryption and decryption of messages: \<open>NodeSession.encode\<close> and \<open>decode\<close> for unicast sessions,
  \<open>GroupSession.encode\<close> and the static \<open>GroupSession.decode\<close>, which tries the candidate keys of all fabrics.
  The cryptographic provider is a parameter: \<open>Crypto\<close> is an abstract class, and every platform registers its own
  implementation, of which the \<open>StandardCrypto\<close> of the sources is one.

  The lemmas show that a receiver recovers the message of a sender over the wire format, with and without
  privacy enhancements, whatever wrong keys it tries first.
\<close>

section \<open>The cryptographic provider\<close>

record crypto =
  encrypt :: "bytes \<Rightarrow> bytes \<Rightarrow> bytes \<Rightarrow> bytes \<Rightarrow> bytes"
  decrypt :: "bytes \<Rightarrow> bytes \<Rightarrow> bytes \<Rightarrow> bytes \<Rightarrow> error + bytes"

text \<open>
  What the abstract class promises of AES-CCM, whichever implementation is registered: decryption under the same key, nonce and
  associated data undoes encryption, the ciphertext is the data followed by the integrity code, and the
  data part is a key stream applied with exclusive or, so that applying it twice is the identity.
\<close>

definition crypto_contract :: "crypto \<Rightarrow> bool" where
  "crypto_contract c \<longleftrightarrow>
    (\<forall>k d n a. decrypt c k (encrypt c k d n a) n a = Inr d) \<and>
    (\<forall>k d n a. length (encrypt c k d n a) = length d + CRYPTO_AEAD_MIC_LENGTH_BYTES) \<and>
    (\<forall>k d n. obfuscate (encrypt c) k (obfuscate (encrypt c) k d n) n = d)"

section \<open>Sessions\<close>

definition generateNonce :: "int \<Rightarrow> int \<Rightarrow> int \<Rightarrow> error + bytes" where
  "generateNonce sflags mid nodeId =
    to_bytes (writeUInt64 nodeId (writeUInt32 mid (writeUInt8 sflags (DataWriter True))))"

text \<open>\<open>Uint8Array.slice(-n)\<close>.\<close>

definition last_bytes :: "nat \<Rightarrow> bytes \<Rightarrow> bytes" where
  "last_bytes n bs = drop (length bs - n) bs"

record node_session =
  ns_peerNodeId :: int
  ns_peerSessionId :: int
  ns_decryptKey :: bytes
  ns_encryptKey :: bytes
  ns_fabricNodeId :: "int option"

definition isPase :: "node_session \<Rightarrow> bool" where
  "isPase s \<longleftrightarrow> ns_peerNodeId s = 0"

definition node_decode :: "crypto \<Rightarrow> node_session \<Rightarrow> DecodedPacket \<Rightarrow> bytes \<Rightarrow> error + DecodedPacketHeader Message" where
  "node_decode c s p aad =
    bindE (generateNonce (securityFlags (header p)) (messageId (header p)) (ns_peerNodeId s)) (\<lambda>nonce.
    bindE (decrypt c (ns_decryptKey s) (applicationPayload p) nonce aad) (\<lambda>plain.
    decodePayload (header p) plain))"

definition with_session_id :: "int \<Rightarrow> PacketHeader Message \<Rightarrow> PacketHeader Message" where
  "with_session_id sid m = m\<lparr>packetHeader := (packetHeader m)\<lparr>sessionId := sid\<rparr>\<rparr>"

definition node_encode :: "crypto \<Rightarrow> node_session \<Rightarrow> PacketHeader Message \<Rightarrow> error + PacketHeader Packet" where
  "node_encode c s m =
    (let m = with_session_id (ns_peerSessionId s) m in
     bindE (encodePayload m) (\<lambda>p.
     bindE (encodePacketHeader (packetHeader m)) (\<lambda>hb.
     let nodeId = (if isPase s then 0 else case ns_fabricNodeId s of None \<Rightarrow> 0 | Some n \<Rightarrow> n) in
     bindE (generateNonce (uint (hb ! 3)) (messageId (header p)) nodeId) (\<lambda>nonce.
     Inr \<lparr>header = header p, messageExtension = None,
       applicationPayload = encrypt c (ns_encryptKey s) (applicationPayload p) nonce hb, headerBytes = None\<rparr>))))"

record group_session =
  gs_id :: int
  gs_nodeId :: int
  gs_operationalGroupKey :: bytes
  gs_operationalPrivacyKey :: "bytes option"

definition group_encode :: "crypto \<Rightarrow> group_session \<Rightarrow> PacketHeader Message \<Rightarrow> error + PacketHeader Packet" where
  "group_encode c s m =
    (let m = with_session_id (gs_id s) m in
     bindE (encodePayload m) (\<lambda>p.
     if destGroupId (header p) = None then Inl UnexpectedDataError
     else
     bindE (encodePacketHeader (packetHeader m)) (\<lambda>hb.
     bindE (generateNonce (uint (hb ! 3)) (messageId (header p)) (gs_nodeId s)) (\<lambda>nonce.
     let ciphertext = encrypt c (gs_operationalGroupKey s) (applicationPayload p) nonce hb in
     if \<not> hasPrivacyEnhancements (packetHeader m) then
       Inr \<lparr>header = header p, messageExtension = None, applicationPayload = ciphertext, headerBytes = None\<rparr>
     else
     case gs_operationalPrivacyKey s of
       None \<Rightarrow> Inl InternalError
     | Some privacyKey \<Rightarrow>
         bindE (buildNonce (sessionId (header p)) (last_bytes CRYPTO_AEAD_MIC_LENGTH_BYTES ciphertext)) (\<lambda>privacyNonce.
         let obfuscated = obfuscate (encrypt c) privacyKey (drop 4 hb) privacyNonce in
         Inr \<lparr>header = header p, messageExtension = None, applicationPayload = ciphertext,
           headerBytes = Some (take 4 hb @ obfuscated)\<rparr>)))))"

section \<open>Decoding with candidate keys\<close>

record group_key =
  gk_keySetId :: int
  gk_key :: bytes
  gk_privacyKey :: "bytes option"

record group_fabric =
  gf_fabricIndex :: int
  gf_sessions :: "int \<Rightarrow> group_key list option"

type_synonym candidate = "group_key \<times> group_fabric"

record group_message =
  gm_message :: "DecodedPacketHeader Message"
  gm_key :: bytes
  gm_privacyKey :: "bytes option"
  gm_sessionId :: int
  gm_sourceNodeId :: int
  gm_keySetId :: int
  gm_fabric :: group_fabric

definition group_candidates :: "group_fabric list \<Rightarrow> int \<Rightarrow> candidate list" where
  "group_candidates fabrics sid =
    concat (map (\<lambda>f. case gf_sessions f sid of None \<Rightarrow> [] | Some ks \<Rightarrow> map (\<lambda>k. (k, f)) ks) fabrics)"

text \<open>
  One turn of the loop over the candidates: \<open>None\<close> where the source skips the candidate with \<open>continue\<close>.
\<close>

definition try_candidate :: "crypto \<Rightarrow> DecodedPacket \<Rightarrow> bytes \<Rightarrow> group_key \<Rightarrow>
    (error + DecodedPacketHeader Message \<times> int) option" where
  "try_candidate c p aad k =
    (let unlock = (\<lambda>h decryptAad.
       case sourceNodeId h of
         None \<Rightarrow> Inl UnexpectedDataError
       | Some src \<Rightarrow>
           bindE (generateNonce (securityFlags h) (messageId h) src) (\<lambda>nonce.
           bindE (decrypt c (gk_key k) (applicationPayload p) nonce decryptAad) (\<lambda>plain.
           bindE (decodePayload h plain) (\<lambda>m. Inr (m, src)))))
     in
     if hasPrivacyEnhancements (header p) then
       case (privacyHeader p, gk_privacyKey k) of
         (Some region, Some privacyKey) \<Rightarrow> Some (
           bindE (buildNonce (sessionId (header p)) (last_bytes CRYPTO_AEAD_MIC_LENGTH_BYTES (applicationPayload p))) (\<lambda>nonce.
           let clear = obfuscate (encrypt c) privacyKey region nonce in
           bindE (decodeObfuscatedHeaderFields (uint (aad ! 0)) clear) (\<lambda>(mid, src, dst, grp).
           unlock ((header p)\<lparr>messageId := mid, sourceNodeId := src, destNodeId := dst, destGroupId := grp\<rparr>)
             (take 4 aad @ clear))))
       | _ \<Rightarrow> None
     else Some (unlock (header p) aad))"

fun try_candidates :: "crypto \<Rightarrow> DecodedPacket \<Rightarrow> bytes \<Rightarrow> candidate list \<Rightarrow> error + group_message" where
  "try_candidates c p aad [] = Inl GroupSessionDecodeError"
| "try_candidates c p aad ((k, f) # ks) =
    (case try_candidate c p aad k of
       None \<Rightarrow> try_candidates c p aad ks
     | Some (Inl e) \<Rightarrow> if e = CryptoDecryptError then try_candidates c p aad ks else Inl e
     | Some (Inr (m, src)) \<Rightarrow>
         Inr \<lparr>gm_message = m, gm_key = gk_key k, gm_privacyKey = gk_privacyKey k, gm_sessionId = sessionId (header p),
           gm_sourceNodeId = src, gm_keySetId = gk_keySetId k, gm_fabric = f\<rparr>)"

definition group_decode :: "crypto \<Rightarrow> group_fabric list \<Rightarrow> DecodedPacket \<Rightarrow> bytes \<Rightarrow> error + group_message" where
  "group_decode c fabrics p aad =
    (let ks = group_candidates fabrics (sessionId (header p)) in
     if ks = [] then Inl GroupSessionNoKeyError else try_candidates c p aad ks)"

text \<open>\<open>ExchangeManager\<close> passes everything before the application payload as associated data.\<close>

definition packet_aad :: "bytes \<Rightarrow> DecodedPacket \<Rightarrow> bytes" where
  "packet_aad data p = take (length data - length (applicationPayload p)) data"

section \<open>Shared facts\<close>

lemma generateNonce_ok: "\<exists>n. generateNonce f m i = Inr n"
  by (simp add: generateNonce_def)

lemma fixed_bytes_parts [simp]:
  "length (fixed_bytes h) = 4" "fixed_bytes h ! 0 = word_of_int (packet_flags h)"
  "fixed_bytes h ! 3 = word_of_int (security_flags h)"
  by (simp_all add: fixed_bytes_def nth_append nth_Cons')

lemma header_bytes_parts [simp]:
  "(fixed_bytes h @ x) ! 0 = word_of_int (packet_flags h)" "(fixed_bytes h @ x) ! 3 = word_of_int (security_flags h)"
  "take 4 (fixed_bytes h @ x) = fixed_bytes h" "drop 4 (fixed_bytes h @ x) = x"
  by (simp_all add: nth_append)

lemma contract_simps:
  assumes "crypto_contract c"
  shows "decrypt c k (encrypt c k d n a) n a = Inr d"
    "length (encrypt c k d n a) = length d + CRYPTO_AEAD_MIC_LENGTH_BYTES"
    "obfuscate (encrypt c) k (obfuscate (encrypt c) k d n) n = d"
    "length (obfuscate (encrypt c) k d n) = length d"
  using assms by (simp_all add: crypto_contract_def) (simp add: obfuscate_def)

lemma last_bytes_length: "n \<le> length bs \<Longrightarrow> length (last_bytes n bs) = n"
  by (simp add: last_bytes_def)

lemma buildNonce_ok: "length mic = CRYPTO_AEAD_MIC_LENGTH_BYTES \<Longrightarrow> \<exists>n. buildNonce sid mic = Inr n"
  by (simp add: buildNonce_def)

section \<open>What travels on the wire\<close>

text \<open>The pieces of an encoded group message, for a valid header \<open>h\<close> that names the sender as source.\<close>

definition sealed_payload :: "crypto \<Rightarrow> bytes \<Rightarrow> int \<Rightarrow> PacketHeader \<Rightarrow> bytes \<Rightarrow> bytes" where
  "sealed_payload c key nodeId h plain =
    encrypt c key plain (projr (generateNonce (security_flags h) (messageId h) nodeId)) (fixed_bytes h @ region_bytes h)"

definition plain_payload :: "'h Message \<Rightarrow> bytes" where
  "plain_payload m = payload_header_bytes (payloadHeader m) @ payload m"

lemma encodePayload_plain:
  "valid_payload_header (payloadHeader m) \<Longrightarrow> securityExtension m = None \<Longrightarrow>
    encodePayload m = Inr \<lparr>header = packetHeader m, messageExtension = None, applicationPayload = plain_payload m,
      headerBytes = None\<rparr>"
  by (simp add: encodePayload_def encodePayloadHeader_bytes plain_payload_def valid_payload_header_def)

lemma with_session_id_simps [simp]:
  "packetHeader (with_session_id sid m) = (packetHeader m)\<lparr>sessionId := sid\<rparr>"
  "payloadHeader (with_session_id sid m) = payloadHeader m" "payload (with_session_id sid m) = payload m"
  "securityExtension (with_session_id sid m) = securityExtension m"
  "plain_payload (with_session_id sid m) = plain_payload m"
  by (simp_all add: with_session_id_def plain_payload_def)

definition privacy_nonce :: "int \<Rightarrow> bytes \<Rightarrow> bytes" where
  "privacy_nonce sid ct = projr (buildNonce sid (last_bytes CRYPTO_AEAD_MIC_LENGTH_BYTES ct))"

lemma buildNonce_sealed:
  "CRYPTO_AEAD_MIC_LENGTH_BYTES \<le> length ct \<Longrightarrow>
    buildNonce sid (last_bytes CRYPTO_AEAD_MIC_LENGTH_BYTES ct) = Inr (privacy_nonce sid ct)"
  using buildNonce_ok [OF last_bytes_length] unfolding privacy_nonce_def by (metis sum.sel(2))

lemma group_encode_form:
  fixes m :: "PacketHeader Message"
  assumes "crypto_contract c" "valid_payload_header (payloadHeader m)" "securityExtension m = None"
    and h: "h = (packetHeader m)\<lparr>sessionId := gs_id s\<rparr>" "valid_packet_header h" "sessionType h = Group"
    and "hasPrivacyEnhancements h \<Longrightarrow> gs_operationalPrivacyKey s = Some pk"
  defines "ct \<equiv> sealed_payload c (gs_operationalGroupKey s) (gs_nodeId s) h (plain_payload m)"
  shows "group_encode c s m = Inr \<lparr>header = h, messageExtension = None, applicationPayload = ct,
      headerBytes = (if hasPrivacyEnhancements h
        then Some (fixed_bytes h @ obfuscate (encrypt c) pk (region_bytes h) (privacy_nonce (sessionId h) ct)) else None)\<rparr>"
proof -
  have g: "destGroupId h \<noteq> None" using valid_header_addresses(3) [OF h(2,3)] by simp
  have e: "encodePayload (with_session_id (gs_id s) m) = Inr \<lparr>header = h, messageExtension = None,
      applicationPayload = plain_payload m, headerBytes = None\<rparr>"
    using encodePayload_plain [of "with_session_id (gs_id s) m"] assms(2,3) h(1) by simp
  obtain n where n: "generateNonce (security_flags h) (messageId h) (gs_nodeId s) = Inr n" using generateNonce_ok by blast
  have ct: "encrypt c (gs_operationalGroupKey s) (plain_payload m) n (fixed_bytes h @ region_bytes h) = ct"
    by (simp add: ct_def sealed_payload_def n)
  have ph: "packetHeader (with_session_id (gs_id s) m) = h" by (simp add: h(1))
  have "CRYPTO_AEAD_MIC_LENGTH_BYTES \<le> length ct"
    using contract_simps(2) [OF assms(1)] by (simp add: ct_def sealed_payload_def)
  note b = buildNonce_sealed [OF this]
  show ?thesis
    unfolding group_encode_def Let_def e ph
    using g assms(7) encodePacketHeader_bytes [OF h(2)]
    by (simp add: n ct b)
qed

text \<open>The receiver's view of these bytes.\<close>

definition wire_bytes :: "crypto \<Rightarrow> bytes \<Rightarrow> PacketHeader \<Rightarrow> bytes \<Rightarrow> bytes" where
  "wire_bytes c pk h ct = fixed_bytes h @
    (if hasPrivacyEnhancements h then obfuscate (encrypt c) pk (region_bytes h) (privacy_nonce (sessionId h) ct)
     else region_bytes h) @ ct"

definition received_packet :: "crypto \<Rightarrow> bytes \<Rightarrow> PacketHeader \<Rightarrow> bytes \<Rightarrow> DecodedPacket" where
  "received_packet c pk h ct =
    (if hasPrivacyEnhancements h then
       \<lparr>header = (decoded_header h)\<lparr>messageId := 0, sourceNodeId := None, destNodeId := None, destGroupId := None\<rparr>,
         messageExtension = None, applicationPayload = ct, headerBytes = None,
         privacyHeader = Some (obfuscate (encrypt c) pk (region_bytes h) (privacy_nonce (sessionId h) ct))\<rparr>
     else \<lparr>header = decoded_header h, messageExtension = None, applicationPayload = ct, headerBytes = None,
         privacyHeader = None\<rparr>)"

lemma received_packet_simps [simp]:
  "applicationPayload (received_packet c pk h ct) = ct"
  "sessionId (header (received_packet c pk h ct)) = sessionId h"
  "hasPrivacyEnhancements (header (received_packet c pk h ct)) = hasPrivacyEnhancements h"
  by (simp_all add: received_packet_def decoded_header_def)

lemma decodePacket_wire:
  assumes "crypto_contract c" "valid_packet_header h" "CRYPTO_AEAD_MIC_LENGTH_BYTES \<le> length ct"
  shows "decodePacket (wire_bytes c pk h ct) = Inr (received_packet c pk h ct)"
proof (cases "hasPrivacyEnhancements h")
  case True
  have "int (length (obfuscate (encrypt c) pk (region_bytes h) n)) = privacy_header_length (packet_flags h)" for n
    using contract_simps(4) [OF assms(1)] length_region_bytes [OF assms(2)] by simp
  from decodeFixedHeader_private [OF assms(2) True this]
  show ?thesis using True assms(3)
    by (simp add: decodePacket_def wire_bytes_def received_packet_def decoded_header_def)
next
  case False
  then show ?thesis using decodePacket_plain [OF assms(2) False] by (simp add: wire_bytes_def received_packet_def)
qed

lemma wire_aad:
  "packet_aad (wire_bytes c pk h ct) (received_packet c pk h ct) = fixed_bytes h @
    (if hasPrivacyEnhancements h then obfuscate (encrypt c) pk (region_bytes h) (privacy_nonce (sessionId h) ct)
     else region_bytes h)"
  by (simp add: packet_aad_def wire_bytes_def)

text \<open>The key the message was sealed with opens it.\<close>

lemma try_right_candidate:
  fixes m :: "'h Message"
  assumes c: "crypto_contract c" and h: "valid_packet_header h" "sessionType h = Group" "sourceNodeId h = Some src"
    and m: "valid_payload_header (payloadHeader m)" "\<not> requiresAck (payloadHeader m)" "ackedMessageId (payloadHeader m) = None"
    and k: "hasPrivacyEnhancements h \<Longrightarrow> gk_privacyKey k = Some pk"
  defines "ct \<equiv> sealed_payload c (gk_key k) src h (plain_payload m)"
  defines "p \<equiv> received_packet c pk h ct"
  shows "try_candidate c p (packet_aad (wire_bytes c pk h ct) p) k =
    Some (Inr (\<lparr>packetHeader = decoded_header h, payloadHeader = payloadHeader m, securityExtension = None,
      payload = payload m\<rparr>, src))"
proof -
  obtain n where n: "generateNonce (security_flags h) (messageId h) src = Inr n" using generateNonce_ok by blast
  have open_ct: "decrypt c (gk_key k) ct n (fixed_bytes h @ region_bytes h) = Inr (plain_payload m)"
    using contract_simps(1) [OF c] by (simp add: ct_def sealed_payload_def n)
  have "CRYPTO_AEAD_MIC_LENGTH_BYTES \<le> length ct"
    using contract_simps(2) [OF c] by (simp add: ct_def sealed_payload_def)
  note b = buildNonce_sealed [OF this]
  have dec: "decodePayload (decoded_header h) (plain_payload m) = Inr \<lparr>packetHeader = decoded_header h,
      payloadHeader = payloadHeader m, securityExtension = None, payload = payload m\<rparr>"
    using decodePayload_bytes [OF m(1)] m by (simp add: plain_payload_def truthy_num_def)
  have dh: "sourceNodeId (decoded_header h) = Some src" "securityFlags (decoded_header h) = security_flags h"
    "messageId (decoded_header h) = messageId h"
    using h(3) by (simp_all add: decoded_header_def)
  have restore: "(header p)\<lparr>messageId := messageId h, sourceNodeId := Some src,
      destNodeId := destNodeId h, destGroupId := destGroupId h\<rparr> = decoded_header h"
    using h(3) by (simp add: p_def received_packet_def decoded_header_def)
  have p: "applicationPayload p = ct" "sessionId (header p) = sessionId h"
    "hasPrivacyEnhancements (header p) = hasPrivacyEnhancements h" by (simp_all add: p_def)
  show ?thesis
  proof (cases "hasPrivacyEnhancements h")
    case True
    have r: "privacyHeader p = Some (obfuscate (encrypt c) pk (region_bytes h) (privacy_nonce (sessionId h) ct))"
      using True by (simp add: p_def received_packet_def)
    show ?thesis
      unfolding try_candidate_def p r using True k [OF True] b open_ct dec n decodeObfuscated_region [OF h(1)] h(3)
      by (simp add: p_def [symmetric] wire_aad [of c pk h ct, folded p_def] contract_simps(3) [OF c] restore dh)
  next
    case False
    have hp: "header p = decoded_header h" using False by (simp add: p_def received_packet_def)
    show ?thesis
      unfolding try_candidate_def p using False open_ct dec n
      by (simp add: hp dh wire_aad [of c pk h ct, folded p_def])
  qed
qed

text \<open>A key that fails to decrypt is passed over, whatever its privacy key makes of the hidden header.\<close>

lemma decodeObfuscated_total:
  assumes "valid_packet_header h" "sessionType h = Group" "length region = length (region_bytes h)"
  shows "\<exists>mid src dst grp. decodeObfuscatedHeaderFields (packet_flags h) region = Inr (mid, Some src, dst, grp)"
proof -
  have f: "destNodeId h = None" "destGroupId h \<noteq> None" "sourceNodeId h \<noteq> None"
    using assms(1,2) by (auto simp: valid_packet_header_def)
  then have l: "length region = 14" using assms(3) by (auto simp: region_bytes_def)
  have "privacy_header_length (packet_flags h) = 14" using length_region_bytes [OF assms(1)] assms(3) l by simp
  moreover have "0 \<le> le_value (take 2 (drop 12 region))" "le_value (take 2 (drop 12 region)) < 65536"
    using le_value_take [of 2 "drop 12 region"] l by simp_all
  ultimately show ?thesis using f l
    by (simp add: decodeObfuscatedHeaderFields_def read_header_fields_def DataReader_at read_at read_if_def optE_def GroupId_def)
qed

text \<open>The nonce and the associated data that a candidate key leads the receiver to, if it gets so far.\<close>

definition opening_inputs :: "crypto \<Rightarrow> DecodedPacket \<Rightarrow> bytes \<Rightarrow> group_key \<Rightarrow> (bytes \<times> bytes) option" where
  "opening_inputs c p aad k =
    (let inputs = (\<lambda>mid src a. case src of
         None \<Rightarrow> None
       | Some src \<Rightarrow> (case generateNonce (securityFlags (header p)) mid src of Inl _ \<Rightarrow> None | Inr n \<Rightarrow> Some (n, a)))
     in
     if hasPrivacyEnhancements (header p) then
       case (privacyHeader p, gk_privacyKey k) of
         (Some region, Some privacyKey) \<Rightarrow>
           (case buildNonce (sessionId (header p)) (last_bytes CRYPTO_AEAD_MIC_LENGTH_BYTES (applicationPayload p)) of
              Inl _ \<Rightarrow> None
            | Inr nonce \<Rightarrow>
                let clear = obfuscate (encrypt c) privacyKey region nonce in
                case decodeObfuscatedHeaderFields (uint (aad ! 0)) clear of
                  Inl _ \<Rightarrow> None
                | Inr (mid, src, _, _) \<Rightarrow> inputs mid src (take 4 aad @ clear))
       | _ \<Rightarrow> None
     else inputs (messageId (header p)) (sourceNodeId (header p)) aad)"

definition wrong_key :: "crypto \<Rightarrow> DecodedPacket \<Rightarrow> bytes \<Rightarrow> group_key \<Rightarrow> bool" where
  "wrong_key c p aad k \<longleftrightarrow> (case opening_inputs c p aad k of
      None \<Rightarrow> True
    | Some (n, a) \<Rightarrow> decrypt c (gk_key k) (applicationPayload p) n a = Inl CryptoDecryptError)"

lemma try_wrong_candidate:
  assumes c: "crypto_contract c" and h: "valid_packet_header h" "sessionType h = Group"
    and ct: "CRYPTO_AEAD_MIC_LENGTH_BYTES \<le> length ct"
      "wrong_key c (received_packet c pk h ct) (packet_aad (wire_bytes c pk h ct) (received_packet c pk h ct)) k"
  shows "try_candidate c (received_packet c pk h ct) (packet_aad (wire_bytes c pk h ct) (received_packet c pk h ct)) k
    \<in> {None, Some (Inl CryptoDecryptError)}"
proof -
  define p where "p = received_packet c pk h ct"
  define aad where "aad = packet_aad (wire_bytes c pk h ct) p"
  have p: "applicationPayload p = ct" "sessionId (header p) = sessionId h"
    "hasPrivacyEnhancements (header p) = hasPrivacyEnhancements h" by (simp_all add: p_def)
  have w: "wrong_key c p aad k" using ct(2) by (simp add: p_def aad_def)
  show ?thesis
  proof (cases "hasPrivacyEnhancements h")
    case True
    define x where "x = obfuscate (encrypt c) pk (region_bytes h) (privacy_nonce (sessionId h) ct)"
    have r: "privacyHeader p = Some x" using True by (simp add: p_def received_packet_def x_def)
    have "length (obfuscate (encrypt c) q x n) = length (region_bytes h)" for q n
      by (simp add: x_def contract_simps(4) [OF c])
    note t = decodeObfuscated_total [OF h this]
    show ?thesis
    proof (cases "gk_privacyKey k")
      case (Some q)
      define clear where "clear = obfuscate (encrypt c) q x (privacy_nonce (sessionId h) ct)"
      obtain mid src dst grp where d: "decodeObfuscatedHeaderFields (packet_flags h) clear = Inr (mid, Some src, dst, grp)"
        using t unfolding clear_def by blast
      have f: "uint (aad ! 0) = packet_flags h" by (simp add: aad_def wire_aad [of c pk h ct, folded p_def])
      obtain n where n: "generateNonce (securityFlags (header p)) mid src = Inr n" using generateNonce_ok by blast
      have "decrypt c (gk_key k) ct n (take 4 aad @ clear) = Inl CryptoDecryptError"
        using w True d n buildNonce_sealed [OF ct(1)]
        by (simp add: wrong_key_def opening_inputs_def p r Some f clear_def [symmetric] Let_def)
      then show ?thesis
        unfolding p_def [symmetric] aad_def [symmetric] try_candidate_def Let_def p r Some
        using True d n buildNonce_sealed [OF ct(1)] by (simp add: f clear_def [symmetric])
    qed (simp add: try_candidate_def p_def [symmetric] p r True)
  next
    case False
    have hp: "header p = decoded_header h" using False by (simp add: p_def received_packet_def)
    obtain src where src: "sourceNodeId (decoded_header h) = Some src"
      using valid_header_addresses(3) [OF h] by (auto simp: decoded_header_def)
    obtain n where n: "generateNonce (securityFlags (decoded_header h)) (messageId (decoded_header h)) src = Inr n"
      using generateNonce_ok by blast
    have "decrypt c (gk_key k) ct n aad = Inl CryptoDecryptError"
      using w False src n p(3) by (simp add: wrong_key_def opening_inputs_def p(1) hp)
    then show ?thesis
      unfolding p_def [symmetric] aad_def [symmetric] try_candidate_def Let_def p using False by (simp add: hp src n)
  qed
qed

lemma try_candidates_skip:
  assumes "\<forall>(k, f) \<in> set pre. try_candidate c p aad k \<in> {None, Some (Inl CryptoDecryptError)}"
  shows "try_candidates c p aad (pre @ ks) = try_candidates c p aad ks"
  using assms by (induction pre) (auto split: option.splits sum.splits)

section \<open>Properties\<close>

text \<open>
  C1: a group message sealed by \<open>GroupSession.encode\<close>, put on the wire by \<open>encodePacket\<close>, received with
  \<open>decodePacket\<close> and opened by \<open>GroupSession.decode\<close> is the message that was sent, with and without privacy
  enhancements.  The receiver may hold any number of keys of any fabric for the same session id: those that
  fail to decrypt with the nonce and the associated data they lead to are passed over, and the first that opens
  the message is reported.
\<close>

theorem group_message_roundtrip:
  fixes m :: "PacketHeader Message"
  assumes "crypto_contract c"
    and "valid_packet_header h" "h = (packetHeader m)\<lparr>sessionId := gs_id s\<rparr>" "sessionType h = Group"
    and "sourceNodeId h = Some (gs_nodeId s)"
    and "valid_payload_header (payloadHeader m)" "securityExtension m = None"
    and "\<not> requiresAck (payloadHeader m)" "ackedMessageId (payloadHeader m) = None"
    and "gs_operationalPrivacyKey s = Some pk"
    and "group_candidates fabrics (gs_id s) = pre @ (k, f) # post"
    and "gk_key k = gs_operationalGroupKey s" "gk_privacyKey k = Some pk"
    and "ct = sealed_payload c (gs_operationalGroupKey s) (gs_nodeId s) h (plain_payload m)" "p = received_packet c pk h ct"
    and "\<forall>(k', f') \<in> set pre. wrong_key c p (packet_aad (wire_bytes c pk h ct) p) k'"
  shows "\<exists>packet data received result.
    group_encode c s m = Inr packet \<and> encodePacket packet = Inr data \<and> decodePacket data = Inr received \<and>
    group_decode c fabrics received (packet_aad data received) = Inr result \<and>
    gm_message result = \<lparr>packetHeader = decoded_header h, payloadHeader = payloadHeader m,
      securityExtension = None, payload = payload m\<rparr> \<and>
    gm_sourceNodeId result = gs_nodeId s \<and> gm_keySetId result = gk_keySetId k \<and> gm_fabric result = f"
proof -
  note ct_def = assms(14) and p_def = assms(15)
  define data where "data = wire_bytes c pk h ct"
  have len: "CRYPTO_AEAD_MIC_LENGTH_BYTES \<le> length ct"
    using contract_simps(2) [OF assms(1)] by (simp add: ct_def sealed_payload_def)
  note enc = group_encode_form [OF assms(1,6,7,3,2,4) assms(10), folded ct_def]
  have "encodePacketHeader h = Inr (fixed_bytes h @ region_bytes h)" using encodePacketHeader_bytes assms(2) .
  then have wire: "bindE (group_encode c s m) encodePacket = Inr data"
    using assms(2) by (simp add: enc encodePacket_def data_def wire_bytes_def valid_packet_header_def)
  have rcv: "decodePacket data = Inr p" using decodePacket_wire [OF assms(1,2) len] by (simp add: data_def p_def)
  have right: "try_candidate c p (packet_aad data p) k = Some (Inr (\<lparr>packetHeader = decoded_header h,
      payloadHeader = payloadHeader m, securityExtension = None, payload = payload m\<rparr>, gs_nodeId s))"
    using try_right_candidate [OF assms(1,2,4,5,6,8,9,13)] by (simp add: p_def data_def ct_def assms(12))
  have "\<forall>(k', f') \<in> set pre. try_candidate c p (packet_aad data p) k' \<in> {None, Some (Inl CryptoDecryptError)}"
    using try_wrong_candidate [OF assms(1,2,4) len] assms(16) unfolding p_def data_def by blast
  note skip = try_candidates_skip [OF this]
  have sid: "sessionId (header p) = gs_id s" by (simp add: p_def assms(3))
  show ?thesis
    using wire rcv
    by (auto simp: bindE_eq_Inr_iff group_decode_def sid assms(11) skip right)
qed

text \<open>A provider that satisfies the contract, to evaluate the properties on.\<close>

definition sample_mic :: "bytes \<Rightarrow> bytes" where
  "sample_mic k = take 16 (k @ replicate 16 0)"

definition sample_crypto :: crypto where
  "sample_crypto = \<lparr>encrypt = (\<lambda>k d n a. d @ sample_mic k),
    decrypt = (\<lambda>k ct n a. if 16 \<le> length ct \<and> last_bytes 16 ct = sample_mic k
      then Inr (take (length ct - 16) ct) else Inl CryptoDecryptError)\<rparr>"

lemma length_sample_mic [simp]: "length (sample_mic k) = 16"
  by (simp add: sample_mic_def min_def)

lemma sample_crypto_contract: "crypto_contract sample_crypto"
  by (simp add: crypto_contract_def sample_crypto_def obfuscate_def last_bytes_def CRYPTO_AEAD_MIC_LENGTH_BYTES_def)

definition sample_header :: "SessionType \<Rightarrow> bool \<Rightarrow> PacketHeader" where
  "sample_header st privacy = \<lparr>sessionId = 5, sessionType = st, hasPrivacyEnhancements = privacy, isControlMessage = False,
    hasMessageExtensions = False, messageId = 9, sourceNodeId = Some 77, destNodeId = None,
    destGroupId = (if st = Group then Some 3 else None)\<rparr>"

definition sample_message :: "SessionType \<Rightarrow> bool \<Rightarrow> PacketHeader Message" where
  "sample_message st privacy = \<lparr>packetHeader = sample_header st privacy, payloadHeader = \<lparr>exchangeId = 7, protocolId = 1, messageType = 2,
    isInitiatorMessage = True, requiresAck = False, ackedMessageId = None, hasSecuredExtension = False\<rparr>,
    securityExtension = None, payload = [1, 2, 3]\<rparr>"

definition sample_sender :: group_session where
  "sample_sender = \<lparr>gs_id = 5, gs_nodeId = 77, gs_operationalGroupKey = [8], gs_operationalPrivacyKey = Some [9]\<rparr>"

definition sample_keys :: "group_key list" where
  "sample_keys = [\<lparr>gk_keySetId = 1, gk_key = [7], gk_privacyKey = Some [6]\<rparr>, \<lparr>gk_keySetId = 2, gk_key = [8], gk_privacyKey = Some [9]\<rparr>]"

definition sample_fabric :: group_fabric where
  "sample_fabric = \<lparr>gf_fabricIndex = 1, gf_sessions = [5 \<mapsto> sample_keys]\<rparr>"

lemma sample_wrong_key:
  "wrong_key sample_crypto (received_packet sample_crypto pk h (sealed_payload sample_crypto [8] 77 h' d)) aad
    \<lparr>gk_keySetId = 1, gk_key = [7], gk_privacyKey = Some [6]\<rparr>"
  by (simp add: wrong_key_def sealed_payload_def sample_crypto_def sample_mic_def last_bytes_def numeral_eq_Suc
      split: option.splits prod.splits)

theorem group_message_roundtrip_witness:
  "\<exists>packet data received result.
    group_encode sample_crypto sample_sender (sample_message Group True) = Inr packet \<and> encodePacket packet = Inr data \<and>
    decodePacket data = Inr received \<and>
    group_decode sample_crypto [sample_fabric] received (packet_aad data received) = Inr result \<and>
    gm_message result = \<lparr>packetHeader = decoded_header (sample_header Group True),
      payloadHeader = payloadHeader (sample_message Group True), securityExtension = None, payload = [1, 2, 3]\<rparr> \<and>
    gm_sourceNodeId result = 77 \<and> gm_keySetId result = 2 \<and> gm_fabric result = sample_fabric"
  using group_message_roundtrip [where c = sample_crypto and h = "sample_header Group True" and m = "sample_message Group True"
      and s = sample_sender and pk = "[9]" and fabrics = "[sample_fabric]" and pre = "[(sample_keys ! 0, sample_fabric)]"
      and k = "sample_keys ! 1" and f = sample_fabric and post = "[]"]
    sample_wrong_key
  by (simp add: sample_crypto_contract valid_packet_header_def valid_payload_header_def sample_header_def sample_message_def
      sample_sender_def group_candidates_def sample_fabric_def sample_keys_def)

text \<open>
  C2: a unicast message sealed by \<open>NodeSession.encode\<close> and put on the wire is opened by the session at the
  other end to the message that was sent, when that session holds the same key and knows the sender
  under the node id the sender's nonce is built from: no node id before commissioning, the fabric's afterwards.
\<close>

theorem node_message_roundtrip:
  fixes m :: "PacketHeader Message"
  assumes "crypto_contract c"
    and "valid_packet_header h" "h = (packetHeader m)\<lparr>sessionId := ns_peerSessionId s\<rparr>" "sessionType h = Unicast"
    and "\<not> hasPrivacyEnhancements h"
    and "valid_payload_header (payloadHeader m)" "securityExtension m = None"
    and "ns_decryptKey r = ns_encryptKey s"
    and "ns_peerNodeId r = (if isPase s then 0 else case ns_fabricNodeId s of None \<Rightarrow> 0 | Some n \<Rightarrow> n)"
  shows "\<exists>packet data received.
    node_encode c s m = Inr packet \<and> encodePacket packet = Inr data \<and> decodePacket data = Inr received \<and>
    node_decode c r received (packet_aad data received) =
      Inr \<lparr>packetHeader = decoded_header h, payloadHeader = payloadHeader m, securityExtension = None, payload = payload m\<rparr>"
proof -
  obtain n where n: "generateNonce (security_flags h) (messageId h) (ns_peerNodeId r) = Inr n" using generateNonce_ok by blast
  define ct where "ct = encrypt c (ns_encryptKey s) (plain_payload m) n (fixed_bytes h @ region_bytes h)"
  have ph: "packetHeader (with_session_id (ns_peerSessionId s) m) = h" by (simp add: assms(3))
  have e: "encodePayload (with_session_id (ns_peerSessionId s) m) = Inr \<lparr>header = h, messageExtension = None,
      applicationPayload = plain_payload m, headerBytes = None\<rparr>"
    using encodePayload_plain [of "with_session_id (ns_peerSessionId s) m"] assms(3,6,7) by simp
  note hb = encodePacketHeader_bytes [OF assms(2)]
  have enc: "node_encode c s m = Inr \<lparr>header = h, messageExtension = None, applicationPayload = ct, headerBytes = None\<rparr>"
    unfolding node_encode_def Let_def e ph using n by (simp add: hb assms(9) ct_def)
  have aad: "take (length (fixed_bytes h @ region_bytes h @ ct) - length ct) (fixed_bytes h @ region_bytes h @ ct) =
      fixed_bytes h @ region_bytes h" by simp
  have pay: "decodePayload (decoded_header h) (plain_payload m) =
      Inr \<lparr>packetHeader = decoded_header h, payloadHeader = payloadHeader m, securityExtension = None, payload = payload m\<rparr>"
    using decodePayload_bytes [OF assms(6)] assms(4) by (simp add: plain_payload_def decoded_header_def)
  show ?thesis
    using assms(2) n pay decodePacket_plain [OF assms(2,5), of ct] contract_simps(1) [OF assms(1)]
    by (simp add: enc encodePacket_def hb valid_packet_header_def node_decode_def packet_aad_def
        decoded_header_def assms(8) ct_def)
qed

theorem node_message_roundtrip_witness:
  "\<exists>packet data received.
    node_encode sample_crypto \<lparr>ns_peerNodeId = 33, ns_peerSessionId = 5, ns_decryptKey = [1], ns_encryptKey = [2], ns_fabricNodeId = Some 77\<rparr>
      (sample_message Unicast False) = Inr packet \<and> encodePacket packet = Inr data \<and> decodePacket data = Inr received \<and>
    node_decode sample_crypto \<lparr>ns_peerNodeId = 77, ns_peerSessionId = 6, ns_decryptKey = [2], ns_encryptKey = [1], ns_fabricNodeId = Some 33\<rparr>
      received (packet_aad data received) =
      Inr \<lparr>packetHeader = decoded_header (sample_header Unicast False), payloadHeader = payloadHeader (sample_message Unicast False),
        securityExtension = None, payload = [1, 2, 3]\<rparr>"
  using node_message_roundtrip [where c = sample_crypto and h = "sample_header Unicast False" and m = "sample_message Unicast False"
      and s = "\<lparr>ns_peerNodeId = 33, ns_peerSessionId = 5, ns_decryptKey = [1], ns_encryptKey = [2], ns_fabricNodeId = Some 77\<rparr>"
      and r = "\<lparr>ns_peerNodeId = 77, ns_peerSessionId = 6, ns_decryptKey = [2], ns_encryptKey = [1], ns_fabricNodeId = Some 33\<rparr>"]
  by (simp add: sample_crypto_contract valid_packet_header_def valid_payload_header_def sample_header_def sample_message_def isPase_def)

end
