(* ===== verification/Reception_State.thy ===== *)
theory Reception_State
  imports Prelude
begin

text \<open>
  Duplicate detection for received messages (\<open>MessageReceptionState.ts\<close>): the highest counter seen and a
  bitmap of the 32 counters below it.  The base class and its two subclasses share the update and
  differ in how they compare counters and in the first bitmap, which are the parameters of the update here.

  The lemmas show that the bitmap implements a set of seen positions on the unbounded line of a sender's
  counters: a position is accepted exactly when it is fresh and not behind the window.
\<close>

section \<open>The classes\<close>

record reception =
  maximumMessageCounter :: "int option"
  messageCounterBitmap :: int

type_synonym counter_diff = "int option \<Rightarrow> int \<Rightarrow> int"

abbreviation (input) MAX_COUNTER_VALUE_32BIT :: int where "MAX_COUNTER_VALUE_32BIT \<equiv> 0xffffffff"
abbreviation (input) MSG_COUNTER_WINDOW_SIZE :: int where "MSG_COUNTER_WINDOW_SIZE \<equiv> 32"
abbreviation (input) MAX_COUNTER_INCREASE_2POW31 :: int where "MAX_COUNTER_INCREASE_2POW31 \<equiv> 2147483648"

definition initialize :: "int \<Rightarrow> int \<Rightarrow> reception \<Rightarrow> reception" where
  "initialize initialBitmap messageCounter s =
    s\<lparr>maximumMessageCounter := Some messageCounter, messageCounterBitmap := initialBitmap\<rparr>"

definition new_reception :: "int \<Rightarrow> int option \<Rightarrow> reception" where
  "new_reception initialBitmap messageCounter =
    (let s = \<lparr>maximumMessageCounter = None, messageCounterBitmap = initialBitmap\<rparr> in
     case messageCounter of None \<Rightarrow> s | Some c \<Rightarrow> initialize initialBitmap c s)"

definition calculateMessageCounterBitmap :: "int \<Rightarrow> int \<Rightarrow> int" where
  "calculateMessageCounterBitmap bitmap diff =
    to_uint32
      (if diff < 0 then js_or bitmap (js_shl 1 (- diff - 1))
       else if diff > 0 then
         if diff \<le> MSG_COUNTER_WINDOW_SIZE then
           let shifted = (if diff < MSG_COUNTER_WINDOW_SIZE then js_ushr (js_shl bitmap diff) 0 else 0)
           in js_or shifted (js_shl 1 (diff - 1))
         else 0
       else bitmap)"

definition updateMessageCounterAndBitmap :: "int \<Rightarrow> int \<Rightarrow> int \<Rightarrow> reception \<Rightarrow> reception" where
  "updateMessageCounterAndBitmap initialBitmap messageCounter diff s =
    (case maximumMessageCounter s of
       None \<Rightarrow> initialize initialBitmap messageCounter s
     | Some _ \<Rightarrow>
         let s = s\<lparr>messageCounterBitmap := calculateMessageCounterBitmap (messageCounterBitmap s) diff\<rparr>
         in if diff > 0 then s\<lparr>maximumMessageCounter := Some messageCounter\<rparr> else s)"

definition isCounterKnownInBitmap :: "int \<Rightarrow> reception \<Rightarrow> bool" where
  "isCounterKnownInBitmap diff s \<longleftrightarrow> js_and (messageCounterBitmap s) (js_shl 1 (- diff - 1)) \<noteq> 0"

definition updateMessageCounter :: "counter_diff \<Rightarrow> int \<Rightarrow> int \<Rightarrow> reception \<Rightarrow> error + reception" where
  "updateMessageCounter calculateDiff initialBitmap messageCounter s =
    (if messageCounter < 0 \<or> messageCounter > MAX_COUNTER_VALUE_32BIT then Inl InternalError
     else case maximumMessageCounter s of
       None \<Rightarrow> Inr (updateMessageCounterAndBitmap initialBitmap messageCounter 0 s)
     | Some m \<Rightarrow>
         if messageCounter = m then Inl DuplicateMessageError
         else
           let diff = calculateDiff (maximumMessageCounter s) messageCounter in
           if diff < 0 \<and> diff < - MSG_COUNTER_WINDOW_SIZE then Inl DuplicateMessageError
           else if diff < 0 \<and> isCounterKnownInBitmap diff s then Inl DuplicateMessageError
           else Inr (updateMessageCounterAndBitmap initialBitmap messageCounter diff s))"

text \<open>\<open>MessageReceptionStateEncryptedWithoutRollover\<close>\<close>

definition calculateDiff_plain :: counter_diff where
  "calculateDiff_plain maximum messageCounter = (case maximum of None \<Rightarrow> 0 | Some m \<Rightarrow> messageCounter - m)"

definition initialBitmap_encrypted :: int where
  "initialBitmap_encrypted = 0xffffffff"

text \<open>\<open>MessageReceptionStateEncryptedWithRollover\<close>\<close>

definition calculateDiff_rollover :: counter_diff where
  "calculateDiff_rollover maximum messageCounter = (case maximum of None \<Rightarrow> 0 | Some m \<Rightarrow>
    let diff = messageCounter - m in
    if diff > 0 then
      if diff < MAX_COUNTER_INCREASE_2POW31 then diff else diff - MAX_COUNTER_VALUE_32BIT - 1
    else if diff < 0 then
      if diff \<ge> - MAX_COUNTER_INCREASE_2POW31 then diff else diff + MAX_COUNTER_VALUE_32BIT + 1
    else 0)"

text \<open>\<open>MessageReceptionStateUnencryptedWithRollover\<close>\<close>

definition calculateDiff_unencrypted :: counter_diff where
  "calculateDiff_unencrypted maximum messageCounter = (case maximum of None \<Rightarrow> 0 | Some m \<Rightarrow>
    let diff = messageCounter - m in
    if diff > 0 then
      if - diff + MAX_COUNTER_VALUE_32BIT < MSG_COUNTER_WINDOW_SIZE then diff - MAX_COUNTER_VALUE_32BIT - 1 else diff
    else if diff < 0 then
      if diff < - MSG_COUNTER_WINDOW_SIZE then MAX_COUNTER_VALUE_32BIT + 1 + diff else diff
    else 0)"

definition initialBitmap_unencrypted :: int where
  "initialBitmap_unencrypted = 0"

section \<open>The bitmap\<close>

lemma bit_to_uint32: "bit (to_uint32 x) n \<longleftrightarrow> n < 32 \<and> bit x n"
  by (simp add: to_uint32_def bit_take_bit_iff)

lemma bit_to_int32: "bit (to_int32 x) n \<longleftrightarrow> bit x (min 31 n)"
  by (simp add: to_int32_def bit_signed_take_bit_iff)

lemma bit_one_shl: "0 \<le> k \<Longrightarrow> k < 32 \<Longrightarrow> bit (js_shl 1 k) n \<longleftrightarrow> min 31 n = nat k"
  by (auto simp: js_shl_def bit_to_int32 to_int32_id push_bit_eq_mult bit_exp_iff)

lemma counter_known: "- 32 \<le> d \<Longrightarrow> d < 0 \<Longrightarrow> isCounterKnownInBitmap d s \<longleftrightarrow> bit (messageCounterBitmap s) (nat (- d - 1))"
proof -
  assume d: "- 32 \<le> d" "d < 0"
  define k where "k = nat (- d - 1)"
  have k: "min 31 k = k" using d by (simp add: k_def)
  have "bit (js_and B (js_shl 1 (- d - 1))) n \<longleftrightarrow> bit B k \<and> min 31 n = k" for B n
    using d bit_one_shl [of "- d - 1" "min 31 n"] by (auto simp: js_and_def bit_and_iff bit_to_int32 k_def)
  then have "js_and B (js_shl 1 (- d - 1)) = 0 \<longleftrightarrow> \<not> bit B k" for B
    using k by (metis bit_0_eq bot_apply bot_bool_def bit_eqI)
  then show ?thesis by (simp add: isCounterKnownInBitmap_def k_def)
qed

lemma bitmap_behind: "- 32 \<le> d \<Longrightarrow> d < 0 \<Longrightarrow> n < 32 \<Longrightarrow>
    bit (calculateMessageCounterBitmap B d) n \<longleftrightarrow> bit B n \<or> n = nat (- d - 1)"
  using bit_one_shl [of "- d - 1"]
  by (auto simp: calculateMessageCounterBitmap_def bit_to_uint32 js_or_def bit_or_iff bit_to_int32)

lemma bitmap_ahead: "0 < d \<Longrightarrow> d \<le> 32 \<Longrightarrow> n < 32 \<Longrightarrow>
    bit (calculateMessageCounterBitmap B d) n \<longleftrightarrow> (nat d \<le> n \<and> bit B (n - nat d)) \<or> n = nat (d - 1)"
proof -
  assume d: "0 < d" "d \<le> 32" "n < 32"
  have shifted: "bit (js_ushr (js_shl B d) 0) n \<longleftrightarrow> nat d \<le> n \<and> bit B (n - nat d)" if "d < 32" "n < 32" for n
    using d(1) that by (auto simp: js_ushr_def js_shl_def bit_to_uint32 bit_to_int32 bit_push_bit_iff)
  show ?thesis
    using d shifted bit_one_shl [of "d - 1"]
    by (auto simp: calculateMessageCounterBitmap_def bit_to_uint32 js_or_def bit_or_iff bit_to_int32 Let_def)
qed

lemma bitmap_far: "32 < d \<Longrightarrow> calculateMessageCounterBitmap B d = 0"
  by (simp add: calculateMessageCounterBitmap_def to_uint32_def)

section \<open>Seen positions\<close>

text \<open>
  The specification: the sender's counters lie on an unbounded line and are sent modulo \<open>2^32\<close>.  The
  receiver knows the top position and the set of positions it has seen.
\<close>

definition spec_accepts :: "int \<times> int set \<Rightarrow> int \<Rightarrow> bool" where
  "spec_accepts w q \<longleftrightarrow> q \<notin> snd w \<and> fst w - 32 \<le> q"

definition spec_step :: "int \<times> int set \<Rightarrow> int \<Rightarrow> int \<times> int set" where
  "spec_step w q = (max (fst w) q, insert q (snd w))"

definition represents :: "reception \<Rightarrow> int \<times> int set \<Rightarrow> bool" where
  "represents s w \<longleftrightarrow> maximumMessageCounter s = Some (fst w mod 2 ^ 32) \<and> fst w \<in> snd w \<and>
    (\<forall>p \<in> snd w. p \<le> fst w) \<and> (\<forall>n < 32. bit (messageCounterBitmap s) n \<longleftrightarrow> fst w - 1 - int n \<in> snd w)"

text \<open>The position a counter stands for, seen from the top position.\<close>

definition counter_position :: "counter_diff \<Rightarrow> int \<Rightarrow> int \<Rightarrow> int" where
  "counter_position calculateDiff hi c = hi + calculateDiff (Some (hi mod 2 ^ 32)) c"

lemma update_known_max:
  fixes calculateDiff :: counter_diff
  assumes "maximumMessageCounter s = Some m" "0 \<le> c" "c < 2 ^ 32" "c \<noteq> m"
  defines "d \<equiv> calculateDiff (Some m) c"
  shows "d < - 32 \<Longrightarrow> updateMessageCounter calculateDiff b c s = Inl DuplicateMessageError"
    "- 32 \<le> d \<Longrightarrow> d < 0 \<Longrightarrow> updateMessageCounter calculateDiff b c s =
      (if bit (messageCounterBitmap s) (nat (- d - 1)) then Inl DuplicateMessageError
       else Inr (s\<lparr>messageCounterBitmap := calculateMessageCounterBitmap (messageCounterBitmap s) d\<rparr>))"
    "0 < d \<Longrightarrow> updateMessageCounter calculateDiff b c s = Inr (s\<lparr>maximumMessageCounter := Some c,
      messageCounterBitmap := calculateMessageCounterBitmap (messageCounterBitmap s) d\<rparr>)"
  using assms counter_known [of d s]
  by (simp_all add: updateMessageCounter_def updateMessageCounterAndBitmap_def Let_def)

lemma bitmap_represents_behind:
  assumes "represents s (hi, seen)" "- 32 \<le> d" "d < 0"
  shows "represents (s\<lparr>messageCounterBitmap := calculateMessageCounterBitmap (messageCounterBitmap s) d\<rparr>)
    (hi, insert (hi + d) seen)"
proof -
  have "n = nat (- d - 1) \<longleftrightarrow> hi - 1 - int n = hi + d" for n using assms(3) by auto
  then show ?thesis using assms by (auto simp: represents_def bitmap_behind)
qed

lemma bitmap_represents_ahead:
  assumes "represents s (hi, seen)" "0 < d" "c = (hi + d) mod 2 ^ 32"
  shows "represents (s\<lparr>maximumMessageCounter := Some c,
      messageCounterBitmap := calculateMessageCounterBitmap (messageCounterBitmap s) d\<rparr>) (hi + d, insert (hi + d) seen)"
proof -
  define B where "B = calculateMessageCounterBitmap (messageCounterBitmap s) d"
  have s: "hi \<in> seen" "\<And>p. p \<in> seen \<Longrightarrow> p \<le> hi"
    "\<And>n. n < 32 \<Longrightarrow> bit (messageCounterBitmap s) n \<longleftrightarrow> hi - 1 - int n \<in> seen"
    using assms(1) by (simp_all add: represents_def)
  have "bit B n \<longleftrightarrow> hi + d - 1 - int n \<in> seen" if n: "n < 32" for n
  proof (cases "d \<le> 32")
    case True
    have b: "bit B n \<longleftrightarrow> (nat d \<le> n \<and> bit (messageCounterBitmap s) (n - nat d)) \<or> n = nat (d - 1)"
      unfolding B_def by (rule bitmap_ahead [OF assms(2) True n])
    consider "int n < d - 1" | "int n = d - 1" | "d \<le> int n" by linarith
    then show ?thesis
    proof cases
      case 1
      then show ?thesis using b s(2) [of "hi + d - 1 - int n"] by auto
    next
      case 2
      then show ?thesis using b s(1) by auto
    next
      case 3
      then have e: "hi - 1 - int (n - nat d) = hi + d - 1 - int n" using assms(2) by simp
      have "bit (messageCounterBitmap s) (n - nat d) \<longleftrightarrow> hi + d - 1 - int n \<in> seen"
        using s(3) [of "n - nat d"] n unfolding e by simp
      then show ?thesis using b 3 assms(2) by auto
    qed
  next
    case False
    then show ?thesis using s(2) [of "hi + d - 1 - int n"] n by (auto simp: B_def bitmap_far)
  qed
  moreover have "hi + d - 1 - int n \<noteq> hi + d" for n by simp
  ultimately show ?thesis using assms s by (auto simp: represents_def B_def [symmetric] dest: s(2))
qed

text \<open>The counters a receiver accepts from a sequence, and the positions they stand for.\<close>

fun accepted :: "counter_diff \<Rightarrow> int \<Rightarrow> reception \<Rightarrow> int list \<Rightarrow> int list" where
  "accepted calculateDiff b s [] = []"
| "accepted calculateDiff b s (c # cs) =
    (case updateMessageCounter calculateDiff b c s of
       Inl e \<Rightarrow> accepted calculateDiff b s cs
     | Inr s' \<Rightarrow> c # accepted calculateDiff b s' cs)"

fun accepted_positions :: "counter_diff \<Rightarrow> int \<Rightarrow> int \<Rightarrow> reception \<Rightarrow> int list \<Rightarrow> int list" where
  "accepted_positions calculateDiff b hi s [] = []"
| "accepted_positions calculateDiff b hi s (c # cs) =
    (case updateMessageCounter calculateDiff b c s of
       Inl e \<Rightarrow> accepted_positions calculateDiff b hi s cs
     | Inr s' \<Rightarrow> counter_position calculateDiff hi c #
         accepted_positions calculateDiff b (max hi (counter_position calculateDiff hi c)) s' cs)"

lemma update_out_of_range: "c < 0 \<or> 2 ^ 32 \<le> c \<Longrightarrow> updateMessageCounter calculateDiff b c s = Inl InternalError"
  by (auto simp: updateMessageCounter_def)

text \<open>What a subclass owes to the update: its difference leads from the maximum to the counter.\<close>

locale reception_class =
  fixes calculateDiff :: counter_diff
  assumes diff_cong: "0 \<le> m \<Longrightarrow> m < 2 ^ 32 \<Longrightarrow> 0 \<le> c \<Longrightarrow> c < 2 ^ 32 \<Longrightarrow> (m + calculateDiff (Some m) c) mod 2 ^ 32 = c"
    and diff_zero: "0 \<le> m \<Longrightarrow> m < 2 ^ 32 \<Longrightarrow> 0 \<le> c \<Longrightarrow> c < 2 ^ 32 \<Longrightarrow> calculateDiff (Some m) c = 0 \<longleftrightarrow> c = m"
begin

lemma position_mod: "0 \<le> c \<Longrightarrow> c < 2 ^ 32 \<Longrightarrow> counter_position calculateDiff hi c mod 2 ^ 32 = c"
  using diff_cong [of "hi mod 2 ^ 32" c] by (simp add: counter_position_def mod_add_left_eq)

lemma update_refines:
  assumes "represents s w" "0 \<le> c" "c < 2 ^ 32"
  defines "q \<equiv> counter_position calculateDiff (fst w) c"
  shows "if spec_accepts w q
    then \<exists>s'. updateMessageCounter calculateDiff b c s = Inr s' \<and> represents s' (spec_step w q)
    else updateMessageCounter calculateDiff b c s = Inl DuplicateMessageError"
proof -
  obtain hi seen where w: "w = (hi, seen)" by (cases w)
  define m where "m = hi mod 2 ^ 32"
  define d where "d = calculateDiff (Some m) c"
  have s: "maximumMessageCounter s = Some m" "hi \<in> seen" "\<And>p. p \<in> seen \<Longrightarrow> p \<le> hi"
    "\<And>n. n < 32 \<Longrightarrow> bit (messageCounterBitmap s) n \<longleftrightarrow> hi - 1 - int n \<in> seen"
    using assms(1) by (simp_all add: represents_def w m_def)
  have m: "0 \<le> m" "m < 2 ^ 32" by (simp_all add: m_def)
  have q: "q = hi + d" by (simp add: q_def counter_position_def w d_def m_def)
  have eq: "d = 0 \<longleftrightarrow> c = m" using diff_zero [OF m assms(2,3)] by (simp add: d_def)
  have c: "c = q mod 2 ^ 32" using position_mod [OF assms(2,3)] by (simp add: q_def)
  note u = update_known_max [OF s(1) assms(2,3), of calculateDiff, folded d_def]
  consider "d = 0" | "d < - 32" | "- 32 \<le> d" "d < 0" | "0 < d" by linarith
  then show ?thesis
  proof cases
    case 1
    then have "updateMessageCounter calculateDiff b c s = Inl DuplicateMessageError"
      using eq s(1) m by (simp add: updateMessageCounter_def)
    then show ?thesis using 1 s(2) by (simp add: spec_accepts_def w q)
  next
    case 2
    then show ?thesis using u(1) eq by (simp add: spec_accepts_def w q)
  next
    case 3
    have "bit (messageCounterBitmap s) (nat (- d - 1)) \<longleftrightarrow> q \<in> seen" using s(4) [of "nat (- d - 1)"] 3 by (simp add: q)
    then show ?thesis
      using 3 u(2) eq bitmap_represents_behind [of s hi seen d] assms(1)
      by (auto simp: spec_accepts_def spec_step_def w q max_def)
  next
    case 4
    then have "q \<notin> seen" using s(3) [of q] q by auto
    then show ?thesis
      using 4 u(3) eq bitmap_represents_ahead [of s hi seen d c] assms(1) c
      by (auto simp: spec_accepts_def spec_step_def w q max_def)
  qed
qed

lemma accepted_fresh:
  "represents s w \<Longrightarrow>
    (let qs = accepted_positions calculateDiff b (fst w) s cs in
     distinct qs \<and> set qs \<inter> snd w = {} \<and> accepted calculateDiff b s cs = map (\<lambda>q. q mod 2 ^ 32) qs)"
proof (induction cs arbitrary: s w)
  case (Cons c cs)
  define q where "q = counter_position calculateDiff (fst w) c"
  show ?case
  proof (cases "0 \<le> c \<and> c < 2 ^ 32")
    case True
    then have c: "0 \<le> c" "c < 2 ^ 32" by simp_all
    note u = update_refines [OF Cons.prems c, of b, folded q_def]
    show ?thesis
    proof (cases "spec_accepts w q")
      case True
      then obtain s' where s': "updateMessageCounter calculateDiff b c s = Inr s'" "represents s' (spec_step w q)"
        using u by auto
      have "fst (spec_step w q) = max (fst w) q" "snd (spec_step w q) = insert q (snd w)" "q \<notin> snd w"
        using True by (simp_all add: spec_step_def spec_accepts_def)
      then show ?thesis using Cons.IH [OF s'(2)] s'(1) position_mod [OF c, of "fst w"]
        by (simp add: q_def [symmetric] Let_def)
    qed (use u Cons.IH [OF Cons.prems] in \<open>simp add: Let_def\<close>)
  qed (use Cons.IH [OF Cons.prems] update_out_of_range [of c calculateDiff b s] in \<open>auto simp: Let_def\<close>)
qed simp

end

lemma mod_2pow32_cases:
  assumes "0 \<le> (m :: int)" "m < 4294967296" "- 4294967296 \<le> e" "e < 4294967296"
  shows "(m + e) mod 4294967296 = (if m + e < 0 then m + e + 4294967296 else if m + e < 4294967296 then m + e else m + e - 4294967296)"
proof -
  have "(m + e) mod 4294967296 = m + e + 4294967296" if "m + e < 0"
  proof -
    have "(m + e) mod 4294967296 = (m + e + 4294967296) mod 4294967296" by (rule mod_add_self2 [symmetric])
    also have "\<dots> = m + e + 4294967296" by (rule mod_pos_pos_trivial) (use that assms in auto)
    finally show ?thesis .
  qed
  moreover have "(m + e) mod 4294967296 = m + e - 4294967296" if "4294967296 \<le> m + e"
  proof -
    have "(m + e) mod 4294967296 = (m + e - 4294967296) mod 4294967296" by (rule minus_mod_self2 [symmetric])
    also have "\<dots> = m + e - 4294967296" by (rule mod_pos_pos_trivial) (use that assms in auto)
    finally show ?thesis .
  qed
  moreover have "(m + e) mod 4294967296 = m + e" if "0 \<le> m + e" "m + e < 4294967296"
    using that by (rule mod_pos_pos_trivial)
  ultimately show ?thesis by simp
qed

interpretation plain: reception_class calculateDiff_plain
  by unfold_locales (simp_all add: calculateDiff_plain_def)

interpretation rollover: reception_class calculateDiff_rollover
proof unfold_locales
  fix m c :: int
  assume "0 \<le> m" "m < 2 ^ 32" "0 \<le> c" "c < 2 ^ 32"
  then show "(m + calculateDiff_rollover (Some m) c) mod 2 ^ 32 = c" "calculateDiff_rollover (Some m) c = 0 \<longleftrightarrow> c = m"
    using mod_2pow32_cases [of m "calculateDiff_rollover (Some m) c"]
    by (auto simp: calculateDiff_rollover_def Let_def split: if_splits)
qed

interpretation unencrypted: reception_class calculateDiff_unencrypted
proof unfold_locales
  fix m c :: int
  assume "0 \<le> m" "m < 2 ^ 32" "0 \<le> c" "c < 2 ^ 32"
  then show "(m + calculateDiff_unencrypted (Some m) c) mod 2 ^ 32 = c" "calculateDiff_unencrypted (Some m) c = 0 \<longleftrightarrow> c = m"
    using mod_2pow32_cases [of m "calculateDiff_unencrypted (Some m) c"]
    by (auto simp: calculateDiff_unencrypted_def Let_def split: if_splits)
qed

lemma represents_encrypted:
  "0 \<le> m \<Longrightarrow> m < 2 ^ 32 \<Longrightarrow> represents (new_reception initialBitmap_encrypted (Some m)) (m, {..m})"
proof -
  have "bit initialBitmap_encrypted n" if "n < 32" for n
    using that bit_mask_iff [of 32 n, where 'a = int] by (simp add: initialBitmap_encrypted_def mask_eq_exp_minus_1)
  then show "0 \<le> m \<Longrightarrow> m < 2 ^ 32 \<Longrightarrow> ?thesis" by (simp add: represents_def new_reception_def initialize_def)
qed

lemma represents_unencrypted:
  "0 \<le> m \<Longrightarrow> m < 2 ^ 32 \<Longrightarrow> represents (new_reception initialBitmap_unencrypted (Some m)) (m, {m})"
  by (simp add: represents_def new_reception_def initialize_def initialBitmap_unencrypted_def)

lemma plain_position: "0 \<le> hi \<Longrightarrow> hi < 2 ^ 32 \<Longrightarrow> counter_position calculateDiff_plain hi c = c"
  by (simp add: counter_position_def calculateDiff_plain_def)

lemma plain_positions:
  "0 \<le> hi \<Longrightarrow> hi < 2 ^ 32 \<Longrightarrow> accepted_positions calculateDiff_plain b hi s cs = accepted calculateDiff_plain b s cs"
proof (induction cs arbitrary: hi s)
  case (Cons c cs)
  then have p: "counter_position calculateDiff_plain hi c = c" using plain_position by simp
  show ?case
  proof (cases "updateMessageCounter calculateDiff_plain b c s")
    case (Inr s')
    then have "0 \<le> c" "c < 2 ^ 32" by (auto simp: updateMessageCounter_def split: if_splits)
    then show ?thesis using Cons p Inr by simp
  qed (use Cons in simp)
qed simp

lemma near_position:
  assumes "calculateDiff = calculateDiff_rollover \<or> calculateDiff = calculateDiff_unencrypted"
    "hi - 32 \<le> q" "q < hi + 2 ^ 31"
  shows "counter_position calculateDiff hi (q mod 2 ^ 32) = q"
proof -
  define m e where "m = hi mod 4294967296" and "e = q - hi"
  have m: "0 \<le> m" "m < 4294967296" and e: "- 32 \<le> e" "e < 2147483648"
    using assms(2,3) by (simp_all add: m_def e_def)
  have "q mod 4294967296 = (m + e) mod 4294967296" by (simp add: m_def e_def mod_add_left_eq)
  then have "q mod 4294967296 = (if m + e < 0 then m + e + 4294967296
      else if m + e < 4294967296 then m + e else m + e - 4294967296)"
    using mod_2pow32_cases [of m e] m e by simp
  moreover have "calculateDiff (Some m) (if m + e < 0 then m + e + 4294967296
      else if m + e < 4294967296 then m + e else m + e - 4294967296) = e"
    using assms(1) m e by (auto simp: calculateDiff_rollover_def calculateDiff_unencrypted_def Let_def)
  ultimately show ?thesis by (simp add: counter_position_def m_def [symmetric] e_def)
qed

lemma rollover_position:
  assumes "hi - 2 ^ 31 \<le> q" "q < hi + 2 ^ 31"
  shows "counter_position calculateDiff_rollover hi (q mod 2 ^ 32) = q"
proof -
  define m e where "m = hi mod 4294967296" and "e = q - hi"
  have m: "0 \<le> m" "m < 4294967296" and e: "- 2147483648 \<le> e" "e < 2147483648"
    using assms by (simp_all add: m_def e_def)
  have "q mod 4294967296 = (m + e) mod 4294967296" by (simp add: m_def e_def mod_add_left_eq)
  then have "calculateDiff_rollover (Some m) (q mod 4294967296) = e"
    using mod_2pow32_cases [of m e] m e by (simp add: calculateDiff_rollover_def Let_def)
  then show ?thesis by (simp add: counter_position_def m_def [symmetric] e_def)
qed

text \<open>
  Messages named by their true positions on the sender's line, of which the receiver is given only the counters.
  They are timely when each is less than half the counter range away from the highest position before it.
\<close>

fun accepted_arrivals :: "int \<Rightarrow> reception \<Rightarrow> int list \<Rightarrow> int list" where
  "accepted_arrivals b s [] = []"
| "accepted_arrivals b s (q # qs) =
    (case updateMessageCounter calculateDiff_rollover b (q mod 2 ^ 32) s of
       Inl e \<Rightarrow> accepted_arrivals b s qs
     | Inr s' \<Rightarrow> q # accepted_arrivals b s' qs)"

fun timely :: "int \<Rightarrow> int list \<Rightarrow> bool" where
  "timely hi [] \<longleftrightarrow> True"
| "timely hi (q # qs) \<longleftrightarrow> hi - 2 ^ 31 \<le> q \<and> q < hi + 2 ^ 31 \<and> timely (max hi q) qs"

fun fresh_arrivals :: "int \<times> int set \<Rightarrow> int list \<Rightarrow> int list" where
  "fresh_arrivals w [] = []"
| "fresh_arrivals w (q # qs) = (if spec_accepts w q then q # fresh_arrivals (spec_step w q) qs else fresh_arrivals w qs)"

lemma fresh_arrivals_fresh: "distinct (fresh_arrivals w qs) \<and> set (fresh_arrivals w qs) \<inter> snd w = {}"
proof (induction qs arbitrary: w)
  case (Cons q qs)
  show ?case using Cons.IH [of w] Cons.IH [of "spec_step w q"] by (auto simp: spec_accepts_def spec_step_def)
qed simp

lemma accepted_arrivals_fresh:
  "represents s w \<Longrightarrow> timely (fst w) qs \<Longrightarrow> accepted_arrivals b s qs = fresh_arrivals w qs"
proof (induction qs arbitrary: s w)
  case (Cons q qs)
  have "counter_position calculateDiff_rollover (fst w) (q mod 2 ^ 32) = q"
    by (rule rollover_position) (use Cons.prems(2) in simp_all)
  then have u: "if spec_accepts w q
      then \<exists>s'. updateMessageCounter calculateDiff_rollover b (q mod 2 ^ 32) s = Inr s' \<and> represents s' (spec_step w q)
      else updateMessageCounter calculateDiff_rollover b (q mod 2 ^ 32) s = Inl DuplicateMessageError"
    using rollover.update_refines [OF Cons.prems(1), of "q mod 2 ^ 32" b] by (simp only:) simp
  show ?case
  proof (cases "spec_accepts w q")
    case True
    then show ?thesis using u Cons.IH [of _ "spec_step w q"] Cons.prems(2) by (auto simp: spec_step_def)
  next
    case False
    moreover have "max (fst w) q = fst w"
      using False Cons.prems(1) by (auto simp: spec_accepts_def represents_def max_def)
    ultimately show ?thesis using u Cons.IH [OF Cons.prems(1)] Cons.prems(2) by simp
  qed
qed simp

section \<open>Properties\<close>



text \<open>
  C3: replay protection of unicast sessions.  Whatever sequence of counters arrives at a receiver of
  encrypted messages that started at counter \<open>m\<close>, the accepted counters are pairwise different and all above
  \<open>m\<close>.
\<close>

theorem encrypted_no_replay:
  assumes "0 \<le> m" "m < 2 ^ 32"
  shows "let cs' = accepted calculateDiff_plain initialBitmap_encrypted (new_reception initialBitmap_encrypted (Some m)) cs
    in distinct cs' \<and> (\<forall>c \<in> set cs'. m < c)"
  using plain.accepted_fresh [OF represents_encrypted [OF assms], of initialBitmap_encrypted cs] plain_positions [OF assms]
  by (auto simp: Let_def disjoint_iff not_le)

theorem encrypted_no_replay_witness:
  "accepted calculateDiff_plain initialBitmap_encrypted (new_reception initialBitmap_encrypted (Some 5)) [7, 6, 7, 6, 4, 50, 7] = [7, 6, 50] \<and>
    distinct [7 :: int, 6, 50] \<and> list_all (\<lambda>c. (5 :: int) < c) [7, 6, 50]"
proof -
  have "accepted calculateDiff_plain initialBitmap_encrypted (new_reception initialBitmap_encrypted (Some 5)) [7, 6, 7, 6, 4, 50, 7] = [7, 6, 50]"
    by code_simp
  then show ?thesis using encrypted_no_replay [of 5 "[7, 6, 7, 6, 4, 50, 7]"] by simp
qed

text \<open>
  C5: replay protection of group messages, whose counters roll over.  The messages are named by their true
  positions on the sender's unbounded line, of which the receiver that started at \<open>m\<close> sees only the counter
  modulo \<open>2^32\<close>.  As long as every message is less than half the counter range away from the highest one
  before it, the receiver accepts exactly the messages that a receiver keeping the set of all positions ever
  seen would accept: no position twice, none at or below the start, and none that is fresh and at most 32 behind
  the top is lost, across any number of rollovers.
\<close>

theorem rollover_no_replay:
  fixes b :: int
  assumes "0 \<le> m" "m < 2 ^ 32" "timely m qs"
  defines "accepts \<equiv> accepted_arrivals b (new_reception initialBitmap_encrypted (Some m)) qs"
  shows "accepts = fresh_arrivals (m, {..m}) qs \<and> distinct accepts \<and> (\<forall>q \<in> set accepts. m < q)"
proof -
  have "accepts = fresh_arrivals (m, {..m}) qs"
    unfolding accepts_def by (rule accepted_arrivals_fresh [OF represents_encrypted [OF assms(1,2)]]) (use assms(3) in simp)
  then show ?thesis using fresh_arrivals_fresh [of "(m, {..m})" qs] by (auto simp: not_le)
qed

theorem rollover_no_replay_witness:
  "accepted_arrivals 0 (new_reception initialBitmap_encrypted (Some 4294967294))
      [4294967295, 4294967297, 4294967296, 4294967297, 4294967295, 4294967294, 6442450000, 4294967298] =
    [4294967295, 4294967297, 4294967296, 6442450000] \<and>
    distinct [4294967295 :: int, 4294967297, 4294967296, 6442450000]"
proof -
  define qs where "qs = [4294967295 :: int, 4294967297, 4294967296, 4294967297, 4294967295, 4294967294, 6442450000, 4294967298]"
  have a: "accepted_arrivals 0 (new_reception initialBitmap_encrypted (Some 4294967294)) qs =
      [4294967295, 4294967297, 4294967296, 6442450000]"
    unfolding qs_def by code_simp
  have t: "timely 4294967294 qs" unfolding qs_def by simp
  have "distinct [4294967295 :: int, 4294967297, 4294967296, 6442450000]"
    using rollover_no_replay [OF _ _ t, of 0, unfolded a, THEN conjunct2, THEN conjunct1] by simp
  then show ?thesis using a unfolding qs_def by blast
qed

text \<open>
  C6: no loss of fresh messages.  With rollover counters and with unencrypted messages, a message whose
  position has not been seen is accepted when it lies at most 32 behind or less than \<open>2^31\<close> ahead of the
  top, also across the wrap of the counter.
\<close>

theorem fresh_message_accepted:
  assumes "calculateDiff = calculateDiff_rollover \<or> calculateDiff = calculateDiff_unencrypted"
    and "represents s (hi, seen)" "q \<notin> seen" "hi - 32 \<le> q" "q < hi + 2 ^ 31"
  shows "\<exists>s'. updateMessageCounter calculateDiff b (q mod 2 ^ 32) s = Inr s' \<and> represents s' (max hi q, insert q seen)"
proof -
  have p: "counter_position calculateDiff hi (q mod 2 ^ 32) = q" using near_position [OF assms(1,4,5)] .
  have "spec_accepts (hi, seen) q" using assms(3,4) by (simp add: spec_accepts_def)
  then show ?thesis
    using assms(1) p rollover.update_refines [OF assms(2), of "q mod 2 ^ 32" b]
      unencrypted.update_refines [OF assms(2), of "q mod 2 ^ 32" b]
    by (auto simp: spec_step_def)
qed

theorem fresh_message_accepted_witness:
  "\<exists>s'. updateMessageCounter calculateDiff_unencrypted 0 ((- 5) mod 2 ^ 32) (new_reception initialBitmap_unencrypted (Some 3)) = Inr s' \<and>
    represents s' (max 3 (- 5), insert (- 5) {3})"
  by (rule fresh_message_accepted) (use represents_unencrypted [of 3] in simp_all)

end
