(* ===== verification/Message_Counter.thy ===== *)
theory Message_Counter
  imports Prelude
begin

text \<open>
  The counters of sent messages (\<open>MessageCounter.ts\<close>): a 32-bit counter that may roll over, and its persisted
  variant that stores the counter at every use or reserves a block ahead.

  The lemmas place the counters issued over any sequence of uses and restarts at strictly increasing positions of
  the unbounded counter line and bound how far a life advances on it, so that a restart never issues a counter again.
\<close>

section \<open>The counter\<close>

record message_counter =
  messageCounter :: int
  hasOnRollover :: bool
  rolloverInfoDifference :: int

abbreviation (input) MAX_COUNTER :: int where "MAX_COUNTER \<equiv> 0xffffffff"

definition MessageCounter :: "int \<Rightarrow> bool \<Rightarrow> int \<Rightarrow> message_counter" where
  "MessageCounter randomUint32 onRollover info =
    \<lparr>messageCounter = js_ushr randomUint32 4 + 1, hasOnRollover = onRollover, rolloverInfoDifference = info\<rparr>"

text \<open>The result, whether the callback was called, and the counter after the call, which is changed also by a call that throws.\<close>

definition getIncrementedCounter :: "'z message_counter_scheme \<Rightarrow> (error + int) \<times> bool \<times> 'z message_counter_scheme" where
  "getIncrementedCounter s =
    (let s = s\<lparr>messageCounter := messageCounter s + 1\<rparr> in
     if messageCounter s > MAX_COUNTER then
       if hasOnRollover s then (Inr 0, False, s\<lparr>messageCounter := 0\<rparr>)
       else (Inl InternalError, False, s)
     else (Inr (messageCounter s),
       hasOnRollover s \<and> messageCounter s = MAX_COUNTER - rolloverInfoDifference s, s))"

section \<open>The persisted counter\<close>

text \<open>\<open>pc_reserved\<close> is \<open>None\<close> for the initial \<open>Infinity\<close>; \<open>pc_stored\<close> is the value in the storage.\<close>

record persisted_counter = message_counter +
  pc_reserve :: "int option"
  pc_reserved :: "int option"
  pc_stored :: "int option"

definition reserveAhead :: "int \<Rightarrow> persisted_counter \<Rightarrow> persisted_counter" where
  "reserveAhead reserve s =
    (let reserved = min (messageCounter s + reserve) MAX_COUNTER in s\<lparr>pc_reserved := Some reserved, pc_stored := Some reserved\<rparr>)"

definition PersistedMessageCounter ::
    "int \<Rightarrow> bool \<Rightarrow> int \<Rightarrow> int option \<Rightarrow> int option \<Rightarrow> int option \<Rightarrow> error + bool \<times> persisted_counter" where
  "PersistedMessageCounter randomUint32 onRollover info reserve seed stored =
    (if (case reserve of None \<Rightarrow> False | Some r \<Rightarrow> r \<le> 0) then Inl InternalError
     else
     let s = message_counter.extend (MessageCounter randomUint32 onRollover info)
           \<lparr>pc_reserve = reserve, pc_reserved = None, pc_stored = stored\<rparr> in
     bindE
       (case stored of
          Some v \<Rightarrow>
            if v < 0 \<or> v > MAX_COUNTER then Inl InternalError
            else Inr (onRollover \<and> v \<ge> MAX_COUNTER - info, s\<lparr>messageCounter := v\<rparr>)
        | None \<Rightarrow>
            (case seed of
               None \<Rightarrow> Inr (False, s)
             | Some v \<Rightarrow> if v < 0 \<or> v > MAX_COUNTER then Inl InternalError else Inr (False, s\<lparr>messageCounter := v\<rparr>)))
       (\<lambda>(called, s). Inr (called, case reserve of None \<Rightarrow> s | Some r \<Rightarrow> reserveAhead r s)))"

definition getIncrementedCounter_persisted :: "persisted_counter \<Rightarrow> (error + int) \<times> bool \<times> persisted_counter" where
  "getIncrementedCounter_persisted s =
    (case getIncrementedCounter s of
       (Inl e, called, s) \<Rightarrow> (Inl e, called, s)
     | (Inr counter, called, s) \<Rightarrow>
         (Inr counter, called,
          case pc_reserve s of
            None \<Rightarrow> s\<lparr>pc_stored := Some counter\<rparr>
          | Some reserve \<Rightarrow>
              (case pc_reserved s of
                 None \<Rightarrow> s
               | Some reserved \<Rightarrow>
                   if counter \<ge> reserved \<or> counter < reserved - reserve then reserveAhead reserve s else s)))"

section \<open>Uses and restarts\<close>

text \<open>
  A life of the counter: \<open>Use\<close> asks for the next counter, \<open>Restart r\<close> loses the state in memory and constructs
  the counter again from the storage with random number \<open>r\<close>.  A construction that throws leaves no counter.
\<close>

datatype counter_event = Use | Restart int

fun counter_life :: "persisted_counter \<Rightarrow> counter_event list \<Rightarrow> int list" where
  "counter_life s [] = []"
| "counter_life s (Use # es) =
    (case getIncrementedCounter_persisted s of
       (Inl e, _, s') \<Rightarrow> counter_life s' es
     | (Inr c, _, s') \<Rightarrow> c # counter_life s' es)"
| "counter_life s (Restart r # es) =
    (case PersistedMessageCounter r (hasOnRollover s) (rolloverInfoDifference s) (pc_reserve s) None (pc_stored s) of
       Inl e \<Rightarrow> []
     | Inr (_, s') \<Rightarrow> counter_life s' es)"

text \<open>
  The invariant ties memory and storage to positions on the unbounded counter line: \<open>p\<close> of the counter in memory,
  \<open>q\<close> of the stored value.  Without rollover the counter may be stuck above the maximum.
\<close>

definition counter_inv :: "persisted_counter \<Rightarrow> int \<Rightarrow> int \<Rightarrow> bool" where
  "counter_inv s p q \<longleftrightarrow> p \<le> q \<and> pc_stored s = Some (q mod 2 ^ 32) \<and>
    (messageCounter s = p mod 2 ^ 32 \<or> \<not> hasOnRollover s \<and> 2 ^ 32 \<le> messageCounter s) \<and>
    (case pc_reserve s of
       None \<Rightarrow> p = q
     | Some r \<Rightarrow> 0 < r \<and> r < MAX_COUNTER \<and> pc_reserved s = Some (q mod 2 ^ 32) \<and> q \<le> p + r \<and>
         p div 2 ^ 32 = q div 2 ^ 32 \<and> (q mod 2 ^ 32 - p mod 2 ^ 32 = 0 \<longrightarrow> q mod 2 ^ 32 = MAX_COUNTER))"

lemma position_split: "x = x div 4294967296 * 4294967296 + x mod 4294967296" for x :: int
  by simp

text \<open>A value at distance \<open>d\<close> above \<open>p\<close> that does not leave the cycle of \<open>p\<close>.\<close>

lemma position_within:
  fixes p :: int
  assumes "0 \<le> d" "p mod 4294967296 + d \<le> MAX_COUNTER"
  shows "(p + d) mod 4294967296 = p mod 4294967296 + d" "(p + d) div 4294967296 = p div 4294967296"
proof -
  define m where "m = p mod 4294967296"
  have e: "p + d = p div 4294967296 * 4294967296 + (m + d)" using position_split [of p] by (simp add: m_def)
  have "0 \<le> m + d" "m + d < 4294967296" using assms by (simp_all add: m_def)
  then show "(p + d) mod 4294967296 = p mod 4294967296 + d" "(p + d) div 4294967296 = p div 4294967296"
    unfolding m_def [symmetric] e using high_part [of "m + d" 4294967296 "p div 4294967296"] by simp_all
qed

lemma position_wrap:
  fixes p :: int
  assumes "p mod 4294967296 = MAX_COUNTER"
  shows "(p + 1) mod 4294967296 = 0"
proof -
  have e: "p + 1 = (p div 4294967296 + 1) * 4294967296" using position_split [of p] assms by simp
  show ?thesis unfolding e by (rule mod_mult_self2_is_0)
qed

lemma reserveAhead_inv:
  assumes "0 < r" "r < MAX_COUNTER" "pc_reserve s = Some r" "messageCounter s = p mod 2 ^ 32"
  shows "\<exists>q. counter_inv (reserveAhead r s) p q"
proof -
  define d where "d = min r (MAX_COUNTER - p mod 4294967296)"
  have m: "0 \<le> p mod 4294967296" "p mod 4294967296 < 4294967296" by simp_all
  have d: "0 \<le> d" "p mod 4294967296 + d \<le> MAX_COUNTER" "d \<le> r" using assms(1) m unfolding d_def by linarith+
  have "min (messageCounter s + r) MAX_COUNTER = p mod 4294967296 + d" unfolding d_def assms(4) by (simp add: min_def)
  moreover have "d = 0 \<Longrightarrow> p mod 4294967296 = MAX_COUNTER" using assms(1) m unfolding d_def by linarith
  ultimately have "counter_inv (reserveAhead r s) p (p + d)"
    using d assms position_within [OF d(1,2)]
    by (auto simp: counter_inv_def reserveAhead_def Let_def)
  then show ?thesis ..
qed

lemma reserve_kept:
  assumes "counter_inv s p q" "pc_reserve s = Some r" "messageCounter s = p mod 2 ^ 32" "(p + 1) mod 2 ^ 32 < q mod 2 ^ 32"
    "p mod 2 ^ 32 < MAX_COUNTER"
  shows "counter_inv (s\<lparr>messageCounter := (p + 1) mod 2 ^ 32\<rparr>) (p + 1) q"
proof -
  have w: "(p + 1) mod 4294967296 = p mod 4294967296 + 1" "(p + 1) div 4294967296 = p div 4294967296"
    using position_within [of 1 p] assms(5) by simp_all
  have "p div 4294967296 = q div 4294967296" using assms(1,2) by (simp add: counter_inv_def)
  moreover have "(p + 1) mod 4294967296 < q mod 4294967296" using assms(4) by simp
  ultimately have "p + 1 \<le> q" using position_split [of p] position_split [of q] w by linarith
  then show ?thesis using assms(1,2,4) w by (simp add: counter_inv_def)
qed

lemma use_persisted:
  assumes i: "counter_inv s p q"
  shows "\<exists>q'. (\<exists>called s'. getIncrementedCounter_persisted s = (Inr ((p + 1) mod 2 ^ 32), called, s') \<and> counter_inv s' (p + 1) q') \<or>
    (\<exists>called s'. getIncrementedCounter_persisted s = (Inl InternalError, called, s') \<and> counter_inv s' p q')"
proof (cases "messageCounter s = p mod 2 ^ 32 \<and> (p mod 2 ^ 32 < MAX_COUNTER \<or> hasOnRollover s)")
  case False
  have "p mod 2 ^ 32 < 2 ^ 32" by simp
  then have "\<not> hasOnRollover s" "MAX_COUNTER \<le> messageCounter s" using False i by (auto simp: counter_inv_def)
  then show ?thesis using i
    by (intro exI [of _ q]) (auto simp: getIncrementedCounter_persisted_def getIncrementedCounter_def Let_def counter_inv_def split: option.splits)
next
  case True
  define m where "m = p mod 4294967296"
  define c where "c = (p + 1) mod 4294967296"
  define t where "t = s\<lparr>messageCounter := c\<rparr>"
  have m: "0 \<le> m" "m \<le> MAX_COUNTER" using pos_mod_bound [of 4294967296 p] by (simp_all add: m_def)
  have c: "m < MAX_COUNTER \<Longrightarrow> c = m + 1" "m = MAX_COUNTER \<Longrightarrow> c = 0"
    using position_within(1) [of 1 p] position_wrap [of p] by (simp_all add: m_def c_def)
  obtain called where g: "getIncrementedCounter s = (Inr c, called, t)"
    using True m c by (cases "m < MAX_COUNTER") (auto simp: getIncrementedCounter_def Let_def t_def m_def [symmetric])
  have "\<exists>s'. getIncrementedCounter_persisted s = (Inr c, called, s') \<and> (\<exists>q'. counter_inv s' (p + 1) q')"
  proof (cases "pc_reserve s")
    case None
    then have "counter_inv (t\<lparr>pc_stored := Some c\<rparr>) (p + 1) (p + 1)" by (simp add: counter_inv_def t_def c_def)
    then show ?thesis using g None by (auto simp: getIncrementedCounter_persisted_def t_def)
  next
    case (Some r)
    have r: "0 < r" "r < MAX_COUNTER" "pc_reserved s = Some (q mod 4294967296)"
      "p div 4294967296 = q div 4294967296" "q \<le> p + r" "p \<le> q"
      using i Some by (simp_all add: counter_inv_def)
    show ?thesis
    proof (cases "c \<ge> q mod 4294967296 \<or> c < q mod 4294967296 - r")
      case True
      obtain q' where "counter_inv (reserveAhead r t) (p + 1) q'"
        using reserveAhead_inv [OF r(1,2), of t "p + 1"] Some by (auto simp: t_def c_def)
      then show ?thesis using g Some r True by (auto simp: getIncrementedCounter_persisted_def t_def)
    next
      case False
      have "q mod 4294967296 - m = q - p" using position_split [of p] position_split [of q] r(4) unfolding m_def by linarith
      then have "m \<noteq> MAX_COUNTER" using False c(2) r m pos_mod_bound [of 4294967296 q] by auto
      then have "counter_inv t (p + 1) q"
        using reserve_kept [OF i Some] True False m by (simp add: t_def c_def m_def)
      then show ?thesis using g Some r False by (auto simp: getIncrementedCounter_persisted_def t_def)
    qed
  qed
  then show ?thesis by (auto simp: c_def)
qed

lemma restart_persisted:
  assumes i: "counter_inv s p q"
  shows "\<exists>called s' q'. PersistedMessageCounter r (hasOnRollover s) (rolloverInfoDifference s) (pc_reserve s) None (pc_stored s) =
    Inr (called, s') \<and> counter_inv s' q q'"
proof -
  have st: "pc_stored s = Some (q mod 2 ^ 32)" using i by (simp add: counter_inv_def)
  have b: "0 \<le> q mod 4294967296" "q mod 4294967296 \<le> MAX_COUNTER" using pos_mod_bound [of 4294967296 q] by simp_all
  show ?thesis
  proof (cases "pc_reserve s")
    case None
    then show ?thesis using st b
      by (auto simp: PersistedMessageCounter_def Let_def MessageCounter_def message_counter.defs counter_inv_def intro!: exI [of _ q])
  next
    case (Some x)
    then have x: "0 < x" "x < MAX_COUNTER" using i by (simp_all add: counter_inv_def)
    show ?thesis using st b x Some reserveAhead_inv [OF x]
      by (simp add: PersistedMessageCounter_def Let_def MessageCounter_def message_counter.defs)
  qed
qed

text \<open>The part of the counter line that a life can use up: one position per use, at most the reserved block per restart.\<close>

fun counter_budget :: "int option \<Rightarrow> counter_event list \<Rightarrow> int" where
  "counter_budget reserve [] = 0"
| "counter_budget reserve (Use # es) = 1 + counter_budget reserve es"
| "counter_budget reserve (Restart _ # es) = (case reserve of None \<Rightarrow> 0 | Some r \<Rightarrow> r) + counter_budget reserve es"

abbreviation use_count :: "counter_event list \<Rightarrow> nat" where
  "use_count es \<equiv> length (filter (\<lambda>e. e = Use) es)"

lemma counter_budget_nonneg: "(\<And>r. reserve = Some r \<Longrightarrow> 0 \<le> r) \<Longrightarrow> 0 \<le> counter_budget reserve es"
  by (induction reserve es rule: counter_budget.induct) (simp_all add: option.case_eq_if)

lemma use_keeps:
  assumes "getIncrementedCounter_persisted s = (x, called, s')"
  shows "pc_reserve s' = pc_reserve s" "hasOnRollover s' = hasOnRollover s" "hasOnRollover s \<Longrightarrow> \<exists>c. x = Inr c"
    "x = Inr c \<Longrightarrow> \<not> hasOnRollover s \<Longrightarrow> messageCounter s < MAX_COUNTER"
  using assms
  by (auto simp: getIncrementedCounter_persisted_def getIncrementedCounter_def reserveAhead_def Let_def
      split: option.splits if_splits)

lemma use_same_cycle:
  assumes "counter_inv s p q" "getIncrementedCounter_persisted s = (Inr c, called, s')" "\<not> hasOnRollover s"
  shows "(p + 1) div 2 ^ 32 = p div 2 ^ 32"
proof -
  have "messageCounter s < MAX_COUNTER" by (rule use_keeps(4) [OF assms(2) refl assms(3)])
  then have "p mod 4294967296 < MAX_COUNTER" using assms(1) by (auto simp: counter_inv_def)
  then show ?thesis using position_within(2) [of 1 p] by simp
qed

lemma restart_keeps:
  assumes "PersistedMessageCounter r onRollover info reserve seed stored = Inr (called, s')"
  shows "pc_reserve s' = reserve" "hasOnRollover s' = onRollover"
  using assms
  by (auto simp: PersistedMessageCounter_def MessageCounter_def message_counter.defs Let_def reserveAhead_def bindE_eq_Inr_iff
      split: option.splits if_splits)

text \<open>The positions a life takes: strictly increasing, within the budget, one for every use of a counter that rolls over.\<close>

definition life_positions :: "persisted_counter \<Rightarrow> counter_event list \<Rightarrow> int \<Rightarrow> int list \<Rightarrow> bool" where
  "life_positions s es p ps \<longleftrightarrow> counter_life s es = map (\<lambda>x. x mod 2 ^ 32) ps \<and> sorted_wrt (<) ps \<and>
    (\<forall>x \<in> set ps. p < x \<and> x \<le> p + counter_budget (pc_reserve s) es) \<and>
    (hasOnRollover s \<longrightarrow> length ps = use_count es) \<and>
    (\<not> hasOnRollover s \<longrightarrow> (\<forall>x \<in> set ps. x div 2 ^ 32 = p div 2 ^ 32))"

lemma life_use:
  assumes i: "counter_inv s p q" and u: "getIncrementedCounter_persisted s = (Inr ((p + 1) mod 2 ^ 32), called, s')"
    and ps: "life_positions s' es (p + 1) ps" and b: "0 \<le> counter_budget (pc_reserve s) es"
  shows "life_positions s (Use # es) p ((p + 1) # ps)"
  using ps b u use_keeps(1,2) [OF u] use_same_cycle [OF i u]
  by (fastforce simp: life_positions_def)

lemma life_stuck:
  assumes u: "getIncrementedCounter_persisted s = (Inl e, called, s')" and ps: "life_positions s' es p ps"
  shows "life_positions s (Use # es) p ps"
  using ps u use_keeps(1-3) [OF u] by (fastforce simp: life_positions_def)

lemma life_restart:
  assumes i: "counter_inv s p q"
    and r: "PersistedMessageCounter r (hasOnRollover s) (rolloverInfoDifference s) (pc_reserve s) None (pc_stored s) = Inr (called, s')"
    and ps: "life_positions s' es q ps"
  shows "life_positions s (Restart r # es) p ps"
proof -
  have q: "p \<le> q" "q \<le> p + (case pc_reserve s of None \<Rightarrow> 0 | Some r \<Rightarrow> r)" "p div 2 ^ 32 = q div 2 ^ 32"
    using i by (simp_all add: counter_inv_def split: option.splits)
  show ?thesis using ps r q restart_keeps [OF r] by (fastforce simp: life_positions_def)
qed

lemma life_increasing: "counter_inv s p q \<Longrightarrow> \<exists>ps. life_positions s es p ps"
proof (induction es arbitrary: s p q)
  case Nil
  then show ?case by (simp add: life_positions_def)
next
  case (Cons e es)
  show ?case
  proof (cases e)
    case Use
    have "0 \<le> counter_budget (pc_reserve s) es"
      using Cons.prems by (intro counter_budget_nonneg) (simp add: counter_inv_def)
    then show ?thesis using use_persisted [OF Cons.prems] Cons.IH life_use [OF Cons.prems] life_stuck Use by metis
  next
    case (Restart r)
    then show ?thesis using restart_persisted [OF Cons.prems] Cons.IH life_restart [OF Cons.prems] by metis
  qed
qed

text \<open>Positions closer than a whole cycle have different counters, in the order of the positions.\<close>

lemma offset_position:
  fixes p x :: int
  assumes "p < x" "x < p + 2 ^ 32"
  shows "(x mod 2 ^ 32 - p mod 2 ^ 32) mod 2 ^ 32 = x - p"
  using assms by (simp add: mod_diff_eq)

lemma offsets_sorted:
  fixes ps :: "int list"
  assumes "sorted_wrt (<) ps" "\<forall>x \<in> set ps. p < x \<and> x < p + 2 ^ 32"
  shows "sorted_wrt (<) (0 # map (\<lambda>c. (c - p mod 2 ^ 32) mod 2 ^ 32) (map (\<lambda>x. x mod 2 ^ 32) ps))"
proof -
  have "map (\<lambda>c. (c - p mod 2 ^ 32) mod 2 ^ 32) (map (\<lambda>x. x mod 2 ^ 32) ps) = map (\<lambda>x. x - p) ps"
    unfolding map_map comp_def using assms(2) by (intro map_cong refl offset_position) simp_all
  then show ?thesis using assms by (simp only:) (simp add: sorted_wrt_map)
qed

lemma offsets_distinct:
  fixes cs :: "int list"
  assumes "sorted_wrt (<) (0 # map (\<lambda>c. (c - m) mod 2 ^ 32) cs)"
  shows "distinct (m # cs)"
proof -
  have "distinct (map (\<lambda>c. (c - m) mod 2 ^ 32) (m # cs))"
    using assms strict_sorted_iff [of "0 # map (\<lambda>c. (c - m) mod 2 ^ 32) cs"] by simp
  then show ?thesis by (simp only: distinct_map)
qed

lemma counter_range: "0 \<le> x mod 4294967296" "x mod 4294967296 \<le> MAX_COUNTER" for x :: int
  using pos_mod_bound [of 4294967296 x] by simp_all

lemma same_cycle_sorted:
  fixes ps :: "int list"
  assumes "sorted_wrt (<) ps" "\<forall>x \<in> set ps. p < x \<and> x div 2 ^ 32 = p div 2 ^ 32"
  shows "sorted_wrt (<) (p mod 2 ^ 32 # map (\<lambda>x. x mod 2 ^ 32) ps)"
proof -
  have c: "x < y \<Longrightarrow> x div 2 ^ 32 = p div 2 ^ 32 \<Longrightarrow> y div 2 ^ 32 = p div 2 ^ 32 \<Longrightarrow> x mod 2 ^ 32 < y mod 2 ^ 32" for x y
    using position_split [of x] position_split [of y] by simp
  have "sorted_wrt (\<lambda>x y. x mod 2 ^ 32 < y mod 2 ^ 32) ps"
    by (rule sorted_wrt_mono_rel [OF _ assms(1)]) (use assms(2) c in blast)
  then show ?thesis using assms(2) c [of p] by (simp add: sorted_wrt_map)
qed

lemma construct_inv:
  assumes "PersistedMessageCounter rnd onRollover info reserve seed stored = Inr (called, s)" "0 \<le> rnd" "rnd < 2 ^ 32"
    "reserve = Some r \<and> r < MAX_COUNTER \<or> reserve = None \<and> stored \<noteq> None"
  shows "\<exists>q. counter_inv s (messageCounter s) q \<and> hasOnRollover s = onRollover \<and>
    0 \<le> messageCounter s \<and> messageCounter s < 2 ^ 32"
proof -
  have u: "0 \<le> js_ushr rnd 4 + 1" "js_ushr rnd 4 + 1 < 2 ^ 32"
    using assms(2,3) by (simp_all add: js_ushr_def to_uint32_id drop_bit_eq_div)
  show ?thesis
  proof (cases reserve)
    case None
    then show ?thesis using assms(1,4)
      by (auto simp: PersistedMessageCounter_def Let_def MessageCounter_def message_counter.defs counter_inv_def split: if_splits)
  next
    case (Some r')
    then have r: "0 < r'" "r' < MAX_COUNTER" using assms(1,4) by (auto simp: PersistedMessageCounter_def split: if_splits)
    define t where "t = \<lparr>messageCounter = (case stored of Some v \<Rightarrow> v | None \<Rightarrow> case seed of Some v \<Rightarrow> v | None \<Rightarrow> js_ushr rnd 4 + 1),
      hasOnRollover = onRollover, rolloverInfoDifference = info, pc_reserve = Some r', pc_reserved = None, pc_stored = stored\<rparr>"
    have t: "s = reserveAhead r' t" "pc_reserve t = Some r'" "hasOnRollover t = onRollover"
        "0 \<le> messageCounter t" "messageCounter t < 2 ^ 32"
      using assms(1) Some u
      by (auto simp: t_def PersistedMessageCounter_def Let_def MessageCounter_def message_counter.defs bindE_eq_Inr_iff
          split: if_splits option.splits)
    have "messageCounter s = messageCounter t" by (simp add: t(1) reserveAhead_def Let_def)
    then show ?thesis using reserveAhead_inv [OF r t(2), of "messageCounter t"] t by (auto simp: reserveAhead_def Let_def)
  qed
qed

section \<open>Properties\<close>

text \<open>
  C20: a persisted counter that reserves a block ahead, or that starts from a stored value, never issues a
  counter twice over a life with any number of unclean restarts, as long as the life does not use up the whole
  range of 32 bits (one value per use, at most the reserved block per restart): the values are distinct from each
  other and from the starting value, and issued in increasing order counted from the starting value.  With a
  rollover callback every use is answered; without one the values increase strictly as numbers, over a life of
  any length, so that nothing is ever issued again.
\<close>

theorem restart_never_reissues:
  assumes "PersistedMessageCounter rnd onRollover info reserve seed stored = Inr (called, s)" "0 \<le> rnd" "rnd < 2 ^ 32"
    "reserve = Some r \<and> r < MAX_COUNTER \<or> reserve = None \<and> stored \<noteq> None"
  shows "(counter_budget reserve es < 2 ^ 32 \<longrightarrow> distinct (messageCounter s # counter_life s es) \<and>
      sorted_wrt (<) (0 # map (\<lambda>c. (c - messageCounter s) mod 2 ^ 32) (counter_life s es))) \<and>
    (onRollover \<longrightarrow> length (counter_life s es) = use_count es) \<and>
    (\<not> onRollover \<longrightarrow> sorted_wrt (<) (messageCounter s # counter_life s es)) \<and>
    set (counter_life s es) \<subseteq> {0..MAX_COUNTER}"
proof -
  obtain q where i: "counter_inv s (messageCounter s) q" "hasOnRollover s = onRollover" "0 \<le> messageCounter s" "messageCounter s < 2 ^ 32"
    using construct_inv [OF assms] by blast
  obtain ps where ps: "life_positions s es (messageCounter s) ps" using life_increasing [OF i(1)] by blast
  have m: "messageCounter s mod 2 ^ 32 = messageCounter s" using i(3,4) by simp
  have k: "pc_reserve s = reserve" by (rule restart_keeps(1) [OF assms(1)])
  have o: "counter_budget reserve es < 2 ^ 32 \<Longrightarrow>
      sorted_wrt (<) (0 # map (\<lambda>c. (c - messageCounter s) mod 2 ^ 32) (counter_life s es))"
    using offsets_sorted [of ps "messageCounter s"] ps unfolding life_positions_def k m by fastforce
  have l: "\<not> onRollover \<Longrightarrow> sorted_wrt (<) (messageCounter s # counter_life s es)"
    using same_cycle_sorted [of ps "messageCounter s"] ps i(2) unfolding life_positions_def m by simp
  have r: "set (counter_life s es) \<subseteq> {0..MAX_COUNTER}"
    using ps counter_range by (auto simp: life_positions_def)
  show ?thesis using o offsets_distinct [OF o] l r ps i(2) by (simp add: life_positions_def)
qed

theorem restart_never_reissues_witness:
  "\<exists>called s called' s'. PersistedMessageCounter 0 True 100 (Some 10) None (Some 4294967290) = Inr (called, s) \<and>
    counter_life s [Use, Use, Restart 0, Use, Use, Restart 0, Use] = [4294967291, 4294967292, 0, 1, 11] \<and>
    distinct (messageCounter s # [4294967291, 4294967292, 0, 1, 11]) \<and>
    PersistedMessageCounter 0 False 100 (Some 10) None (Some 4294967290) = Inr (called', s') \<and>
    counter_life s' [Use, Use, Restart 0, Use, Use, Restart 0, Use] = [4294967291, 4294967292] \<and>
    sorted_wrt (<) (messageCounter s' # [4294967291, 4294967292])"
proof -
  define s where "s b = \<lparr>messageCounter = 4294967290, hasOnRollover = b, rolloverInfoDifference = 100,
    pc_reserve = Some 10, pc_reserved = Some 4294967295, pc_stored = Some 4294967295\<rparr>" for b
  define es where "es = [Use, Use, Restart 0, Use, Use, Restart 0, Use]"
  have c: "PersistedMessageCounter 0 True 100 (Some 10) None (Some 4294967290) = Inr (True, s True)"
    "PersistedMessageCounter 0 False 100 (Some 10) None (Some 4294967290) = Inr (False, s False)"
    unfolding s_def by code_simp+
  have l: "counter_life (s True) es = [4294967291, 4294967292, 0, 1, 11]" "counter_life (s False) es = [4294967291, 4294967292]"
    unfolding s_def es_def by code_simp+
  have b: "counter_budget (Some 10) es < 2 ^ 32" by (simp add: es_def)
  have "distinct (messageCounter (s True) # counter_life (s True) es)"
    using restart_never_reissues [OF c(1), of 10 es] b by simp
  moreover have "sorted_wrt (<) (messageCounter (s False) # counter_life (s False) es)"
    using restart_never_reissues [OF c(2), of 10 es] by simp
  ultimately show ?thesis
    using c l unfolding l
    by (intro exI [of _ True] exI [of _ "s True"] exI [of _ False] exI [of _ "s False"]) (simp only: es_def [symmetric] l simp_thms)
qed

end
