(* ===== verification/Btp_Codec.thy ===== *)
theory Btp_Codec
  imports Data_IO
begin

text \<open>
  \<open>BtpCodec\<close>: the packets of the Bluetooth transport protocol, its handshake and the advertisement data.

  The lemmas show that packets, handshakes and advertisements are decoded to what was encoded, which packets the
  encoder refuses, and where the advertisement decoder does not undo the encoder.
\<close>

section \<open>Data\<close>

record BtpHandshakeRequest =
  versions :: "int list"
  req_attMtu :: int
  clientWindowSize :: int

record BtpHandshakeResponse =
  version :: int
  rsp_attMtu :: int
  windowSize :: int

record BtpPacketPayload =
  ackNumber :: "int option"
  sequenceNumber :: int
  messageLength :: "int option"
  segmentPayload :: "bytes option"

record BtpHeader =
  isHandshakeRequest :: bool
  hasManagementOpcode :: bool
  hasAckNumber :: bool
  isEndingSegment :: bool
  isContinuingSegment :: bool
  isBeginningSegment :: bool

type_synonym BtpPacket = "BtpHeader \<times> BtpPacketPayload"

abbreviation (input) HANDSHAKE_HEADER :: int where "HANDSHAKE_HEADER \<equiv> 0x65"
abbreviation (input) HandshakeManagementOpcode :: int where "HandshakeManagementOpcode \<equiv> 0x6c"

section \<open>Packets\<close>

definition decodeBtpPacketHeader :: "BtpHeader read" where
  "decodeBtpPacketHeader r = bindE (readUInt8 r) (\<lambda>(headerBits, r).
    if has_flag headerBits 0x20 then Inl BtpProtocolError
    else Inr (\<lparr>isHandshakeRequest = has_flag headerBits 0x40, hasManagementOpcode = has_flag headerBits 0x20,
      hasAckNumber = has_flag headerBits 0x08, isEndingSegment = has_flag headerBits 0x04,
      isContinuingSegment = has_flag headerBits 0x02, isBeginningSegment = has_flag headerBits 0x01\<rparr>, r))"

definition decodeBtpPacketPayload :: "BtpHeader \<Rightarrow> BtpPacketPayload read" where
  "decodeBtpPacketPayload h r =
    bindE (read_if (hasAckNumber h) readUInt8 r) (\<lambda>(ack, r).
    bindE (readUInt8 r) (\<lambda>(sn, r).
    bindE (read_if (isBeginningSegment h) readUInt16 r) (\<lambda>(len, r).
    Inr (\<lparr>ackNumber = ack, sequenceNumber = sn, messageLength = len, segmentPayload = Some (remainingBytes r)\<rparr>, r))))"

definition decodeBtpPacket :: "bytes \<Rightarrow> error + BtpPacket" where
  "decodeBtpPacket data =
    bindE (decodeBtpPacketHeader (DataReader data True)) (\<lambda>(h, r).
    bindE (decodeBtpPacketPayload h r) (\<lambda>(p, r). Inr (h, p)))"

definition encodeBtpPacketHeader :: "BtpHeader \<Rightarrow> error + bytes" where
  "encodeBtpPacketHeader h =
    (if isHandshakeRequest h \<or> hasManagementOpcode h then Inl BtpProtocolError
     else to_bytes (writeUInt8
       (js_or (js_or (js_or (if hasAckNumber h then 0x08 else 0) (if isEndingSegment h then 0x04 else 0))
         (if isContinuingSegment h then 0x02 else 0)) (if isBeginningSegment h then 0x01 else 0)) (DataWriter True)))"

definition encodeBtpPacketPayload :: "BtpHeader \<Rightarrow> BtpPacketPayload \<Rightarrow> error + bytes" where
  "encodeBtpPacketPayload h p =
    (if \<not> hasAckNumber h \<and> ackNumber p \<noteq> None then Inl BtpProtocolError
     else if hasAckNumber h \<and> ackNumber p = None then Inl BtpProtocolError
     else if isBeginningSegment h \<and> isContinuingSegment h then Inl BtpProtocolError
     else if isEndingSegment h \<and> \<not> isContinuingSegment h \<and> \<not> isBeginningSegment h then Inl BtpProtocolError
     else if (isBeginningSegment h \<or> isContinuingSegment h) \<and>
         (case segmentPayload p of None \<Rightarrow> True | Some bs \<Rightarrow> bs = []) then Inl BtpProtocolError
     else if isBeginningSegment h \<and> messageLength p = None then Inl BtpProtocolError
     else if \<not> isBeginningSegment h \<and> messageLength p \<noteq> None then Inl BtpProtocolError
     else
       let w = DataWriter True;
           w = (case ackNumber p of None \<Rightarrow> w | Some a \<Rightarrow> writeUInt8 a w);
           w = writeUInt8 (sequenceNumber p) w;
           w = (case messageLength p of None \<Rightarrow> w | Some n \<Rightarrow> writeUInt16 n w);
           w = (case segmentPayload p of None \<Rightarrow> w | Some bs \<Rightarrow> writeByteArray bs w)
       in to_bytes w)"

definition encodeBtpPacket :: "BtpPacket \<Rightarrow> error + bytes" where
  "encodeBtpPacket packet = (case packet of (h, p) \<Rightarrow>
    bindE (encodeBtpPacketHeader h) (\<lambda>hb. bindE (encodeBtpPacketPayload h p) (\<lambda>pb. Inr (hb @ pb))))"

section \<open>The handshake\<close>

text \<open>An absent array entry is \<open>undefined\<close>, which the bit operators treat as zero.\<close>

definition version_at :: "int list \<Rightarrow> nat \<Rightarrow> int" where
  "version_at vs i = (if i < length vs then vs ! i else 0)"

definition encodeBtpHandshakeRequest :: "BtpHandshakeRequest \<Rightarrow> error + bytes" where
  "encodeBtpHandshakeRequest q =
    (let v = version_at (versions q);
         w = writeUInt8 HandshakeManagementOpcode (writeUInt8 HANDSHAKE_HEADER (DataWriter True));
         w = writeUInt8 (js_or (js_shl (v 1) 4) (v 0)) w;
         w = writeUInt8 (js_or (js_shl (v 3) 4) (v 2)) w;
         w = writeUInt8 (js_or (js_shl (v 5) 4) (v 4)) w;
         w = writeUInt8 (js_or (js_shl (v 7) 4) (v 6)) w;
         w = writeUInt8 (clientWindowSize q) (writeUInt16 (req_attMtu q) w)
     in to_bytes w)"

definition handshake_versions :: "int list \<Rightarrow> int list" where
  "handshake_versions ver = filter (\<lambda>v. v \<noteq> 0) (concat (map (\<lambda>v. [js_and v 0x0f, js_shr (js_and v 0xf0) 4]) ver))"

definition decodeHandshakeRequestPayload :: "BtpHandshakeRequest read" where
  "decodeHandshakeRequestPayload r =
    bindE (readUInt8 r) (\<lambda>(h, r).
    bindE (readUInt8 r) (\<lambda>(opcode, r).
    bindE (readUInt8 r) (\<lambda>(v10, r).
    if h \<noteq> HANDSHAKE_HEADER then Inl BtpProtocolError
    else if opcode \<noteq> HandshakeManagementOpcode then Inl BtpProtocolError
    else
    bindE (readUInt8 r) (\<lambda>(v32, r).
    bindE (readUInt8 r) (\<lambda>(v54, r).
    bindE (readUInt8 r) (\<lambda>(v76, r).
    let vs = handshake_versions [v10, v32, v54, v76] in
    if vs = [] then Inl BtpProtocolError
    else
    bindE (readUInt16 r) (\<lambda>(mtu, r).
    bindE (readUInt8 r) (\<lambda>(win, r).
    Inr (\<lparr>versions = vs, req_attMtu = mtu, clientWindowSize = win\<rparr>, r)))))))))"

definition decodeBtpHandshakeRequest :: "bytes \<Rightarrow> error + BtpHandshakeRequest" where
  "decodeBtpHandshakeRequest data = bindE (decodeHandshakeRequestPayload (DataReader data True)) (\<lambda>(q, r). Inr q)"

definition encodeBtpHandshakeResponse :: "BtpHandshakeResponse \<Rightarrow> error + bytes" where
  "encodeBtpHandshakeResponse p =
    to_bytes (writeUInt8 (windowSize p) (writeUInt16 (rsp_attMtu p) (writeUInt8 (js_and (version p) 0x0f)
      (writeUInt8 HandshakeManagementOpcode (writeUInt8 HANDSHAKE_HEADER (DataWriter True))))))"

definition decodeBtpHandshakeResponsePayload :: "bytes \<Rightarrow> error + BtpHandshakeResponse" where
  "decodeBtpHandshakeResponsePayload data =
    bindE (readUInt8 (DataReader data True)) (\<lambda>(h, r).
    if h \<noteq> HANDSHAKE_HEADER then Inl BtpProtocolError
    else
    bindE (readUInt8 r) (\<lambda>(opcode, r).
    if opcode \<noteq> HandshakeManagementOpcode then Inl BtpProtocolError
    else
    bindE (readUInt8 r) (\<lambda>(v, r).
    bindE (readUInt16 r) (\<lambda>(mtu, r).
    bindE (readUInt8 r) (\<lambda>(win, r).
    Inr \<lparr>version = js_and v 0x0f, rsp_attMtu = mtu, windowSize = win\<rparr>)))))"

section \<open>Advertisements\<close>

record ble_advertisement =
  adv_discriminator :: int
  adv_vendorId :: int
  adv_productId :: int
  adv_hasAdditionalAdvertisementData :: bool

definition encodeBleAdvertisementData :: "int \<Rightarrow> int \<Rightarrow> int \<Rightarrow> bool \<Rightarrow> bool \<Rightarrow> error + bytes" where
  "encodeBleAdvertisementData discriminator vendorId productId additional extended =
    (let w = writeUInt8 0x16 (writeUInt8 0x0b (writeUInt8 0x06 (writeUInt8 0x01 (writeUInt8 0x02 (DataWriter True)))));
         w = writeUInt8 0x00 (writeUInt16 0xfff6 w);
         w = writeUInt16 discriminator w;
         w = writeUInt16 (if extended then 0 else vendorId) w;
         w = writeUInt16 (if extended then 0 else productId) w;
         w = writeUInt8 (js_or (if additional then 1 else 0) (if extended then 2 else 0)) w
     in to_bytes w)"

definition decodeBleAdvertisementServiceData :: "bytes \<Rightarrow> error + ble_advertisement" where
  "decodeBleAdvertisementServiceData data =
    bindE (readUInt8 (DataReader data True)) (\<lambda>(z, r).
    if z \<noteq> 0x00 then Inl BleError
    else
    bindE (readUInt16 r) (\<lambda>(d, r).
    bindE (readUInt16 r) (\<lambda>(v, r).
    bindE (readUInt16 r) (\<lambda>(p, r).
    bindE (readUInt8 r) (\<lambda>(f, r).
    Inr \<lparr>adv_discriminator = d, adv_vendorId = v, adv_productId = p, adv_hasAdditionalAdvertisementData = (f \<noteq> 0)\<rparr>)))))"

text \<open>The bytes of the fixed prefix are compared one after the other; the first difference ends the reading.\<close>

fun expect_bytes :: "int list \<Rightarrow> data_reader \<Rightarrow> error + data_reader" where
  "expect_bytes [] r = Inr r"
| "expect_bytes (b # bs) r = bindE (readUInt8 r) (\<lambda>(v, r). if v \<noteq> b then Inl BleError else expect_bytes bs r)"

definition decodeBleAdvertisementData :: "bytes \<Rightarrow> error + ble_advertisement" where
  "decodeBleAdvertisementData data =
    bindE (expect_bytes [0x02, 0x01, 0x06, 0x0b, 0x16] (DataReader data True)) (\<lambda>r.
    bindE (readUInt16 r) (\<lambda>(uuid, r).
    if uuid \<noteq> 0xfff6 then Inl BleError else decodeBleAdvertisementServiceData (remainingBytes r)))"

section \<open>Packets as bytes\<close>

text \<open>The packets the encoder accepts, with numbers within their fields.\<close>

definition sendable :: "BtpPacket \<Rightarrow> bool" where
  "sendable packet \<longleftrightarrow> (case packet of (h, p) \<Rightarrow>
    \<not> isHandshakeRequest h \<and> \<not> hasManagementOpcode h \<and> (hasAckNumber h \<longleftrightarrow> ackNumber p \<noteq> None) \<and>
    \<not> (isBeginningSegment h \<and> isContinuingSegment h) \<and>
    (isEndingSegment h \<longrightarrow> isContinuingSegment h \<or> isBeginningSegment h) \<and>
    (isBeginningSegment h \<or> isContinuingSegment h \<longrightarrow> segmentPayload p \<noteq> None \<and> segmentPayload p \<noteq> Some []) \<and>
    (isBeginningSegment h \<longleftrightarrow> messageLength p \<noteq> None))"

definition btp_in_range :: "BtpPacketPayload \<Rightarrow> bool" where
  "btp_in_range p \<longleftrightarrow> opt_below (2 ^ 8) (ackNumber p) \<and> 0 \<le> sequenceNumber p \<and> sequenceNumber p < 2 ^ 8 \<and>
    opt_below (2 ^ 16) (messageLength p)"

definition btp_flags :: "BtpHeader \<Rightarrow> int" where
  "btp_flags h = (if hasAckNumber h then 8 else 0) + (if isEndingSegment h then 4 else 0) +
    (if isContinuingSegment h then 2 else 0) + (if isBeginningSegment h then 1 else 0)"

lemma btp_flags_or:
  "js_or (js_or (js_or (if hasAckNumber h then 8 else 0) (if isEndingSegment h then 4 else 0))
    (if isContinuingSegment h then 2 else 0)) (if isBeginningSegment h then 1 else 0) = btp_flags h"
  by (cases "hasAckNumber h"; cases "isEndingSegment h"; cases "isContinuingSegment h"; cases "isBeginningSegment h")
    (simp_all add: btp_flags_def js_or_eval)

lemma btp_flags_test [simp]:
  "has_flag (btp_flags h) 0x40 = False" "has_flag (btp_flags h) 0x20 = False"
  "has_flag (btp_flags h) 8 = hasAckNumber h" "has_flag (btp_flags h) 4 = isEndingSegment h"
  "has_flag (btp_flags h) 2 = isContinuingSegment h" "has_flag (btp_flags h) 1 = isBeginningSegment h"
  "toNumber (btp_flags h) = btp_flags h" "btp_flags h mod 256 = btp_flags h"
  by (cases "hasAckNumber h"; cases "isEndingSegment h"; cases "isContinuingSegment h"; cases "isBeginningSegment h";
      simp add: btp_flags_def js_or_eval has_flag_def toNumber_small)+

definition btp_payload_bytes :: "BtpPacketPayload \<Rightarrow> bytes" where
  "btp_payload_bytes p = (case ackNumber p of None \<Rightarrow> [] | Some a \<Rightarrow> [word_of_int a]) @ [word_of_int (sequenceNumber p)] @
    (case messageLength p of None \<Rightarrow> [] | Some n \<Rightarrow> le_bytes 2 n) @ (case segmentPayload p of None \<Rightarrow> [] | Some bs \<Rightarrow> bs)"

definition btp_packet_bytes :: "BtpPacket \<Rightarrow> bytes" where
  "btp_packet_bytes packet = word_of_int (btp_flags (fst packet)) # btp_payload_bytes (snd packet)"

lemma encodeBtpPacketHeader_bytes:
  "\<not> isHandshakeRequest h \<Longrightarrow> \<not> hasManagementOpcode h \<Longrightarrow> encodeBtpPacketHeader h = Inr [word_of_int (btp_flags h)]"
  unfolding encodeBtpPacketHeader_def btp_flags_or by (simp add: io_simps)

lemma encodeBtpPacketPayload_bytes:
  "sendable (h, p) \<Longrightarrow> btp_in_range p \<Longrightarrow> encodeBtpPacketPayload h p = Inr (btp_payload_bytes p)"
  unfolding sendable_def prod.case btp_in_range_def
  by (cases "ackNumber p"; cases "messageLength p"; cases "segmentPayload p")
    (auto simp: encodeBtpPacketPayload_def btp_payload_bytes_def io_simps)

lemma encodeBtpPacket_bytes:
  assumes "sendable (h, p)" "btp_in_range p"
  shows "encodeBtpPacket (h, p) = Inr (btp_packet_bytes (h, p))"
proof -
  have "\<not> isHandshakeRequest h" "\<not> hasManagementOpcode h" using assms(1) by (simp_all add: sendable_def)
  then show ?thesis using encodeBtpPacketPayload_bytes [OF assms]
    by (simp add: encodeBtpPacket_def btp_packet_bytes_def encodeBtpPacketHeader_bytes)
qed

lemma decodeBtpPacket_bytes:
  assumes "sendable (h, p)" "btp_in_range p"
  shows "decodeBtpPacket (btp_packet_bytes (h, p)) =
    Inr (h, p\<lparr>segmentPayload := Some (case segmentPayload p of None \<Rightarrow> [] | Some bs \<Rightarrow> bs)\<rparr>)"
  using assms unfolding sendable_def prod.case btp_in_range_def
  by (cases h; cases p; cases "ackNumber p"; cases "messageLength p")
    (simp_all add: decodeBtpPacket_def decodeBtpPacketHeader_def decodeBtpPacketPayload_def btp_packet_bytes_def
      btp_payload_bytes_def io_simps read_if_def)

lemma readUInt8_range: "readUInt8 r = Inr (v, r') \<Longrightarrow> 0 \<le> v \<and> v \<le> 255"
proof -
  have "0 \<le> le_value bs \<and> le_value bs \<le> 255" if "length bs \<le> 1" for bs :: bytes
    using that le_value_less [of bs] power_increasing [of "length bs" 1 "256 :: int"] by (simp add: le_value_nonneg)
  then show "readUInt8 r = Inr (v, r') \<Longrightarrow> 0 \<le> v \<and> v \<le> 255"
    by (auto simp: readUInt8_def bindE_eq_Inr_iff dv_get_def subarray_def)
qed

lemma handshake_window:
  "decodeBtpHandshakeRequest data = Inr q \<Longrightarrow> 0 \<le> clientWindowSize q \<and> clientWindowSize q \<le> 255"
  "decodeBtpHandshakeResponsePayload data = Inr p \<Longrightarrow> 0 \<le> windowSize p \<and> windowSize p \<le> 255"
  by (auto simp: decodeBtpHandshakeRequest_def decodeHandshakeRequestPayload_def decodeBtpHandshakeResponsePayload_def
      bindE_eq_Inr_iff Let_def split: if_splits dest: readUInt8_range)

text \<open>What a decoded packet looks like.\<close>

lemma decodeBtpPacket_inv:
  assumes "decodeBtpPacket data = Inr (h, p)"
  shows "btp_in_range p" "(ackNumber p \<noteq> None) = hasAckNumber h" "(messageLength p \<noteq> None) = isBeginningSegment h"
    "\<exists>bs. segmentPayload p = Some bs \<and> length bs \<le> length data"
proof -
  obtain r1 where h: "decodeBtpPacketHeader (DataReader data True) = Inr (h, r1)"
    using assms by (auto simp: decodeBtpPacket_def bindE_eq_Inr_iff)
  then obtain bits where b: "readUInt8 (DataReader data True) = Inr (bits, r1)"
    by (auto simp: decodeBtpPacketHeader_def bindE_eq_Inr_iff split: if_splits)
  obtain r2 r3 r4 ack seq len where p: "read_if (hasAckNumber h) readUInt8 r1 = Inr (ack, r2)" "readUInt8 r2 = Inr (seq, r3)"
      "read_if (isBeginningSegment h) readUInt16 r3 = Inr (len, r4)"
      "p = \<lparr>ackNumber = ack, sequenceNumber = seq, messageLength = len, segmentPayload = Some (remainingBytes r4)\<rparr>"
    using assms h by (auto simp: decodeBtpPacket_def decodeBtpPacketPayload_def bindE_eq_Inr_iff)
  note r1 = read_inv(1) [OF reader_over_DataReader b, THEN conjunct1]
  note r2 = read_if_inv [OF read_inv(1) [OF r1] r1 p(1)]
  note r3 = read_inv(1) [OF r2(1) p(2)]
  note r4 = read_if_inv [OF read_inv(2) [OF r3 [THEN conjunct1]] r3 [THEN conjunct1] p(3)]
  show "btp_in_range p" "(ackNumber p \<noteq> None) = hasAckNumber h" "(messageLength p \<noteq> None) = isBeginningSegment h"
    using r2 r3 r4 by (simp_all add: p(4) btp_in_range_def)
  show "\<exists>bs. segmentPayload p = Some bs \<and> length bs \<le> length data"
    using reader_over_remaining [OF r4(1)] by (auto simp: p(4))
qed

section \<open>Properties\<close>

text \<open>
  C35: the encoder accepts exactly the packets whose header flags and payload fields agree, and the decoder gives
  back what was encoded.  A packet without payload comes back with an empty one.
\<close>

theorem btp_packet_roundtrip:
  assumes "btp_in_range p"
  shows "if sendable (h, p)
    then \<exists>bs. encodeBtpPacket (h, p) = Inr bs \<and>
      decodeBtpPacket bs = Inr (h, p\<lparr>segmentPayload := Some (case segmentPayload p of None \<Rightarrow> [] | Some bs \<Rightarrow> bs)\<rparr>)
    else encodeBtpPacket (h, p) = Inl BtpProtocolError"
proof (cases "sendable (h, p)")
  case True
  then show ?thesis using encodeBtpPacket_bytes [OF True assms] decodeBtpPacket_bytes [OF True assms] by simp
next
  case False
  have "encodeBtpPacket (h, p) = Inl BtpProtocolError"
  proof (cases "isHandshakeRequest h \<or> hasManagementOpcode h")
    case True
    then show ?thesis by (simp add: encodeBtpPacket_def encodeBtpPacketHeader_def)
  next
    case header: False
    then have "encodeBtpPacketPayload h p = Inl BtpProtocolError"
      using False by (auto simp: sendable_def encodeBtpPacketPayload_def split: option.splits)
    then show ?thesis using header by (simp add: encodeBtpPacket_def encodeBtpPacketHeader_bytes)
  qed
  then show ?thesis using False by simp
qed

theorem btp_packet_roundtrip_witness:
  "\<exists>bs. encodeBtpPacket (\<lparr>isHandshakeRequest = False, hasManagementOpcode = False, hasAckNumber = True, isEndingSegment = True,
      isContinuingSegment = False, isBeginningSegment = True\<rparr>,
      \<lparr>ackNumber = Some 3, sequenceNumber = 4, messageLength = Some 2, segmentPayload = Some [7, 8]\<rparr>) = Inr bs \<and>
    decodeBtpPacket bs = Inr (\<lparr>isHandshakeRequest = False, hasManagementOpcode = False, hasAckNumber = True, isEndingSegment = True,
      isContinuingSegment = False, isBeginningSegment = True\<rparr>,
      \<lparr>ackNumber = Some 3, sequenceNumber = 4, messageLength = Some 2, segmentPayload = Some [7, 8]\<rparr>)"
  using btp_packet_roundtrip [of "\<lparr>ackNumber = Some 3, sequenceNumber = 4, messageLength = Some 2, segmentPayload = Some [7, 8]\<rparr>"
      "\<lparr>isHandshakeRequest = False, hasManagementOpcode = False, hasAckNumber = True, isEndingSegment = True,
      isContinuingSegment = False, isBeginningSegment = True\<rparr>"]
  by (simp add: btp_in_range_def sendable_def)

lemma nibbles:
  assumes "0 \<le> a" "a < 16" "0 \<le> b" "b < 16"
  shows "js_or (js_shl a 4) b = a * 16 + b" "js_and (a * 16 + b) 0x0f = b" "js_shr (js_and (a * 16 + b) 0xf0) 4 = a"
proof -
  have s: "js_shl a 4 = a * 16" using assms(1,2) by (simp add: js_shl_def to_int32_id push_bit_eq_mult)
  show "js_or (js_shl a 4) b = a * 16 + b"
    unfolding s using or_low_part [of b 4 a] assms by (simp add: js_or_def to_int32_id)
  have l: "(a * 16 + b) AND 15 = b"
    using take_bit_eq_mask [of 4 "a * 16 + b"] assms by (simp add: mask_eq_exp_minus_1 take_bit_eq_mod)
  then show "js_and (a * 16 + b) 0x0f = b" using assms by (simp add: js_and_def to_int32_id)
  have "drop_bit 4 ((a * 16 + b) AND 0xf0) = drop_bit 4 (a * 16 + b) AND drop_bit 4 0xf0" by (rule drop_bit_and)
  also have "\<dots> = a AND 15" using assms by (simp add: drop_bit_eq_div)
  also have "\<dots> = a" using take_bit_eq_mask [of 4 a] assms by (simp add: mask_eq_exp_minus_1 take_bit_int_eq_self)
  finally have d: "drop_bit 4 ((a * 16 + b) AND 0xf0) = a" .
  have "0 \<le> (a * 16 + b) AND 0xf0" "(a * 16 + b) AND 0xf0 \<le> 0xf0" using assms by (simp_all add: AND_upper2)
  then have e: "to_int32 ((a * 16 + b) AND 0xf0) = (a * 16 + b) AND 0xf0" by (intro to_int32_id) linarith+
  have x: "to_int32 (a * 16 + b) = a * 16 + b" "to_int32 0xf0 = 0xf0" "nat (4 mod 32) = 4"
    using assms by (simp_all add: to_int32_id)
  show "js_shr (js_and (a * 16 + b) 0xf0) 4 = a" unfolding js_and_def js_shr_def x e d ..
qed

text \<open>
  C36: a handshake request that offers between one and eight versions is decoded to the same versions, MTU and
  window, and a handshake response to the same version, MTU and window.
\<close>

theorem btp_handshake_roundtrip:
  assumes "vs \<noteq> []" "length vs \<le> 8" "list_all (\<lambda>v. 0 < v \<and> v < 16) vs" "0 < v" "v < 16"
    "0 \<le> mtu" "mtu < 2 ^ 16" "0 \<le> win" "win < 2 ^ 8"
  shows "(\<exists>bs. encodeBtpHandshakeRequest \<lparr>versions = vs, req_attMtu = mtu, clientWindowSize = win\<rparr> = Inr bs \<and>
      decodeBtpHandshakeRequest bs = Inr \<lparr>versions = vs, req_attMtu = mtu, clientWindowSize = win\<rparr>) \<and>
    (\<exists>bs. encodeBtpHandshakeResponse \<lparr>version = v, rsp_attMtu = mtu, windowSize = win\<rparr> = Inr bs \<and>
      decodeBtpHandshakeResponsePayload bs = Inr \<lparr>version = v, rsp_attMtu = mtu, windowSize = win\<rparr>)"
proof -
  define f where "f = version_at vs"
  have f: "0 \<le> f i" "f i < 16" for i
    using assms(3) by (auto simp: f_def version_at_def list_all_length order.strict_implies_order)
  define g where "g i j = f i * 16 + f j" for i j
  have n: "js_or (js_shl (f i) 4) (f j) = g i j" "js_and (g i j) 0x0f = f j" "js_shr (js_and (g i j) 0xf0) 4 = f i"
    for i j using nibbles [OF f f] by (simp_all add: g_def)
  have t: "toNumber (g i j) = g i j" "g i j mod 256 = g i j" for i j
    using f [of i] f [of j] by (simp_all add: g_def toNumber_small)
  have m: "map f [0..<8] = vs @ replicate (8 - length vs) 0"
    using assms(2) by (intro nth_equalityI) (auto simp: f_def version_at_def nth_append)
  have z: "filter (\<lambda>v. v \<noteq> 0) (map f [0..<8]) = vs"
    unfolding m using assms(3) by (auto simp: filter_id_conv list_all_iff)
  have u: "[0..<8] = [0, 1, 2, 3, 4, 5, 6, 7 :: nat]" by code_simp
  have flt: "filter (\<lambda>v. v \<noteq> 0) [f 0, f 1, f 2, f 3, f 4, f 5, f 6, f 7] = vs"
    using z unfolding u list.map .
  have "encodeBtpHandshakeRequest \<lparr>versions = vs, req_attMtu = mtu, clientWindowSize = win\<rparr> = Inr ([0x65, 0x6c,
      word_of_int (g 1 0), word_of_int (g 3 2), word_of_int (g 5 4), word_of_int (g 7 6)] @
      le_bytes 2 mtu @ [word_of_int win])"
    using assms(6-9) by (simp add: encodeBtpHandshakeRequest_def Let_def f_def [symmetric] n(1) t(1) io_simps)
  moreover have "decodeBtpHandshakeRequest ([0x65, 0x6c,
      word_of_int (g 1 0), word_of_int (g 3 2), word_of_int (g 5 4), word_of_int (g 7 6)] @
      le_bytes 2 mtu @ [word_of_int win]) = Inr \<lparr>versions = vs, req_attMtu = mtu, clientWindowSize = win\<rparr>"
    using assms(1,6-9) flt
    by (simp add: decodeBtpHandshakeRequest_def decodeHandshakeRequestPayload_def handshake_versions_def io_simps t(2) n(2,3) Let_def del: filter.simps One_nat_def)
  moreover have "encodeBtpHandshakeResponse \<lparr>version = v, rsp_attMtu = mtu, windowSize = win\<rparr> =
      Inr ([0x65, 0x6c, word_of_int v] @ le_bytes 2 mtu @ [word_of_int win])"
    using assms(4-9) nibbles(2) [of 0 v] by (simp add: encodeBtpHandshakeResponse_def io_simps)
  moreover have "decodeBtpHandshakeResponsePayload ([0x65, 0x6c, word_of_int v] @ le_bytes 2 mtu @ [word_of_int win]) =
      Inr \<lparr>version = v, rsp_attMtu = mtu, windowSize = win\<rparr>"
    using assms(4-9) nibbles(2) [of 0 v] by (simp add: decodeBtpHandshakeResponsePayload_def io_simps)
  ultimately show ?thesis by simp
qed

theorem btp_handshake_roundtrip_witness:
  "(\<exists>bs. encodeBtpHandshakeRequest \<lparr>versions = [4, 5], req_attMtu = 247, clientWindowSize = 6\<rparr> = Inr bs \<and>
      decodeBtpHandshakeRequest bs = Inr \<lparr>versions = [4, 5], req_attMtu = 247, clientWindowSize = 6\<rparr>) \<and>
    (\<exists>bs. encodeBtpHandshakeResponse \<lparr>version = 4, rsp_attMtu = 247, windowSize = 6\<rparr> = Inr bs \<and>
      decodeBtpHandshakeResponsePayload bs = Inr \<lparr>version = 4, rsp_attMtu = 247, windowSize = 6\<rparr>)"
  by (rule btp_handshake_roundtrip) simp_all

text \<open>
  C37: what the advertisement decoder makes of an encoded advertisement.  An ordinary one comes back as it was.
  In an extended announcement the vendor and product ids are hidden, and its flag is mistaken for the one that
  announces additional data, which is therefore reported whether there is any or not.
\<close>

theorem ble_advertisement_decoded:
  assumes "0 \<le> d" "d < 2 ^ 16" "0 \<le> vid" "vid < 2 ^ 16" "0 \<le> pid" "pid < 2 ^ 16"
  shows "\<exists>bs. encodeBleAdvertisementData d vid pid additional extended = Inr bs \<and>
    decodeBleAdvertisementData bs = Inr \<lparr>adv_discriminator = d, adv_vendorId = (if extended then 0 else vid),
      adv_productId = (if extended then 0 else pid), adv_hasAdditionalAdvertisementData = (additional \<or> extended)\<rparr>"
proof -
  define v p where "v = (if extended then 0 else vid)" and "p = (if extended then 0 else pid)"
  define fl :: int where "fl = (if additional then 1 else 0) + (if extended then 2 else 0)"
  have r: "0 \<le> v" "v < 65536" "0 \<le> p" "p < 65536" using assms by (simp_all add: v_def p_def)
  have fl: "js_or (if additional then 1 else 0) (if extended then 2 else 0) = fl" "fl mod 256 = fl" "toNumber fl = fl"
      "fl \<noteq> 0 \<longleftrightarrow> additional \<or> extended"
    by (auto simp: fl_def js_or_eval toNumber_small)
  have "encodeBleAdvertisementData d vid pid additional extended = Inr ([2, 1, 6, 11, 22] @ le_bytes 2 0xfff6 @ [0] @
      le_bytes 2 d @ le_bytes 2 v @ le_bytes 2 p @ [word_of_int fl])"
    unfolding encodeBleAdvertisementData_def v_def [symmetric] p_def [symmetric] fl(1) Let_def
    using assms r by (simp add: io_simps fl(3))
  moreover have "decodeBleAdvertisementData ([2, 1, 6, 11, 22] @ le_bytes 2 0xfff6 @ [0] @
      le_bytes 2 d @ le_bytes 2 v @ le_bytes 2 p @ [word_of_int fl]) = Inr \<lparr>adv_discriminator = d, adv_vendorId = v,
      adv_productId = p, adv_hasAdditionalAdvertisementData = (additional \<or> extended)\<rparr>"
    using assms r fl(2,4) by (simp add: decodeBleAdvertisementData_def decodeBleAdvertisementServiceData_def io_simps)
  ultimately show ?thesis unfolding v_def p_def by blast
qed

theorem ble_advertisement_decoded_witness:
  "\<exists>bs. encodeBleAdvertisementData 3840 65521 32768 False True = Inr bs \<and>
    decodeBleAdvertisementData bs = Inr \<lparr>adv_discriminator = 3840, adv_vendorId = 0, adv_productId = 0,
      adv_hasAdditionalAdvertisementData = True\<rparr>"
  using ble_advertisement_decoded [of 3840 65521 32768 False True] by simp

end
