(* ===== verification/Btp_Session.thy ===== *)
theory Btp_Session
  imports Btp_Codec
begin

text \<open>
  \<open>BtpSessionHandler\<close>: a session of the Bluetooth transport protocol, which cuts messages into segments, reassembles
  them, acknowledges packets and keeps within the window of the peer.

  The handler is asynchronous.  Each \<open>await\<close> ends a step and leaves a \<open>btp_task\<close> behind that can be resumed later, in
  any order with the other tasks, incoming packets, messages to send and timers; the tasks name the place where the
  code goes on.  What the handler passes to its callbacks is collected: packets in \<open>wire\<close>, messages in \<open>delivered\<close>.
  A timer is a flag that says whether it runs; a running timer may fire in any step.

  The lemmas show that writes to the transport exclude each other, that the window of the peer is never exceeded,
  that the buffer for reassembly is bounded and that the session is closed once.
\<close>

section \<open>Constants\<close>

definition MINIMUM_ATT_MTU :: int where "MINIMUM_ATT_MTU = 20"
definition MAXIMUM_BTP_MTU :: int where "MAXIMUM_BTP_MTU = 244"
definition BTP_MAXIMUM_WINDOW_SIZE :: int where "BTP_MAXIMUM_WINDOW_SIZE = 255"
definition BTP_WINDOW_NO_ACK_SEND_THRESHOLD :: int where "BTP_WINDOW_NO_ACK_SEND_THRESHOLD = 1"
definition BTP_IMMEDIATE_ACK_WINDOW_THRESHOLD :: int where "BTP_IMMEDIATE_ACK_WINDOW_THRESHOLD = 2"
definition BTP_SUPPORTED_VERSIONS :: "int list" where "BTP_SUPPORTED_VERSIONS = [4]"
definition MAXIMUM_SEQUENCE_NUMBER :: int where "MAXIMUM_SEQUENCE_NUMBER = 255"

lemmas btp_constants = MINIMUM_ATT_MTU_def MAXIMUM_BTP_MTU_def BTP_MAXIMUM_WINDOW_SIZE_def
  BTP_WINDOW_NO_ACK_SEND_THRESHOLD_def BTP_IMMEDIATE_ACK_WINDOW_THRESHOLD_def BTP_SUPPORTED_VERSIONS_def
  MAXIMUM_SEQUENCE_NUMBER_def

definition btpSegmentSizeFromAttMtu :: "int \<Rightarrow> int" where
  "btpSegmentSizeFromAttMtu attMtu =
    (let segmentSize = attMtu - 3 in
     if segmentSize < MINIMUM_ATT_MTU then MINIMUM_ATT_MTU
     else if segmentSize > MAXIMUM_BTP_MTU then MAXIMUM_BTP_MTU
     else segmentSize)"

section \<open>State\<close>

datatype btp_role = Central | Peripheral

text \<open>The function that awaits \<open>processSendQueue\<close> or \<open>sendStandaloneAck\<close>.\<close>

datatype btp_caller =
    FromIncoming      \<comment> \<open>\<open>handleIncomingBleData\<close>, which goes on with \<open>sendImmediateAckIfWindowLow\<close>\<close>
  | FromImmediateAck  \<comment> \<open>\<open>sendImmediateAckIfWindowLow\<close> within \<open>handleIncomingBleData\<close>\<close>
  | FromSend          \<comment> \<open>\<open>sendMatterMessage\<close>\<close>
  | FromTimer         \<comment> \<open>\<open>btpSendAckTimeoutTriggered\<close>\<close>

datatype btp_task =
    HandleMessage                      \<comment> \<open>the message callback\<close>
  | AfterQueue                         \<comment> \<open>\<open>processSendQueue\<close> has returned to \<open>handleIncomingBleData\<close>\<close>
  | QueueWrite btp_caller int bool     \<comment> \<open>a segment is written: the previous acknowledgement, whether it is the last\<close>
  | AckWrite btp_caller int            \<comment> \<open>an acknowledgement is written: the previous one\<close>
  | Disconnecting "error option"       \<comment> \<open>\<open>close\<close> disconnects, then the error is raised\<close>

record btp_session =
  role :: btp_role
  fragmentSize :: int
  peerWindowSize :: int
  currentIncomingSegmentedMsgLength :: "int option"
  currentIncomingSegmentedPayload :: "bytes option"
  prevIncomingSequenceNumber :: int
  prevIncomingAckNumber :: int
  ackReceiveTimer :: bool
  outSequenceNumber :: int
  prevAckedSequenceNumber :: int
  queuedOutgoingMatterMessages :: "data_reader list"
  sendInProgress :: bool
  sendAckTimer :: bool
  isActive :: bool
  idleTimeout :: bool
  tasks :: "btp_task list"
  wire :: "bytes list"
  delivered :: "bytes list"
  closedEmitted :: nat
  raised :: "error list"

section \<open>Window arithmetic\<close>

definition getNextSequenceNumber :: "btp_session \<Rightarrow> int \<times> btp_session" where
  "getNextSequenceNumber s =
    (let n = outSequenceNumber s + 1; n = (if n > MAXIMUM_SEQUENCE_NUMBER then 0 else n)
     in (n, s\<lparr>outSequenceNumber := n\<rparr>))"

definition modularDistance :: "int \<Rightarrow> int \<Rightarrow> int" where
  "modularDistance from to = js_rem (js_rem (to - from) 256 + 256) 256"

definition remoteWindowFreeSlots :: "btp_session \<Rightarrow> int" where
  "remoteWindowFreeSlots s = peerWindowSize s - modularDistance (prevIncomingAckNumber s) (outSequenceNumber s)"

definition localWindowFreeSlots :: "btp_session \<Rightarrow> int" where
  "localWindowFreeSlots s = peerWindowSize s - modularDistance (prevAckedSequenceNumber s) (prevIncomingSequenceNumber s)"

definition canSend :: "bool \<Rightarrow> btp_session \<Rightarrow> bool" where
  "canSend carriesAck s =
    (let free = remoteWindowFreeSlots s in
     if free \<le> 0 then False
     else if free \<le> BTP_WINDOW_NO_ACK_SEND_THRESHOLD \<and> \<not> carriesAck then False
     else True)"

section \<open>Closing and errors\<close>

definition raise :: "error option \<Rightarrow> btp_session \<Rightarrow> btp_session" where
  "raise e s = (case e of None \<Rightarrow> s | Some e \<Rightarrow> s\<lparr>raised := raised s @ [e]\<rparr>)"

text \<open>The error is what the caller throws once \<open>close\<close> has returned, if anything.\<close>

definition close :: "error option \<Rightarrow> btp_session \<Rightarrow> btp_session" where
  "close e s =
    (let s = s\<lparr>sendAckTimer := False, ackReceiveTimer := False, idleTimeout := False\<rparr> in
     if isActive s then s\<lparr>isActive := False, tasks := Disconnecting e # tasks s\<rparr> else raise e s)"

text \<open>The handler of incoming data catches everything, closes, and throws again what is no protocol error.\<close>

definition catch_incoming :: "error \<Rightarrow> btp_session \<Rightarrow> btp_session" where
  "catch_incoming e s = close (if e = BtpProtocolError then None else Some e) s"

fun throw_to :: "btp_caller \<Rightarrow> error \<Rightarrow> btp_session \<Rightarrow> btp_session" where
  "throw_to FromIncoming e s = catch_incoming e s"
| "throw_to FromImmediateAck e s = catch_incoming e s"
| "throw_to FromSend e s = raise (Some e) s"
| "throw_to FromTimer e s = raise (Some e) s"

fun return_to :: "btp_caller \<Rightarrow> btp_session \<Rightarrow> btp_session" where
  "return_to FromIncoming s = s\<lparr>tasks := AfterQueue # tasks s\<rparr>"
| "return_to FromImmediateAck s = s"
| "return_to FromSend s = s"
| "return_to FromTimer s = s"

section \<open>Sending\<close>

text \<open>Each function runs to the next \<open>await\<close>; a write leaves the packet on the wire and its task behind.\<close>

definition ack_packet :: "int \<Rightarrow> int \<Rightarrow> BtpPacket" where
  "ack_packet ack seq =
    (\<lparr>isHandshakeRequest = False, hasManagementOpcode = False, hasAckNumber = True, isEndingSegment = False,
      isContinuingSegment = False, isBeginningSegment = False\<rparr>,
     \<lparr>ackNumber = Some ack, sequenceNumber = seq, messageLength = None, segmentPayload = None\<rparr>)"

definition sendStandaloneAck :: "btp_caller \<Rightarrow> btp_session \<Rightarrow> btp_session" where
  "sendStandaloneAck caller s =
    (if sendInProgress s then return_to caller s
     else let ackNumberToSend = prevIncomingSequenceNumber s in
     if ackNumberToSend = prevAckedSequenceNumber s then return_to caller s
     else if \<not> canSend True s then return_to caller s
     else let (seq, s) = getNextSequenceNumber (s\<lparr>sendInProgress := True\<rparr>) in
     (case encodeBtpPacket (ack_packet ackNumberToSend seq) of
        Inl e \<Rightarrow> throw_to caller e (s\<lparr>sendInProgress := False\<rparr>)
      | Inr packet \<Rightarrow> s\<lparr>prevAckedSequenceNumber := ackNumberToSend, wire := wire s @ [packet],
          tasks := AckWrite caller (prevAckedSequenceNumber s) # tasks s\<rparr>))"

definition data_packet :: "bool \<Rightarrow> bool \<Rightarrow> bool \<Rightarrow> int \<Rightarrow> int \<Rightarrow> int \<Rightarrow> bytes \<Rightarrow> BtpPacket" where
  "data_packet hasAck beginning ending ack seq remaining segment =
    (\<lparr>isHandshakeRequest = False, hasManagementOpcode = False, hasAckNumber = hasAck, isEndingSegment = ending,
      isContinuingSegment = \<not> beginning, isBeginningSegment = beginning\<rparr>,
     \<lparr>ackNumber = (if hasAck then Some ack else None), sequenceNumber = seq,
      messageLength = (if beginning then Some remaining else None), segmentPayload = Some segment\<rparr>)"

text \<open>One round of the loop, entered with the lock held.\<close>

definition sendQueue_round :: "btp_caller \<Rightarrow> btp_session \<Rightarrow> btp_session" where
  "sendQueue_round caller s =
    (case queuedOutgoingMatterMessages s of
       [] \<Rightarrow> sendStandaloneAck caller (s\<lparr>sendInProgress := False\<rparr>)
     | current # rest \<Rightarrow>
       let hasAck = (prevIncomingSequenceNumber s \<noteq> prevAckedSequenceNumber s) in
       if \<not> canSend hasAck s then sendStandaloneAck caller (s\<lparr>sendInProgress := False\<rparr>)
       else
       let s = (if hasAck then s\<lparr>sendAckTimer := False\<rparr> else s);
           remaining = remainingBytesCount current;
           beginning = (remaining = reader_length current);
           headerLength = 2 + (if beginning then 2 else 0) + (if hasAck then 1 else 0);
           ending = (remaining \<le> fragmentSize s - headerLength)
       in (case readByteArray (min (fragmentSize s - headerLength) remaining) current of
         Inl e \<Rightarrow> throw_to caller e s
       | Inr (segment, current) \<Rightarrow>
         let (seq, s) = getNextSequenceNumber (s\<lparr>queuedOutgoingMatterMessages := current # rest\<rparr>);
             ack = prevIncomingSequenceNumber s
         in (case encodeBtpPacket (data_packet hasAck beginning ending ack seq remaining segment) of
           Inl e \<Rightarrow> throw_to caller e s
         | Inr packet \<Rightarrow>
           s\<lparr>prevAckedSequenceNumber := (if hasAck then ack else prevAckedSequenceNumber s), wire := wire s @ [packet],
             tasks := QueueWrite caller (prevAckedSequenceNumber s) ending # tasks s\<rparr>)))"

definition processSendQueue :: "btp_caller \<Rightarrow> btp_session \<Rightarrow> btp_session" where
  "processSendQueue caller s =
    (if sendInProgress s then return_to caller s
     else if queuedOutgoingMatterMessages s = [] then return_to caller s
     else sendQueue_round caller (s\<lparr>sendInProgress := True\<rparr>))"

definition sendImmediateAckIfWindowLow :: "btp_session \<Rightarrow> btp_session" where
  "sendImmediateAckIfWindowLow s =
    (if queuedOutgoingMatterMessages s \<noteq> [] \<or> sendInProgress s then s
     else if localWindowFreeSlots s > BTP_IMMEDIATE_ACK_WINDOW_THRESHOLD then s
     else sendStandaloneAck FromImmediateAck s)"

definition sendMatterMessage :: "bytes \<Rightarrow> btp_session \<Rightarrow> btp_session" where
  "sendMatterMessage data s =
    (if \<not> isActive s then raise (Some BtpFlowError) s
     else if data = [] then raise (Some BtpFlowError) s
     else processSendQueue FromSend
       (s\<lparr>queuedOutgoingMatterMessages := queuedOutgoingMatterMessages s @ [DataReader data True]\<rparr>))"

section \<open>Receiving\<close>

text \<open>
  The body of \<open>handleIncomingBleData\<close> in the order of the code.  An error keeps the changes made before it, so it comes
  with the state.
\<close>

type_synonym 'a btp_run = "(error \<times> btp_session) + 'a"

definition payload_of :: "BtpPacketPayload \<Rightarrow> bytes" where
  "payload_of p = (case segmentPayload p of None \<Rightarrow> [] | Some bs \<Rightarrow> bs)"

definition incoming_packet :: "bytes \<Rightarrow> btp_session \<Rightarrow> BtpPacket btp_run" where
  "incoming_packet data s =
    (if int (length data) > fragmentSize s \<and> int (length data) > fragmentSize s + 3 then Inl (BtpProtocolError, s)
     else case decodeBtpPacket data of
       Inl e \<Rightarrow> Inl (e, s)
     | Inr (h, p) \<Rightarrow>
       if isHandshakeRequest h \<or> hasManagementOpcode h then Inl (BtpProtocolError, s)
       else if payload_of p = [] \<and> \<not> hasAckNumber h then Inl (BtpProtocolError, s)
       else Inr (h, p))"

definition incoming_sequence :: "BtpPacketPayload \<Rightarrow> btp_session \<Rightarrow> btp_session btp_run" where
  "incoming_sequence p s =
    (if sequenceNumber p \<noteq> js_rem (prevIncomingSequenceNumber s + 1) 256 then Inl (BtpProtocolError, s)
     else Inr (s\<lparr>prevIncomingSequenceNumber := sequenceNumber p, sendAckTimer := True\<rparr>))"

definition incoming_ack :: "BtpHeader \<Rightarrow> BtpPacketPayload \<Rightarrow> btp_session \<Rightarrow> btp_session btp_run" where
  "incoming_ack h p s = (case ackNumber p of
      None \<Rightarrow> Inr s
    | Some ack \<Rightarrow>
      if \<not> hasAckNumber h then Inr s
      else let outstanding = modularDistance (prevIncomingAckNumber s) (outSequenceNumber s) in
      if modularDistance (prevIncomingAckNumber s) ack > outstanding then Inl (BtpProtocolError, s)
      else Inr (s\<lparr>prevIncomingAckNumber := ack, ackReceiveTimer := (ack \<noteq> outSequenceNumber s)\<rparr>))"

definition incoming_segment :: "BtpHeader \<Rightarrow> BtpPacketPayload \<Rightarrow> btp_session \<Rightarrow> btp_session btp_run" where
  "incoming_segment h p s =
    (if isBeginningSegment h then
       (if currentIncomingSegmentedPayload s \<noteq> None then Inl (BtpProtocolError, s)
        else Inr (s\<lparr>currentIncomingSegmentedMsgLength := messageLength p,
          currentIncomingSegmentedPayload := Some (payload_of p)\<rparr>))
     else if isContinuingSegment h \<or> isEndingSegment h then
       (case currentIncomingSegmentedPayload s of
          None \<Rightarrow> Inl (BtpProtocolError, s)
        | Some cur \<Rightarrow>
          if payload_of p = [] then Inl (BtpProtocolError, s)
          else let reassembledLength = int (length cur) + int (length (payload_of p)) in
          if (case currentIncomingSegmentedMsgLength s of None \<Rightarrow> False | Some n \<Rightarrow> reassembledLength > n)
          then Inl (BtpProtocolError, s)
          else Inr (s\<lparr>currentIncomingSegmentedPayload := Some (cur @ payload_of p)\<rparr>))
     else Inr s)"

text \<open>The message of a last segment, with the buffer emptied.\<close>

definition incoming_message :: "BtpHeader \<Rightarrow> btp_session \<Rightarrow> (bytes option \<times> btp_session) btp_run" where
  "incoming_message h s =
    (if isEndingSegment h then
       (case (currentIncomingSegmentedMsgLength s, currentIncomingSegmentedPayload s) of
          (Some n, Some cur) \<Rightarrow>
            if int (length cur) \<noteq> n then Inl (BtpProtocolError, s)
            else Inr (Some cur, s\<lparr>currentIncomingSegmentedMsgLength := None, currentIncomingSegmentedPayload := None\<rparr>)
        | _ \<Rightarrow> Inl (BtpProtocolError, s))
     else Inr (None, s))"

definition incoming_body :: "bytes \<Rightarrow> btp_session \<Rightarrow> (bytes option \<times> btp_session) btp_run" where
  "incoming_body data s =
    bindE (incoming_packet data s) (\<lambda>(h, p).
    bindE (incoming_sequence p s) (\<lambda>s.
    bindE (incoming_ack h p s) (\<lambda>s.
    bindE (incoming_segment h p s) (\<lambda>s.
    incoming_message h s))))"

definition handleIncomingBleData :: "bytes \<Rightarrow> btp_session \<Rightarrow> btp_session" where
  "handleIncomingBleData data s =
    (if \<not> isActive s then s
     else case incoming_body data s of
       Inl (e, s) \<Rightarrow> catch_incoming e s
     | Inr (Some message, s) \<Rightarrow> s\<lparr>delivered := delivered s @ [message], tasks := HandleMessage # tasks s\<rparr>
     | Inr (None, s) \<Rightarrow> processSendQueue FromIncoming s)"

section \<open>Timers\<close>

definition btpSendAckTimeoutTriggered :: "btp_session \<Rightarrow> btp_session" where
  "btpSendAckTimeoutTriggered s = (if \<not> isActive s then s else sendStandaloneAck FromTimer s)"

definition btpAckTimeoutTriggered :: "btp_session \<Rightarrow> btp_session" where
  "btpAckTimeoutTriggered s = (if prevIncomingAckNumber s \<noteq> outSequenceNumber s then close None s else s)"

section \<open>Resumption\<close>

text \<open>How the awaited promise ended: \<open>None\<close> when it was fulfilled.\<close>

type_synonym outcome = "error option"

definition segment_written :: "btp_caller \<Rightarrow> int \<Rightarrow> bool \<Rightarrow> outcome \<Rightarrow> btp_session \<Rightarrow> btp_session" where
  "segment_written caller previousAcked ending r s = (case r of
      Some e \<Rightarrow>
        let s = s\<lparr>prevAckedSequenceNumber := previousAcked, queuedOutgoingMatterMessages := [], sendInProgress := False\<rparr>
        in if e = BleDisconnectedError then return_to caller s else throw_to caller e s
    | None \<Rightarrow>
        let s = s\<lparr>ackReceiveTimer := True\<rparr>;
            s = (if role s = Central then s\<lparr>idleTimeout := True\<rparr> else s);
            s = (if ending then s\<lparr>queuedOutgoingMatterMessages := tl (queuedOutgoingMatterMessages s)\<rparr> else s)
        in sendQueue_round caller s)"

definition ack_written :: "btp_caller \<Rightarrow> int \<Rightarrow> outcome \<Rightarrow> btp_session \<Rightarrow> btp_session" where
  "ack_written caller previousAcked r s = (case r of
      Some e \<Rightarrow>
        let s = s\<lparr>prevAckedSequenceNumber := previousAcked, sendInProgress := False\<rparr>
        in if e = BleDisconnectedError then return_to caller s else throw_to caller e s
    | None \<Rightarrow> processSendQueue caller (s\<lparr>sendAckTimer := False, ackReceiveTimer := True, sendInProgress := False\<rparr>))"

text \<open>A failed disconnect emits \<open>closed\<close> as well and its error is thrown instead.\<close>

fun resume :: "btp_task \<Rightarrow> outcome \<Rightarrow> btp_session \<Rightarrow> btp_session" where
  "resume HandleMessage r s = (case r of Some e \<Rightarrow> catch_incoming e s | None \<Rightarrow> processSendQueue FromIncoming s)"
| "resume AfterQueue r s = sendImmediateAckIfWindowLow s"
| "resume (QueueWrite caller previousAcked ending) r s = segment_written caller previousAcked ending r s"
| "resume (AckWrite caller previousAcked) r s = ack_written caller previousAcked r s"
| "resume (Disconnecting e) r s = raise (case r of Some e' \<Rightarrow> Some e' | None \<Rightarrow> e) (s\<lparr>closedEmitted := closedEmitted s + 1\<rparr>)"

section \<open>Creation\<close>

definition BtpSessionHandler :: "btp_role \<Rightarrow> int \<Rightarrow> int \<Rightarrow> int \<Rightarrow> error + btp_session" where
  "BtpSessionHandler r btpVersion fragSize window =
    (if btpVersion \<noteq> 4 then Inl BtpProtocolError
     else Inr \<lparr>role = r, fragmentSize = fragSize, peerWindowSize = window,
       currentIncomingSegmentedMsgLength = None, currentIncomingSegmentedPayload = None,
       prevIncomingSequenceNumber = (if r = Peripheral then 255 else 0), prevIncomingAckNumber = -1,
       ackReceiveTimer = False, outSequenceNumber = (if r = Peripheral then 0 else -1),
       prevAckedSequenceNumber = (if r = Peripheral then 255 else -1),
       queuedOutgoingMatterMessages = [], sendInProgress = False, sendAckTimer = (r = Central), isActive = True,
       idleTimeout = False, tasks = [], wire = [], delivered = [], closedEmitted = 0, raised = []\<rparr>)"

definition negotiateMtu :: "int option \<Rightarrow> int \<Rightarrow> int" where
  "negotiateMtu maxDataSize handshakeMtu = (case maxDataSize of
      None \<Rightarrow> MINIMUM_ATT_MTU
    | Some m \<Rightarrow>
      if m > MINIMUM_ATT_MTU then
        (if handshakeMtu \<le> MINIMUM_ATT_MTU then min m MAXIMUM_BTP_MTU
         else min (min handshakeMtu m) MAXIMUM_BTP_MTU)
      else MINIMUM_ATT_MTU)"

text \<open>
  The results are whether the transport is disconnected, and the session together with the handshake response that
  is written, \<open>r\<close> being how that write ends.
\<close>

definition createFromHandshakeRequest :: "int option \<Rightarrow> bytes \<Rightarrow> outcome \<Rightarrow> bool \<times> (error + bytes \<times> btp_session)" where
  "createFromHandshakeRequest maxDataSize handshakeRequestPayload r =
    (case decodeBtpHandshakeRequest handshakeRequestPayload of
       Inl e \<Rightarrow> (False, Inl e)
     | Inr request \<Rightarrow>
       (case find (\<lambda>v. v \<in> set (versions request)) BTP_SUPPORTED_VERSIONS of
          None \<Rightarrow> (True, Inl BtpProtocolError)
        | Some v \<Rightarrow>
          let attMtu = negotiateMtu maxDataSize (req_attMtu request);
              window = min BTP_MAXIMUM_WINDOW_SIZE (clientWindowSize request)
          in (False,
            bindE (encodeBtpHandshakeResponse \<lparr>version = v, rsp_attMtu = attMtu, windowSize = window\<rparr>) (\<lambda>response.
            bindE (BtpSessionHandler Peripheral v attMtu window) (\<lambda>s.
            case r of Some e \<Rightarrow> Inl e | None \<Rightarrow> Inr (response, s\<lparr>ackReceiveTimer := True\<rparr>))))))"

definition createAsCentral :: "bytes \<Rightarrow> error + btp_session" where
  "createAsCentral handshakeResponsePayload =
    bindE (decodeBtpHandshakeResponsePayload handshakeResponsePayload) (\<lambda>response.
    BtpSessionHandler Central (version response) (min (rsp_attMtu response) MAXIMUM_BTP_MTU) (windowSize response))"

section \<open>Steps\<close>

inductive btp_step :: "btp_session \<Rightarrow> btp_session \<Rightarrow> bool" where
  incoming: "btp_step s (handleIncomingBleData data s)"
| send: "btp_step s (sendMatterMessage data s)"
| resumed: "t \<in> set (tasks s) \<Longrightarrow> btp_step s (resume t r (s\<lparr>tasks := remove1 t (tasks s)\<rparr>))"
| send_ack_timer: "sendAckTimer s \<Longrightarrow> btp_step s (btpSendAckTimeoutTriggered (s\<lparr>sendAckTimer := False\<rparr>))"
| ack_receive_timer: "ackReceiveTimer s \<Longrightarrow> btp_step s (btpAckTimeoutTriggered (s\<lparr>ackReceiveTimer := False\<rparr>))"
| idle_timer: "idleTimeout s \<Longrightarrow> btp_step s (close None (s\<lparr>idleTimeout := False\<rparr>))"
| closing: "btp_step s (close None s)"

definition btp_created :: "btp_session \<Rightarrow> bool" where
  "btp_created s \<longleftrightarrow> (\<exists>m q r b. snd (createFromHandshakeRequest m q r) = Inr (b, s)) \<or> (\<exists>q. createAsCentral q = Inr s)"

inductive btp_reachable :: "btp_session \<Rightarrow> bool" where
  created: "btp_created s \<Longrightarrow> btp_reachable s"
| step: "btp_reachable s \<Longrightarrow> btp_step s t \<Longrightarrow> btp_reachable t"


section \<open>The invariant\<close>

fun is_write :: "btp_task \<Rightarrow> bool" where
  "is_write (QueueWrite c n e) = True"
| "is_write (AckWrite c n) = True"
| "is_write t = False"

fun is_disconnect :: "btp_task \<Rightarrow> bool" where
  "is_disconnect (Disconnecting e) = True"
| "is_disconnect t = False"

definition writes :: "btp_session \<Rightarrow> nat" where
  "writes s = length (filter is_write (tasks s))"

definition window_inv :: "btp_session \<Rightarrow> bool" where
  "window_inv s \<longleftrightarrow> -1 \<le> outSequenceNumber s \<and> outSequenceNumber s \<le> 255 \<and>
    -1 \<le> prevIncomingAckNumber s \<and> prevIncomingAckNumber s \<le> 255 \<and> 0 \<le> peerWindowSize s \<and> peerWindowSize s \<le> 255 \<and>
    modularDistance (prevIncomingAckNumber s) (outSequenceNumber s) \<le> max 1 (peerWindowSize s)"

definition lock_inv :: "btp_session \<Rightarrow> bool" where
  "lock_inv s \<longleftrightarrow> writes s \<le> of_bool (sendInProgress s)"

definition close_inv :: "btp_session \<Rightarrow> bool" where
  "close_inv s \<longleftrightarrow> closedEmitted s + length (filter is_disconnect (tasks s)) = of_bool (\<not> isActive s)"

definition buffer_inv :: "btp_session \<Rightarrow> bool" where
  "buffer_inv s \<longleftrightarrow> fragmentSize s \<le> MAXIMUM_BTP_MTU \<and>
    (case (currentIncomingSegmentedMsgLength s, currentIncomingSegmentedPayload s) of
       (None, None) \<Rightarrow> True
     | (Some n, Some b) \<Rightarrow> 0 \<le> n \<and> n < 2 ^ 16 \<and> int (length b) \<le> max n (MAXIMUM_BTP_MTU + 3)
     | _ \<Rightarrow> False)"

lemmas btp_inv_defs = window_inv_def lock_inv_def close_inv_def buffer_inv_def writes_def

definition btp_inv :: "btp_session \<Rightarrow> bool" where
  "btp_inv s \<longleftrightarrow> window_inv s \<and> lock_inv s \<and> close_inv s \<and> buffer_inv s"

lemma modularDistance_mod: "modularDistance a b = (b - a) mod 256"
proof -
  have "0 < js_rem (b - a) 256 + 256"
    using pos_mod_bound [of 256 "\<bar>b - a\<bar>"] pos_mod_sign [of 256 "\<bar>b - a\<bar>"]
    by (auto simp: js_rem_def sgn_if)
  moreover have "js_rem (b - a) 256 mod 256 = (b - a) mod 256"
    by (auto simp: js_rem_def sgn_if) (metis add.inverse_inverse minus_diff_eq mod_minus_eq)+
  ultimately show ?thesis by (auto simp: modularDistance_def js_rem_def [of "_ + 256"] sgn_if)
qed

lemma getNext_window:
  assumes "window_inv s" "canSend c s"
  shows "window_inv (snd (getNextSequenceNumber s))"
proof -
  define d where "d = (outSequenceNumber s - prevIncomingAckNumber s) mod 256"
  have w: "d < peerWindowSize s" "peerWindowSize s \<le> 255" "0 \<le> d"
    using assms by (auto simp: d_def canSend_def remoteWindowFreeSlots_def window_inv_def modularDistance_mod Let_def split: if_splits)
  have "(outSequenceNumber s + 1 - prevIncomingAckNumber s) mod 256 = (d + 1) mod 256"
    by (simp add: d_def mod_simps algebra_simps)
  also have "\<dots> = d + 1" using w by simp
  finally have e: "(outSequenceNumber s + 1 - prevIncomingAckNumber s) mod 256 = d + 1" .
  have "outSequenceNumber s + 1 > 255 \<Longrightarrow> (0 - prevIncomingAckNumber s) mod 256 = d + 1"
  proof -
    assume "outSequenceNumber s + 1 > 255"
    then have "outSequenceNumber s = 255" using assms(1) by (simp add: window_inv_def)
    then show ?thesis using e mod_add_self2 [of "- prevIncomingAckNumber s" 256] by (simp add: algebra_simps)
  qed
  with e assms(1) w show ?thesis
    by (auto simp: getNextSequenceNumber_def window_inv_def modularDistance_mod Let_def MAXIMUM_SEQUENCE_NUMBER_def)
qed

lemma raise_fields [simp]:
  "tasks (raise e s) = tasks s" "window_inv (raise e s) = window_inv s" "lock_inv (raise e s) = lock_inv s"
  "close_inv (raise e s) = close_inv s" "buffer_inv (raise e s) = buffer_inv s" "sendInProgress (raise e s) = sendInProgress s"
  by (cases e; simp add: raise_def btp_inv_defs)+

lemma close_invs:
  "window_inv (close e s) = window_inv s" "lock_inv (close e s) = lock_inv s"
  "close_inv s \<Longrightarrow> close_inv (close e s)" "buffer_inv (close e s) = buffer_inv s"
  by (auto simp: close_def raise_def btp_inv_defs Let_def split: option.splits)

lemma close_inv_kept [simp]: "btp_inv s \<Longrightarrow> btp_inv (close e s)" "btp_inv s \<Longrightarrow> btp_inv (catch_incoming x s)"
  by (simp_all add: btp_inv_def close_invs catch_incoming_def)

lemma throw_inv [simp]: "btp_inv s \<Longrightarrow> btp_inv (throw_to c e s)"
  by (cases c) (simp_all add: btp_inv_def close_invs catch_incoming_def)

lemma return_inv [simp]: "btp_inv s \<Longrightarrow> btp_inv (return_to c s)"
  by (cases c) (simp_all add: btp_inv_def btp_inv_defs)

text \<open>Only the fields named here matter to the invariant.\<close>

lemma btp_inv_cong:
  assumes "btp_inv s" "outSequenceNumber t = outSequenceNumber s" "prevIncomingAckNumber t = prevIncomingAckNumber s"
    "peerWindowSize t = peerWindowSize s" "tasks t = tasks s" "sendInProgress s \<Longrightarrow> sendInProgress t \<or> writes s = 0"
    "closedEmitted t = closedEmitted s" "isActive t = isActive s" "fragmentSize t = fragmentSize s"
    "currentIncomingSegmentedMsgLength t = currentIncomingSegmentedMsgLength s"
    "currentIncomingSegmentedPayload t = currentIncomingSegmentedPayload s"
  shows "btp_inv t"
  using assms by (cases "sendInProgress s") (auto simp: btp_inv_def btp_inv_defs)

text \<open>A step that takes a sequence number and starts the only write.\<close>

lemma write_inv:
  assumes "btp_inv s" "writes s = 0" "canSend c s" "is_write w" "\<not> is_disconnect w"
    "outSequenceNumber t = fst (getNextSequenceNumber s)" "prevIncomingAckNumber t = prevIncomingAckNumber s"
    "peerWindowSize t = peerWindowSize s" "tasks t = w # tasks s" "sendInProgress t"
    "closedEmitted t = closedEmitted s" "isActive t = isActive s" "fragmentSize t = fragmentSize s"
    "currentIncomingSegmentedMsgLength t = currentIncomingSegmentedMsgLength s"
    "currentIncomingSegmentedPayload t = currentIncomingSegmentedPayload s"
  shows "btp_inv t"
proof -
  have "window_inv (snd (getNextSequenceNumber s))" using assms(1,3) getNext_window by (simp add: btp_inv_def)
  then have "window_inv t" using assms(6-8) by (simp add: window_inv_def getNextSequenceNumber_def Let_def)
  then show ?thesis using assms(1,2,4,5,9-) by (simp add: btp_inv_def btp_inv_defs)
qed

lemma canSend_cong:
  "prevIncomingAckNumber t = prevIncomingAckNumber s \<Longrightarrow> outSequenceNumber t = outSequenceNumber s \<Longrightarrow>
    peerWindowSize t = peerWindowSize s \<Longrightarrow> canSend c t = canSend c s"
  by (simp add: canSend_def remoteWindowFreeSlots_def)

lemma sequence_inv:
  assumes "btp_inv s" "canSend c s"
    "outSequenceNumber t = fst (getNextSequenceNumber s)" "prevIncomingAckNumber t = prevIncomingAckNumber s"
    "peerWindowSize t = peerWindowSize s" "tasks t = tasks s" "sendInProgress s \<Longrightarrow> sendInProgress t \<or> writes s = 0"
    "closedEmitted t = closedEmitted s" "isActive t = isActive s" "fragmentSize t = fragmentSize s"
    "currentIncomingSegmentedMsgLength t = currentIncomingSegmentedMsgLength s"
    "currentIncomingSegmentedPayload t = currentIncomingSegmentedPayload s"
  shows "btp_inv t"
proof -
  have "window_inv (snd (getNextSequenceNumber s))" using assms(1,2) getNext_window by (simp add: btp_inv_def)
  then have "window_inv t" using assms(3-5) by (simp add: window_inv_def getNextSequenceNumber_def Let_def)
  then show ?thesis using assms(1,6-) by (cases "sendInProgress s") (auto simp: btp_inv_def btp_inv_defs)
qed

lemma no_writes: "btp_inv s \<Longrightarrow> \<not> sendInProgress s \<Longrightarrow> writes s = 0"
  by (simp add: btp_inv_def lock_inv_def)

lemma sendStandaloneAck_inv [simp]:
  assumes "btp_inv s" shows "btp_inv (sendStandaloneAck c s)"
proof (cases "sendInProgress s \<or> prevIncomingSequenceNumber s = prevAckedSequenceNumber s \<or> \<not> canSend True s")
  case True
  then show ?thesis using assms by (auto simp: sendStandaloneAck_def Let_def)
next
  case False
  note free = no_writes [OF assms]
  show ?thesis
  proof (cases "encodeBtpPacket (ack_packet (prevIncomingSequenceNumber s) (fst (getNextSequenceNumber s)))")
    case (Inl e)
    have "btp_inv (snd (getNextSequenceNumber s))"
      using sequence_inv [OF assms, of True] False by (simp add: getNextSequenceNumber_def Let_def)
    from btp_inv_cong [OF this] show ?thesis
      using False Inl by (auto simp: sendStandaloneAck_def getNextSequenceNumber_def Let_def)
  next
    case (Inr packet)
    then show ?thesis
      using False free by (auto simp: sendStandaloneAck_def getNextSequenceNumber_def Let_def intro!: write_inv [OF assms _ , of True])
  qed
qed

text \<open>The three ways a round goes on when there is something to send and room for it.\<close>

lemma sendQueue_round_cases:
  assumes "queuedOutgoingMatterMessages s = current # rest"
    "hasAck = (prevIncomingSequenceNumber s \<noteq> prevAckedSequenceNumber s)" "canSend hasAck s"
    "remaining = remainingBytesCount current" "beginning = (remaining = reader_length current)"
    "room = fragmentSize s - (2 + (if beginning then 2 else 0) + (if hasAck then 1 else 0))"
    "s' = (if hasAck then s\<lparr>sendAckTimer := False\<rparr> else s)" "seq = fst (getNextSequenceNumber s)"
  obtains e where "readByteArray (min room remaining) current = Inl e" "sendQueue_round c s = throw_to c e s'"
  | segment current' e where "readByteArray (min room remaining) current = Inr (segment, current')"
      "encodeBtpPacket (data_packet hasAck beginning (remaining \<le> room) (prevIncomingSequenceNumber s) seq remaining segment) = Inl e"
      "sendQueue_round c s = throw_to c e (s'\<lparr>queuedOutgoingMatterMessages := current' # rest, outSequenceNumber := seq\<rparr>)"
  | segment current' packet where "readByteArray (min room remaining) current = Inr (segment, current')"
      "encodeBtpPacket (data_packet hasAck beginning (remaining \<le> room) (prevIncomingSequenceNumber s) seq remaining segment) = Inr packet"
      "sendQueue_round c s = s'\<lparr>queuedOutgoingMatterMessages := current' # rest, outSequenceNumber := seq,
        prevAckedSequenceNumber := (if hasAck then prevIncomingSequenceNumber s else prevAckedSequenceNumber s),
        wire := wire s @ [packet], tasks := QueueWrite c (prevAckedSequenceNumber s) (remaining \<le> room) # tasks s\<rparr>"
proof -
  let ?r = "readByteArray (min room remaining) current"
  have s': "fragmentSize s' = fragmentSize s" "prevIncomingSequenceNumber s' = prevIncomingSequenceNumber s"
      "prevAckedSequenceNumber s' = prevAckedSequenceNumber s" "wire s' = wire s" "tasks s' = tasks s"
      "getNextSequenceNumber (s'\<lparr>queuedOutgoingMatterMessages := q\<rparr>) =
        (seq, s'\<lparr>queuedOutgoingMatterMessages := q, outSequenceNumber := seq\<rparr>)" for q
    using assms(7,8) by (simp_all add: getNextSequenceNumber_def Let_def)
  have round: "sendQueue_round c s = (case ?r of Inl e \<Rightarrow> throw_to c e s' | Inr (segment, current') \<Rightarrow>
      (case encodeBtpPacket (data_packet hasAck beginning (remaining \<le> room) (prevIncomingSequenceNumber s) seq remaining segment) of
        Inl e \<Rightarrow> throw_to c e (s'\<lparr>queuedOutgoingMatterMessages := current' # rest, outSequenceNumber := seq\<rparr>)
      | Inr packet \<Rightarrow> s'\<lparr>queuedOutgoingMatterMessages := current' # rest, outSequenceNumber := seq,
        prevAckedSequenceNumber := (if hasAck then prevIncomingSequenceNumber s else prevAckedSequenceNumber s),
        wire := wire s @ [packet], tasks := QueueWrite c (prevAckedSequenceNumber s) (remaining \<le> room) # tasks s\<rparr>))"
    unfolding sendQueue_round_def assms(1) list.case Let_def assms(2,4,5) [symmetric] assms(7) [symmetric] s'(1) assms(6) [symmetric]
    using assms(3) by (simp add: s' split: sum.splits prod.splits)
  show thesis
  proof (cases ?r)
    case (Inl e)
    then show thesis using that(1) round by simp
  next
    case (Inr x)
    then obtain segment current' where x: "?r = Inr (segment, current')" by (cases x) auto
    show thesis
      by (cases "encodeBtpPacket (data_packet hasAck beginning (remaining \<le> room) (prevIncomingSequenceNumber s) seq remaining segment)")
        (use that(2,3) [OF x] round x in simp_all)
  qed
qed

lemma sendQueue_round_inv:
  assumes "btp_inv s" "sendInProgress s" "writes s = 0"
  shows "btp_inv (sendQueue_round c s)"
proof -
  have unlocked: "btp_inv (sendStandaloneAck c (s\<lparr>sendInProgress := False\<rparr>))"
    using assms by (auto intro!: sendStandaloneAck_inv btp_inv_cong [OF assms(1)])
  show ?thesis
  proof (cases "queuedOutgoingMatterMessages s = [] \<or> \<not> canSend (prevIncomingSequenceNumber s \<noteq> prevAckedSequenceNumber s) s")
    case True
    then show ?thesis using unlocked by (auto simp: sendQueue_round_def Let_def split: list.splits)
  next
    case False
    then obtain current rest where q: "queuedOutgoingMatterMessages s = current # rest"
      and can: "canSend (prevIncomingSequenceNumber s \<noteq> prevAckedSequenceNumber s) s" by (cases "queuedOutgoingMatterMessages s") auto
    note inv = btp_inv_cong [OF assms(1)] sequence_inv [OF assms(1) can] write_inv [OF assms(1,3) can, where w = "QueueWrite c a b" for a b]
    show ?thesis
      by (rule sendQueue_round_cases [OF q refl can refl refl refl refl refl, of c])
        (auto intro!: throw_inv intro: inv simp: assms(2))
  qed
qed

lemma processSendQueue_inv [simp]: "btp_inv s \<Longrightarrow> btp_inv (processSendQueue c s)"
  unfolding processSendQueue_def
  by (auto intro!: sendQueue_round_inv intro: btp_inv_cong simp: no_writes)
    (simp add: no_writes [unfolded writes_def] writes_def)

lemma sendImmediateAck_inv [simp]: "btp_inv s \<Longrightarrow> btp_inv (sendImmediateAckIfWindowLow s)"
  by (simp add: sendImmediateAckIfWindowLow_def)

lemma raise_inv [simp]: "btp_inv (raise e s) = btp_inv s"
  by (simp add: btp_inv_def)

lemma sendMatterMessage_inv [simp]: "btp_inv s \<Longrightarrow> btp_inv (sendMatterMessage data s)"
  by (auto simp: sendMatterMessage_def intro!: processSendQueue_inv intro: btp_inv_cong)

lemma incoming_packet_fields:
  assumes "incoming_packet data s = Inr (h, p)"
  shows "btp_in_range p" "(messageLength p \<noteq> None) = isBeginningSegment h" "(ackNumber p \<noteq> None) = hasAckNumber h"
    "int (length (payload_of p)) \<le> fragmentSize s + 3" "payload_of p = [] \<Longrightarrow> hasAckNumber h"
proof -
  have d: "decodeBtpPacket data = Inr (h, p)" and l: "int (length data) \<le> fragmentSize s + 3"
      and e: "payload_of p = [] \<Longrightarrow> hasAckNumber h"
    using assms by (auto simp: incoming_packet_def split: if_splits sum.splits prod.splits)
  note inv = decodeBtpPacket_inv [OF d]
  show "btp_in_range p" "(messageLength p \<noteq> None) = isBeginningSegment h" "(ackNumber p \<noteq> None) = hasAckNumber h"
    using inv(1-3) by blast+
  show "int (length (payload_of p)) \<le> fragmentSize s + 3" using inv(4) l by (auto simp: payload_of_def)
  show "payload_of p = [] \<Longrightarrow> hasAckNumber h" by (rule e)
qed

text \<open>Both outcomes of a part of the handler.\<close>

definition run_inv :: "btp_session btp_run \<Rightarrow> bool" where
  "run_inv m = (case m of Inl (e, s) \<Rightarrow> btp_inv s | Inr s \<Rightarrow> btp_inv s)"

lemma incoming_sequence_inv: "btp_inv s \<Longrightarrow> run_inv (incoming_sequence p s)"
  by (auto simp: run_inv_def incoming_sequence_def intro: btp_inv_cong)

lemma ack_window:
  assumes "window_inv s" "0 \<le> ack" "ack \<le> 255"
    "modularDistance (prevIncomingAckNumber s) ack \<le> modularDistance (prevIncomingAckNumber s) (outSequenceNumber s)"
  shows "modularDistance ack (outSequenceNumber s) \<le> modularDistance (prevIncomingAckNumber s) (outSequenceNumber s)"
proof -
  define d e where "d = (outSequenceNumber s - prevIncomingAckNumber s) mod 256" and "e = (ack - prevIncomingAckNumber s) mod 256"
  have r: "0 \<le> e" "e \<le> d" "d < 256" using assms(4) by (simp_all add: d_def e_def modularDistance_mod)
  have "(outSequenceNumber s - ack) mod 256 = (d - e) mod 256" unfolding d_def e_def by (simp add: mod_simps)
  also have "\<dots> = d - e" using r by simp
  finally show ?thesis using r by (simp add: modularDistance_mod d_def [symmetric])
qed

lemma incoming_ack_inv:
  assumes "btp_inv s" "btp_in_range p" shows "run_inv (incoming_ack h p s)"
proof (cases "ackNumber p")
  case (Some ack)
  then have a: "0 \<le> ack" "ack \<le> 255" using assms(2) by (simp_all add: btp_in_range_def)
  have w: "window_inv s" using assms(1) by (simp add: btp_inv_def)
  show ?thesis
    using Some assms(1) ack_window [OF w a] a
    by (auto simp: run_inv_def incoming_ack_def Let_def btp_inv_def window_inv_def lock_inv_def close_inv_def buffer_inv_def writes_def)
qed (use assms in \<open>simp add: run_inv_def incoming_ack_def\<close>)

lemma incoming_segment_inv:
  assumes "btp_inv s" "btp_in_range p" "(messageLength p \<noteq> None) = isBeginningSegment h"
    "int (length (payload_of p)) \<le> fragmentSize s + 3"
  shows "run_inv (incoming_segment h p s)"
  using assms
  by (auto simp: run_inv_def incoming_segment_def Let_def btp_inv_def btp_inv_defs btp_in_range_def
      split: option.splits sum.splits if_splits)

lemma incoming_message_inv:
  assumes "btp_inv s" "incoming_message h s = m"
  shows "case m of Inl (e, s) \<Rightarrow> btp_inv s | Inr (r, s) \<Rightarrow> btp_inv s"
  using assms by (auto simp: incoming_message_def btp_inv_def btp_inv_defs split: option.splits if_splits)

lemma incoming_fragmentSize:
  "incoming_sequence p s = Inr t \<Longrightarrow> fragmentSize t = fragmentSize s" "incoming_ack h p s = Inr t \<Longrightarrow> fragmentSize t = fragmentSize s"
  by (auto simp: incoming_sequence_def incoming_ack_def Let_def split: if_splits option.splits)

lemma incoming_body_inv:
  assumes "btp_inv s"
  shows "case incoming_body data s of Inl (e, s) \<Rightarrow> btp_inv s | Inr (r, s) \<Rightarrow> btp_inv s"
proof (cases "incoming_packet data s")
  case (Inl x)
  then have "snd x = s" by (auto simp: incoming_packet_def split: if_splits sum.splits prod.splits)
  then show ?thesis using Inl assms by (auto simp: incoming_body_def split: prod.splits)
next
  case (Inr x)
  obtain h p where x: "incoming_packet data s = Inr (h, p)" using Inr by (cases x) auto
  note f = incoming_packet_fields [OF x]
  have 1: "run_inv (incoming_sequence p s)" by (rule incoming_sequence_inv [OF assms])
  show ?thesis
  proof (cases "incoming_sequence p s")
    case s1: (Inr s1)
    have i1: "btp_inv s1" using 1 s1 by (simp add: run_inv_def)
    have 2: "run_inv (incoming_ack h p s1)" by (rule incoming_ack_inv [OF i1 f(1)])
    show ?thesis
    proof (cases "incoming_ack h p s1")
      case s2: (Inr s2)
      have i2: "btp_inv s2" using 2 s2 by (simp add: run_inv_def)
      have l: "int (length (payload_of p)) \<le> fragmentSize s2 + 3"
        using f(4) incoming_fragmentSize(1) [OF s1] incoming_fragmentSize(2) [OF s2] by simp
      note 3 = incoming_segment_inv [OF i2 f(1,2) l]
      show ?thesis
        using 3 incoming_message_inv [OF _ refl, of _ h] x s1 s2
        by (cases "incoming_segment h p s2") (auto simp: incoming_body_def run_inv_def)
    qed (use 2 x s1 in \<open>auto simp: incoming_body_def run_inv_def\<close>)
  qed (use 1 x in \<open>auto simp: incoming_body_def run_inv_def\<close>)
qed

lemma handleIncoming_inv [simp]:
  assumes "btp_inv s" shows "btp_inv (handleIncomingBleData data s)"
proof -
  have d: "btp_inv (s\<lparr>delivered := d, tasks := HandleMessage # tasks s\<rparr>)" if "btp_inv s" for s d
    using that by (simp add: btp_inv_def btp_inv_defs)
  show ?thesis
    using incoming_body_inv [OF assms, of data] assms
    by (auto simp: handleIncomingBleData_def d split: sum.splits prod.splits option.splits)
qed

lemma timers_inv [simp]:
  assumes "btp_inv s"
  shows "btp_inv (btpSendAckTimeoutTriggered s)" "btp_inv (btpAckTimeoutTriggered s)"
  using assms by (simp_all add: btpSendAckTimeoutTriggered_def btpAckTimeoutTriggered_def)

text \<open>A task that is taken out leaves the invariant, with one write or one disconnect fewer.\<close>

definition without :: "btp_task \<Rightarrow> btp_session \<Rightarrow> btp_session" where
  "without t s = s\<lparr>tasks := remove1 t (tasks s)\<rparr>"

lemma filter_remove1_length:
  "t \<in> set ts \<Longrightarrow> length (filter P ts) = length (filter P (remove1 t ts)) + of_bool (P t)"
  by (induction ts) auto

lemma without_inv:
  assumes "btp_inv s" "t \<in> set (tasks s)"
  shows "\<not> is_disconnect t \<Longrightarrow> btp_inv (without t s)" "is_write t \<Longrightarrow> writes (without t s) = 0 \<and> sendInProgress s"
proof -
  have l: "length (filter P (tasks s)) = length (filter P (remove1 t (tasks s))) + of_bool (P t)" for P
    by (rule filter_remove1_length [OF assms(2)])
  show "\<not> is_disconnect t \<Longrightarrow> btp_inv (without t s)"
    using assms(1) by (auto simp: without_def btp_inv_def btp_inv_defs l)
  assume w: "is_write t"
  show "writes (without t s) = 0 \<and> sendInProgress s"
    using assms(1) w by (auto simp: without_def btp_inv_def btp_inv_defs l of_bool_def split: if_splits)
qed

lemma segment_written_inv:
  assumes "btp_inv s" "writes s = 0" "sendInProgress s"
  shows "btp_inv (segment_written c n e r s)"
  using assms unfolding segment_written_def Let_def
  by (auto split: option.splits intro!: return_inv throw_inv sendQueue_round_inv intro: btp_inv_cong simp: writes_def)

lemma ack_written_inv:
  assumes "btp_inv s" "writes s = 0"
  shows "btp_inv (ack_written c n r s)"
  using assms unfolding ack_written_def Let_def
  by (auto split: option.splits intro!: return_inv throw_inv processSendQueue_inv intro: btp_inv_cong)

lemma resume_inv:
  assumes "btp_inv s" "t \<in> set (tasks s)"
  shows "btp_inv (resume t r (without t s))"
proof (cases t)
  case (Disconnecting e)
  have l: "length (filter P (tasks s)) = length (filter P (remove1 t (tasks s))) + of_bool (P t)" for P
    by (rule filter_remove1_length [OF assms(2)])
  have "btp_inv (s\<lparr>tasks := remove1 t (tasks s), closedEmitted := closedEmitted s + 1\<rparr>)"
    using assms(1) l [of is_disconnect] l [of is_write] by (simp add: Disconnecting btp_inv_def btp_inv_defs)
  then show ?thesis by (simp add: Disconnecting without_def)
next
  case HandleMessage
  then show ?thesis using without_inv(1) [OF assms] by (auto split: option.splits)
next
  case AfterQueue
  then show ?thesis using without_inv(1) [OF assms] by simp
next
  case (QueueWrite c n e)
  then show ?thesis using without_inv [OF assms] by (auto intro!: segment_written_inv simp: without_def)
next
  case (AckWrite c n)
  then show ?thesis using without_inv [OF assms] by (auto intro!: ack_written_inv)
qed

lemma btp_step_inv: "btp_step s t \<Longrightarrow> btp_inv s \<Longrightarrow> btp_inv t"
proof (induction rule: btp_step.induct)
  case (resumed t s r)
  then show ?case using resume_inv [of s t r] by (simp add: without_def)
qed (auto intro!: timers_inv close_inv_kept intro: btp_inv_cong)

lemma BtpSessionHandler_inv:
  assumes "BtpSessionHandler r v f w = Inr s" "f \<le> MAXIMUM_BTP_MTU" "0 \<le> w" "w \<le> 255"
  shows "btp_inv s"
  using assms by (auto simp: BtpSessionHandler_def btp_inv_def btp_inv_defs modularDistance_mod split: if_splits)

lemma negotiateMtu_bounds:
  "negotiateMtu m h \<le> MAXIMUM_BTP_MTU" "MINIMUM_ATT_MTU \<le> negotiateMtu m h"
  by (auto simp: negotiateMtu_def btp_constants split: option.splits)

text \<open>How a peripheral comes out of a handshake.\<close>

lemma createFromHandshakeRequest_Inr:
  assumes c: "snd (createFromHandshakeRequest m q r) = Inr (b, s)"
  obtains rq t where "decodeBtpHandshakeRequest q = Inr rq" "s = t\<lparr>ackReceiveTimer := True\<rparr>"
    "encodeBtpHandshakeResponse \<lparr>version = 4, rsp_attMtu = negotiateMtu m (req_attMtu rq),
      windowSize = min BTP_MAXIMUM_WINDOW_SIZE (clientWindowSize rq)\<rparr> = Inr b"
    "BtpSessionHandler Peripheral 4 (negotiateMtu m (req_attMtu rq)) (min BTP_MAXIMUM_WINDOW_SIZE (clientWindowSize rq)) = Inr t"
proof -
  obtain rq where q: "decodeBtpHandshakeRequest q = Inr rq"
    using c by (cases "decodeBtpHandshakeRequest q") (simp_all add: createFromHandshakeRequest_def)
  have v: "find (\<lambda>v. v \<in> set (versions rq)) BTP_SUPPORTED_VERSIONS = Some 4"
    using c q by (simp add: createFromHandshakeRequest_def BTP_SUPPORTED_VERSIONS_def split: if_splits)
  show thesis
    using c q v that by (cases r) (simp_all add: createFromHandshakeRequest_def Let_def bindE_eq_Inr_iff, blast)
qed

lemma btp_created_inv: "btp_created s \<Longrightarrow> btp_inv s"
proof -
  have p: "btp_inv s" if c: "snd (createFromHandshakeRequest m q r) = Inr (b, s)" for m q r b
  proof -
    obtain rq t where d: "decodeBtpHandshakeRequest q = Inr rq" "s = t\<lparr>ackReceiveTimer := True\<rparr>"
        "BtpSessionHandler Peripheral 4 (negotiateMtu m (req_attMtu rq)) (min BTP_MAXIMUM_WINDOW_SIZE (clientWindowSize rq)) = Inr t"
      by (rule createFromHandshakeRequest_Inr [OF c])
    have "btp_inv t"
      using handshake_window(1) [OF d(1)] by (intro BtpSessionHandler_inv [OF d(3)] negotiateMtu_bounds) (simp_all add: btp_constants)
    then show ?thesis by (rule btp_inv_cong) (simp_all add: d(2))
  qed
  have c: "btp_inv s" if "createAsCentral q = Inr s" for q
    using that handshake_window(2) by (auto simp: createAsCentral_def bindE_eq_Inr_iff intro!: BtpSessionHandler_inv)
  show "btp_created s \<Longrightarrow> btp_inv s" using p c by (auto simp: btp_created_def)
qed

lemma btp_reachable_inv: "btp_reachable s \<Longrightarrow> btp_inv s"
  by (induction rule: btp_reachable.induct) (auto intro: btp_created_inv btp_step_inv)

section \<open>Properties\<close>

text \<open>
  C21: in every state a session can get into, whatever arrives, is sent, fails or times out and in whatever order the
  suspended parts go on: at most one write is under way and it holds the lock; the packets that are not acknowledged are no
  more than the window of the peer allows, one (the handshake) in any case; the buffer for reassembly holds no more than
  a message may have; and \<open>closed\<close> has been emitted at most once, and only for an inactive session.
\<close>

theorem btp_session_invariant:
  assumes "btp_reachable s"
  shows "length (filter is_write (tasks s)) \<le> of_bool (sendInProgress s) \<and>
    modularDistance (prevIncomingAckNumber s) (outSequenceNumber s) \<le> max 1 (peerWindowSize s) \<and>
    (case currentIncomingSegmentedPayload s of None \<Rightarrow> True | Some b \<Rightarrow> length b < 2 ^ 16) \<and>
    closedEmitted s \<le> of_bool (\<not> isActive s)"
  using btp_reachable_inv [OF assms]
  by (auto simp: btp_inv_def btp_inv_defs btp_constants split: option.splits)

definition example_session :: btp_session where
  "example_session = (case createFromHandshakeRequest (Some 50) [0x65, 0x6c, 4, 0, 0, 0, 247, 0, 4] None of
    (_, Inr (_, s)) \<Rightarrow> sendMatterMessage (replicate 60 7) s)"

lemma example_reachable: "btp_reachable example_session"
proof -
  obtain d b s where c: "createFromHandshakeRequest (Some 50) [0x65, 0x6c, 4, 0, 0, 0, 247, 0, 4] None = (d, Inr (b, s))"
  proof -
    have "case createFromHandshakeRequest (Some 50) [0x65, 0x6c, 4, 0, 0, 0, 247, 0, 4] None of (d, Inr x) \<Rightarrow> True | _ \<Rightarrow> False"
      by code_simp
    then show thesis using that by (auto split: prod.splits sum.splits)
  qed
  have "snd (createFromHandshakeRequest (Some 50) [0x65, 0x6c, 4, 0, 0, 0, 247, 0, 4] None) = Inr (b, s)" by (simp add: c)
  then have "btp_reachable s" unfolding btp_created_def by (intro btp_reachable.created) (unfold btp_created_def, blast)
  from btp_reachable.step [OF this btp_step.send] show ?thesis by (simp add: example_session_def c)
qed

theorem btp_session_invariant_witness:
  "length (filter is_write (tasks example_session)) = 1 \<and> sendInProgress example_session \<and>
    modularDistance (prevIncomingAckNumber example_session) (outSequenceNumber example_session) = 2 \<and>
    2 \<le> max 1 (peerWindowSize example_session) \<and> peerWindowSize example_session = 4 \<and>
    closedEmitted example_session \<le> of_bool (\<not> isActive example_session)"
proof -
  have v: "tasks example_session = [QueueWrite FromSend 255 False]" "sendInProgress example_session"
    "modularDistance (prevIncomingAckNumber example_session) (outSequenceNumber example_session) = 2"
    "peerWindowSize example_session = 4"
    by code_simp+
  show ?thesis using btp_session_invariant [OF example_reachable] v by simp
qed

end
