(* ===== verification/Btp_Link.thy ===== *)
theory Btp_Link
  imports Btp_Session "HOL-Library.Sublist"
begin

text \<open>
  Two BTP sessions connected by a transport that neither loses nor reorders packets.

  Packets are abstracted to their positions in the unbounded sequence of packets of a session and to the piece of a
  message they carry.  The lemmas show that a session does what its abstract history says, and from that that two
  connected sessions never fail and deliver messages unchanged and in order.
\<close>

section \<open>Abstract packets\<close>

text \<open>An acknowledgement counts the packets of the peer that are acknowledged, the handshake included.  A segment
  has the length of the message if it is the first, whether it is the last, and its bytes.\<close>

record abs_packet =
  pk_ack :: "nat option"
  pk_segment :: "(nat option \<times> bool \<times> bytes) option"

definition seq_num :: "nat \<Rightarrow> int" where
  "seq_num k = int k mod 256"

definition ack_num :: "nat \<Rightarrow> int" where
  "ack_num a = (int a - 1) mod 256"

definition packet_at :: "nat \<Rightarrow> abs_packet \<Rightarrow> BtpPacket" where
  "packet_at k p = (case pk_segment p of
      None \<Rightarrow> ack_packet (ack_num (the (pk_ack p))) (seq_num k)
    | Some (len, ending, d) \<Rightarrow>
        data_packet (pk_ack p \<noteq> None) (len \<noteq> None) ending (ack_num (the (pk_ack p))) (seq_num k) (int (the len)) d)"

definition wire_of :: "nat \<Rightarrow> abs_packet list \<Rightarrow> bytes list" where
  "wire_of base ps = map (\<lambda>(i, p). btp_packet_bytes (packet_at (base + i) p)) (enumerate 0 ps)"

lemma wire_of_snoc: "wire_of base (ps @ [p]) = wire_of base ps @ [btp_packet_bytes (packet_at (base + length ps) p)]"
  by (simp add: wire_of_def enumerate_append_eq)

lemma wire_of_simps [simp]: "wire_of base [] = []" "length (wire_of base ps) = length ps"
  by (simp_all add: wire_of_def)

lemma wire_of_nth: "i < length ps \<Longrightarrow> wire_of base ps ! i = btp_packet_bytes (packet_at (base + i) (ps ! i))"
  by (simp add: wire_of_def nth_enumerate_eq)

definition acks :: "abs_packet list \<Rightarrow> nat list" where
  "acks ps = List.map_filter pk_ack ps"

definition last_ack :: "abs_packet list \<Rightarrow> nat" where
  "last_ack ps = last (0 # acks ps)"

lemma acks_snoc [simp]: "acks [] = []" "acks (ps @ [p]) = acks ps @ (case pk_ack p of None \<Rightarrow> [] | Some a \<Rightarrow> [a])"
  by (auto simp: acks_def map_filter_def split: option.splits)

lemma acks_append: "acks (ps @ qs) = acks ps @ acks qs"
  by (simp add: acks_def map_filter_def)

lemma last_ack_snoc [simp]: "last_ack [] = 0" "last_ack (ps @ [p]) = (case pk_ack p of None \<Rightarrow> last_ack ps | Some a \<Rightarrow> a)"
  by (auto simp: last_ack_def split: option.splits)

text \<open>What a packet of a session looks like: it carries something, and fits into a fragment.\<close>

definition wf_packet :: "int \<Rightarrow> abs_packet \<Rightarrow> bool" where
  "wf_packet F p \<longleftrightarrow> pk_ack p \<noteq> Some 0 \<and> (case pk_segment p of
      None \<Rightarrow> pk_ack p \<noteq> None
    | Some (len, ending, d) \<Rightarrow> d \<noteq> [] \<and> (case len of None \<Rightarrow> True | Some n \<Rightarrow> n < 2 ^ 16) \<and>
        int (length d) + 2 + (if len = None then 0 else 2) + (if pk_ack p = None then 0 else 1) \<le> F)"

lemma seq_num_range: "0 \<le> seq_num k" "seq_num k < 256" "0 \<le> ack_num a" "ack_num a < 256"
  by (simp_all add: seq_num_def ack_num_def)

lemma packet_sendable:
  assumes "wf_packet F p"
  shows "sendable (packet_at k p)" "btp_in_range (snd (packet_at k p))"
  using assms seq_num_range
  by (auto simp: packet_at_def wf_packet_def data_packet_def ack_packet_def sendable_def btp_in_range_def split: option.splits)

lemma packet_encoded: "wf_packet F p \<Longrightarrow> encodeBtpPacket (packet_at k p) = Inr (btp_packet_bytes (packet_at k p))"
  using encodeBtpPacket_bytes [of "fst (packet_at k p)" "snd (packet_at k p)"] packet_sendable [of F p k] by simp

lemma packet_length:
  assumes "wf_packet F p" "5 \<le> F" shows "int (length (btp_packet_bytes (packet_at k p))) \<le> F"
  using assms
  by (auto simp: packet_at_def wf_packet_def data_packet_def ack_packet_def btp_packet_bytes_def btp_payload_bytes_def
      split: option.splits if_splits)

section \<open>Reassembly\<close>

text \<open>The messages completed so far and the one under way, with its length; \<open>None\<close> when the segments do not fit.\<close>

type_synonym assembly = "bytes list \<times> (nat \<times> bytes) option"

definition finish :: "bool \<Rightarrow> bytes list \<Rightarrow> nat \<Rightarrow> bytes \<Rightarrow> assembly option" where
  "finish ending fin len b =
    (if ending then (if length b = len then Some (fin @ [b], None) else None) else Some (fin, Some (len, b)))"

fun assemble :: "assembly \<Rightarrow> abs_packet \<Rightarrow> assembly option" where
  "assemble (fin, cur) p = (case pk_segment p of
      None \<Rightarrow> Some (fin, cur)
    | Some (Some len, ending, d) \<Rightarrow> (case cur of None \<Rightarrow> finish ending fin len d | Some _ \<Rightarrow> None)
    | Some (None, ending, d) \<Rightarrow> (case cur of
        None \<Rightarrow> None
      | Some (len, b) \<Rightarrow> if length b + length d > len then None else finish ending fin len (b @ d)))"

fun reassemble :: "assembly \<Rightarrow> abs_packet list \<Rightarrow> assembly option" where
  "reassemble st [] = Some st"
| "reassemble st (p # ps) = Option.bind (assemble st p) (\<lambda>st. reassemble st ps)"

lemma reassemble_append: "reassemble st (ps @ qs) = Option.bind (reassemble st ps) (\<lambda>st. reassemble st qs)"
proof (induction ps arbitrary: st)
  case (Cons p ps)
  then show ?case by (cases "assemble st p") simp_all
qed simp

lemma assemble_fin: "assemble (fin, cur) p = Some (fin', cur') \<Longrightarrow> prefix fin fin'"
  by (auto simp: finish_def split: option.splits if_splits prod.splits)

lemma reassemble_fin: "reassemble (fin, cur) ps = Some (fin', cur') \<Longrightarrow> prefix fin fin'"
proof (induction ps arbitrary: fin cur)
  case (Cons p ps)
  then obtain d c where "assemble (fin, cur) p = Some (d, c)" "reassemble (d, c) ps = Some (fin', cur')"
    by (auto simp: bind_eq_Some_conv)
  then show ?case using Cons(1) assemble_fin prefix_order.trans by metis
qed simp

lemma reassemble_prefix:
  assumes "reassemble ([], None) ps = Some (fin', cur')" "prefix qs ps" "reassemble ([], None) qs = Some (fin, cur)"
  shows "prefix fin fin'"
proof -
  obtain rs where "ps = qs @ rs" using assms(2) by (auto simp: prefix_def)
  then show ?thesis using assms(1,3) reassemble_fin by (auto simp: reassemble_append)
qed

section \<open>A session and its history\<close>

text \<open>\<open>ps\<close> are the packets a session has written, \<open>qs\<close> those it has received, \<open>sent\<close> the messages it was given.\<close>

definition base_of :: "btp_session \<Rightarrow> nat" where
  "base_of x = (if role x = Peripheral then 1 else 0)"

definition peer_base :: "btp_session \<Rightarrow> nat" where
  "peer_base x = (if role x = Peripheral then 0 else 1)"

text \<open>The number of the last of \<open>a\<close> packets, or the value that stands for none.\<close>

definition last_num :: "nat \<Rightarrow> int" where
  "last_num a = (if a = 0 then -1 else ack_num a)"

lemma last_num_mod [simp]: "last_num a mod 256 = ack_num a"
  by (simp add: last_num_def ack_num_def)

definition seq_inv :: "btp_session \<Rightarrow> abs_packet list \<Rightarrow> abs_packet list \<Rightarrow> bool" where
  "seq_inv x ps qs \<longleftrightarrow> (let n = base_of x + length ps; r = peer_base x + length qs; a = last_ack qs; sa = last_ack ps in
    outSequenceNumber x = last_num n \<and>
    prevIncomingSequenceNumber x = ack_num r \<and>
    prevIncomingAckNumber x = last_num a \<and>
    prevAckedSequenceNumber x = (if sa = 0 \<and> role x = Central then -1 else ack_num sa) \<and>
    a \<le> n \<and> n - a \<le> 255 \<and> sa \<le> r \<and> r - sa \<le> 255 \<and> sorted (acks ps) \<and>
    0 \<le> peerWindowSize x \<and> peerWindowSize x \<le> 255)"

lemma ack_num_distance: "a \<le> b \<Longrightarrow> b - a \<le> 255 \<Longrightarrow> (ack_num b - ack_num a) mod 256 = int (b - a)"
  by (simp add: ack_num_def mod_diff_eq)

lemma ack_num_eq: "a \<le> b \<Longrightarrow> b - a \<le> 255 \<Longrightarrow> ack_num b = ack_num a \<longleftrightarrow> a = b"
  using ack_num_distance [of a b] by auto

lemma last_num_distance:
  assumes "a \<le> b" "b - a \<le> 255" shows "(last_num b - last_num a) mod 256 = int (b - a)"
proof -
  have "(last_num b - last_num a) mod 256 = (last_num b mod 256 - last_num a mod 256) mod 256" by (rule mod_diff_eq [symmetric])
  then show ?thesis using ack_num_distance [OF assms] by simp
qed

lemma seq_inv_distance:
  assumes "seq_inv x ps qs"
  shows "modularDistance (prevIncomingAckNumber x) (outSequenceNumber x) = int (base_of x + length ps - last_ack qs)"
  using assms last_num_distance [of "last_ack qs" "base_of x + length ps"]
  by (simp add: modularDistance_mod seq_inv_def Let_def)

lemma seq_inv_pending:
  assumes "seq_inv x ps qs"
  shows "prevIncomingSequenceNumber x \<noteq> prevAckedSequenceNumber x \<longleftrightarrow> last_ack ps \<noteq> peer_base x + length qs"
proof (cases "last_ack ps = 0 \<and> role x = Central")
  case True
  then show ?thesis using assms seq_num_range(3) [of "peer_base x + length qs"] by (auto simp: seq_inv_def Let_def peer_base_def)
next
  case False
  then show ?thesis using assms ack_num_eq [of "last_ack ps" "peer_base x + length qs"] by (auto simp: seq_inv_def Let_def)
qed

lemma next_num: "(let n = last_num k + 1 in if n > 255 then 0 else n) = seq_num k"
proof (cases "k = 0")
  case False
  define m where "m = (int k - 1) mod 256"
  have "0 \<le> m" "m = 255 \<or> m < 255" using pos_mod_bound [of 256 "int k - 1"] by (auto simp: m_def)
  moreover have "int k mod 256 = (m + 1) mod 256" by (simp add: m_def mod_simps)
  ultimately show ?thesis using False by (auto simp: last_num_def ack_num_def seq_num_def m_def [symmetric] Let_def)
qed (simp add: last_num_def seq_num_def)

lemma seq_inv_next:
  assumes "seq_inv x ps qs"
  shows "fst (getNextSequenceNumber x) = seq_num (base_of x + length ps)"
  using assms next_num [of "base_of x + length ps"]
  by (simp add: seq_inv_def Let_def getNextSequenceNumber_def MAXIMUM_SEQUENCE_NUMBER_def)

lemma seq_num_last: "seq_num k = last_num (k + 1)" "seq_num k = ack_num (k + 1)"
  by (simp_all add: seq_num_def ack_num_def last_num_def)

lemma canSend_room:
  assumes "seq_inv x ps qs" "canSend c x" shows "base_of x + length ps + 1 - last_ack qs \<le> 255"
  using assms seq_inv_distance [OF assms(1)]
  by (auto simp: canSend_def remoteWindowFreeSlots_def Let_def seq_inv_def split: if_splits)

text \<open>Only these fields matter to the sequence numbers.\<close>

definition seq_fields :: "btp_session \<Rightarrow> btp_role \<times> int \<times> int \<times> int \<times> int \<times> int" where
  "seq_fields x = (role x, outSequenceNumber x, prevIncomingSequenceNumber x, prevIncomingAckNumber x,
    prevAckedSequenceNumber x, peerWindowSize x)"

lemma seq_inv_cong: "seq_fields y = seq_fields x \<Longrightarrow> seq_inv y ps qs = seq_inv x ps qs"
  by (simp add: seq_fields_def seq_inv_def base_of_def peer_base_def)

lemma seq_inv_send:
  assumes "seq_inv x ps qs" "canSend c x" "pk_ack p = (if ack then Some (peer_base x + length qs) else None)"
    "role y = role x" "outSequenceNumber y = seq_num (base_of x + length ps)"
    "prevIncomingSequenceNumber y = prevIncomingSequenceNumber x" "prevIncomingAckNumber y = prevIncomingAckNumber x"
    "prevAckedSequenceNumber y = (if ack then prevIncomingSequenceNumber x else prevAckedSequenceNumber x)"
    "peerWindowSize y = peerWindowSize x"
  shows "seq_inv y (ps @ [p]) qs"
proof -
  have b: "base_of y = base_of x" "peer_base y = peer_base x" using assms(4) by (simp_all add: base_of_def peer_base_def)
  have s: "sorted (acks ps) \<Longrightarrow> last_ack ps \<le> r \<Longrightarrow> sorted (acks ps @ [r])" for r
    by (cases "acks ps" rule: rev_cases) (auto simp: last_ack_def sorted_append)
  have c: "role x = Central \<Longrightarrow> peer_base x \<noteq> 0" by (simp add: peer_base_def)
  show ?thesis
    using assms(1,3-) canSend_room [OF assms(1,2)] c s
    by (cases ack) (auto simp: seq_inv_def Let_def b seq_num_last(1))
qed

lemma seq_inv_receive:
  assumes "seq_inv x ps qs" "peer_base x + length qs + 1 - last_ack ps \<le> 255"
    "\<And>a. pk_ack p = Some a \<Longrightarrow> last_ack qs \<le> a \<and> a \<le> base_of x + length ps"
    "role y = role x" "outSequenceNumber y = outSequenceNumber x"
    "prevIncomingSequenceNumber y = seq_num (peer_base x + length qs)"
    "prevIncomingAckNumber y = (case pk_ack p of None \<Rightarrow> prevIncomingAckNumber x | Some a \<Rightarrow> ack_num a)"
    "prevAckedSequenceNumber y = prevAckedSequenceNumber x" "peerWindowSize y = peerWindowSize x"
    "\<And>a. pk_ack p = Some a \<Longrightarrow> a \<noteq> 0"
  shows "seq_inv y ps (qs @ [p])"
proof -
  have b: "base_of y = base_of x" "peer_base y = peer_base x" using assms(4) by (simp_all add: base_of_def peer_base_def)
  show ?thesis
    using assms by (cases "pk_ack p") (auto simp: seq_inv_def Let_def b seq_num_last(2) last_num_def)
qed

text \<open>The packet a session expects passes the checks of the sequence and acknowledgement numbers.\<close>

lemma expected_sequence:
  assumes "seq_inv x ps qs"
  shows "js_rem (prevIncomingSequenceNumber x + 1) 256 = seq_num (peer_base x + length qs)"
proof -
  let ?r = "peer_base x + length qs"
  have e: "prevIncomingSequenceNumber x = ack_num ?r" using assms by (simp add: seq_inv_def Let_def)
  have "0 \<le> ack_num ?r + 1" using seq_num_range(3) [of ?r] by simp
  then have "js_rem (ack_num ?r + 1) 256 = (ack_num ?r + 1) mod 256" by (auto simp: js_rem_def sgn_if)
  also have "\<dots> = seq_num ?r" by (simp add: ack_num_def seq_num_def mod_simps)
  finally show ?thesis by (simp add: e)
qed

lemma expected_ack:
  assumes "seq_inv x ps qs" "last_ack qs \<le> a" "a \<le> base_of x + length ps"
  shows "modularDistance (prevIncomingAckNumber x) (ack_num a) \<le>
    modularDistance (prevIncomingAckNumber x) (outSequenceNumber x)"
proof -
  have p: "prevIncomingAckNumber x = last_num (last_ack qs)" "base_of x + length ps - last_ack qs \<le> 255"
    using assms(1) by (simp_all add: seq_inv_def Let_def)
  have "(ack_num a - last_num (last_ack qs)) mod 256 = (last_num a mod 256 - last_num (last_ack qs)) mod 256" by simp
  also have "\<dots> = (last_num a - last_num (last_ack qs)) mod 256" by (rule mod_diff_left_eq)
  also have "\<dots> = int (a - last_ack qs)" using assms(2,3) p(2) by (intro last_num_distance) auto
  finally show ?thesis using seq_inv_distance [OF assms(1)] assms(3) by (simp add: modularDistance_mod p(1))
qed

text \<open>What is queued: the messages not yet begun behind the one under way.  While the last segment of a message is being
  written, the message is still at the head of the queue.\<close>

definition fresh :: "data_reader \<Rightarrow> bool" where
  "fresh r \<longleftrightarrow> rd_offset r = 0 \<and> rd_buffer r \<noteq> [] \<and> length (rd_buffer r) < 2 ^ 16"

definition queue_rel :: "bool \<Rightarrow> data_reader list \<Rightarrow> assembly \<Rightarrow> bytes list \<Rightarrow> bool" where
  "queue_rel lastWritten queue st sent \<longleftrightarrow> (case queue of
      [] \<Rightarrow> \<not> lastWritten \<and> st = (sent, None)
    | m # rest \<Rightarrow> list_all fresh rest \<and>
        (if lastWritten then snd st = None \<and> sent = fst st @ map rd_buffer rest
         else sent = fst st @ map rd_buffer (m # rest) \<and> 0 \<le> rd_offset m \<and> rd_offset m < int (length (rd_buffer m)) \<and>
           length (rd_buffer m) < 2 ^ 16 \<and>
           snd st = (if rd_offset m = 0 then None else Some (length (rd_buffer m), take (nat (rd_offset m)) (rd_buffer m)))))"

definition last_written :: "btp_session \<Rightarrow> bool" where
  "last_written x \<longleftrightarrow> (\<exists>c n. QueueWrite c n True \<in> set (tasks x))"

definition out_inv :: "btp_session \<Rightarrow> abs_packet list \<Rightarrow> bytes list \<Rightarrow> bool" where
  "out_inv x ps sent \<longleftrightarrow> wire x = wire_of (base_of x) ps \<and>
    (\<exists>st. reassemble ([], None) ps = Some st \<and> queue_rel (last_written x) (queuedOutgoingMatterMessages x) st sent)"

definition in_inv :: "btp_session \<Rightarrow> abs_packet list \<Rightarrow> bool" where
  "in_inv x qs \<longleftrightarrow> (\<exists>cur. reassemble ([], None) qs = Some (delivered x, cur) \<and>
    currentIncomingSegmentedMsgLength x = map_option (int \<circ> fst) cur \<and> currentIncomingSegmentedPayload x = map_option snd cur)"

definition calm :: "btp_role \<Rightarrow> int \<Rightarrow> btp_session \<Rightarrow> bool" where
  "calm R F x \<longleftrightarrow> role x = R \<and> isActive x \<and> raised x = [] \<and> fragmentSize x = F \<and> 20 \<le> F \<and>
    filter is_disconnect (tasks x) = [] \<and> writes x \<le> of_bool (sendInProgress x)"

definition sess_inv :: "btp_role \<Rightarrow> int \<Rightarrow> btp_session \<Rightarrow> abs_packet list \<Rightarrow> abs_packet list \<Rightarrow> bytes list \<Rightarrow> bool" where
  "sess_inv R F x ps qs sent \<longleftrightarrow> seq_inv x ps qs \<and> out_inv x ps sent \<and> in_inv x qs \<and> calm R F x \<and> list_all (wf_packet F) ps"

lemmas sess_defs = sess_inv_def out_inv_def in_inv_def calm_def

text \<open>A change that touches none of the fields the history speaks of.\<close>

definition sess_fields where
  "sess_fields x = (seq_fields x, wire x, queuedOutgoingMatterMessages x, delivered x, currentIncomingSegmentedMsgLength x,
    currentIncomingSegmentedPayload x, isActive x, raised x, fragmentSize x)"

lemma sess_inv_cong:
  assumes "sess_inv R F x ps qs sent" "sess_fields y = sess_fields x" "last_written y = last_written x"
    "filter is_disconnect (tasks y) = []" "writes y \<le> of_bool (sendInProgress y)"
  shows "sess_inv R F y ps qs sent"
proof -
  have s: "seq_fields y = seq_fields x" using assms(2) by (simp add: sess_fields_def)
  then have b: "base_of y = base_of x" by (simp add: seq_fields_def base_of_def)
  note f = assms(2) [unfolded sess_fields_def prod.inject]
  have r: "role y = role x" using s by (simp add: seq_fields_def)
  have "out_inv y ps sent" using assms(1) by (simp add: out_inv_def sess_inv_def f b assms(3))
  moreover have "in_inv y qs" using assms(1) by (simp add: in_inv_def sess_inv_def f)
  moreover have "calm R F y" using assms(1,4,5) by (simp add: calm_def sess_inv_def f r)
  ultimately show ?thesis using assms(1) seq_inv_cong [OF s] by (simp add: sess_inv_def)
qed

lemma sess_inv_tasks:
  assumes "sess_inv R F x ps qs sent" shows "filter is_disconnect (tasks x) = []" "writes x \<le> of_bool (sendInProgress x)"
  using assms by (simp_all add: sess_inv_def calm_def)

text \<open>A task that is no write may come or go, and timers may start or stop.\<close>

lemma sess_inv_task:
  assumes "sess_inv R F x ps qs sent" "\<not> is_write t" "\<not> is_disconnect t"
  shows "sess_inv R F (x\<lparr>tasks := t # tasks x\<rparr>) ps qs sent"
proof (rule sess_inv_cong [OF assms(1)])
  show "last_written (x\<lparr>tasks := t # tasks x\<rparr>) = last_written x" using assms(2) by (auto simp: last_written_def)
qed (use assms(2,3) sess_inv_tasks [OF assms(1)] in \<open>simp_all add: sess_fields_def seq_fields_def writes_def\<close>)

text \<open>The packets of a session are only ever extended.\<close>

definition goes :: "btp_role \<Rightarrow> int \<Rightarrow> btp_session \<Rightarrow> abs_packet list \<Rightarrow> abs_packet list \<Rightarrow> bytes list \<Rightarrow> bool" where
  "goes R F x ps qs sent \<longleftrightarrow> (\<exists>ps'. prefix ps ps' \<and> sess_inv R F x ps' qs sent)"

lemma goes_stay: "sess_inv R F x ps qs sent \<Longrightarrow> goes R F x ps qs sent"
  by (auto simp: goes_def)

lemma return_to_goes:
  assumes "sess_inv R F x ps qs sent" shows "goes R F (return_to c x) ps qs sent"
  using assms sess_inv_task [OF assms, of AfterQueue] by (cases c) (simp_all add: goes_stay)

lemma getNext_fields: "getNextSequenceNumber x = (fst (getNextSequenceNumber x), x\<lparr>outSequenceNumber := fst (getNextSequenceNumber x)\<rparr>)"
  by (simp add: getNextSequenceNumber_def Let_def)

lemma getNext_cong: "outSequenceNumber y = outSequenceNumber x \<Longrightarrow> fst (getNextSequenceNumber y) = fst (getNextSequenceNumber x)"
  by (simp add: getNextSequenceNumber_def Let_def)

lemma pending_positive:
  assumes "seq_inv x ps qs" "last_ack ps \<noteq> peer_base x + length qs"
  shows "peer_base x + length qs \<noteq> 0" "ack_num (peer_base x + length qs) = prevIncomingSequenceNumber x"
  using assms by (auto simp: seq_inv_def Let_def)

text \<open>A session that writes its next packet.\<close>

lemma sess_inv_write:
  assumes inv: "sess_inv R F x ps qs sent" and can: "canSend c x" and w: "writes x = 0" and p: "wf_packet F p"
    and a: "pk_ack p = (if ack then Some (peer_base x + length qs) else None)"
    and s: "seq_fields y = (role x, seq_num (base_of x + length ps), prevIncomingSequenceNumber x, prevIncomingAckNumber x,
      (if ack then prevIncomingSequenceNumber x else prevAckedSequenceNumber x), peerWindowSize x)"
    and o: "wire y = wire x @ [btp_packet_bytes (packet_at (base_of x + length ps) p)]"
      "reassemble ([], None) (ps @ [p]) = Some st" "queue_rel (last_written y) (queuedOutgoingMatterMessages y) st sent"
    and i: "delivered y = delivered x" "currentIncomingSegmentedMsgLength y = currentIncomingSegmentedMsgLength x"
      "currentIncomingSegmentedPayload y = currentIncomingSegmentedPayload x"
    and l: "isActive y = isActive x" "raised y = raised x" "fragmentSize y = fragmentSize x" "sendInProgress y"
      "tasks y = t # tasks x" "is_write t" "\<not> is_disconnect t"
  shows "sess_inv R F y (ps @ [p]) qs sent"
proof -
  have "seq_inv x ps qs" using inv by (simp add: sess_inv_def)
  then have 1: "seq_inv y (ps @ [p]) qs" by (rule seq_inv_send [OF _ can a]) (use s in \<open>simp_all add: seq_fields_def\<close>)
  have b: "base_of y = base_of x" using s by (simp add: seq_fields_def base_of_def)
  have 2: "out_inv y (ps @ [p]) sent" using inv o by (simp add: out_inv_def sess_inv_def wire_of_snoc b)
  have 3: "in_inv y qs" using inv i by (simp add: sess_inv_def in_inv_def)
  have "role y = role x" using s by (simp add: seq_fields_def)
  then have 4: "calm R F y" using inv l w by (simp add: sess_inv_def calm_def writes_def)
  show ?thesis using 1 2 3 4 inv p by (simp add: sess_inv_def)
qed

lemma sendStandaloneAck_goes:
  assumes inv: "sess_inv R F x ps qs sent" shows "goes R F (sendStandaloneAck c x) ps qs sent"
proof (cases "sendInProgress x \<or> prevIncomingSequenceNumber x = prevAckedSequenceNumber x \<or> \<not> canSend True x")
  case True
  then show ?thesis using return_to_goes [OF inv, of c] by (auto simp: sendStandaloneAck_def Let_def)
next
  case False
  have seq: "seq_inv x ps qs" using inv by (simp add: sess_inv_def)
  let ?n = "base_of x + length ps" and ?r = "peer_base x + length qs"
  define p where "p = \<lparr>pk_ack = Some ?r, pk_segment = None\<rparr>"
  have r: "?r \<noteq> 0" "ack_num ?r = prevIncomingSequenceNumber x"
    using pending_positive [OF seq] seq_inv_pending [OF seq] False by auto
  have p: "wf_packet F p" and pa: "pk_ack p = Some ?r" using r by (simp_all add: wf_packet_def p_def)
  have e: "ack_packet (prevIncomingSequenceNumber x) (seq_num ?n) = packet_at ?n p" using r(2) by (simp add: packet_at_def p_def)
  have g: "getNextSequenceNumber (x\<lparr>sendInProgress := True\<rparr>) = (seq_num ?n, x\<lparr>sendInProgress := True, outSequenceNumber := seq_num ?n\<rparr>)"
    using getNext_fields [of "x\<lparr>sendInProgress := True\<rparr>"] getNext_cong [of "x\<lparr>sendInProgress := True\<rparr>" x] seq_inv_next [OF seq] by simp
  let ?y = "x\<lparr>sendInProgress := True, outSequenceNumber := seq_num ?n, prevAckedSequenceNumber := prevIncomingSequenceNumber x,
    wire := wire x @ [btp_packet_bytes (packet_at ?n p)], tasks := AckWrite c (prevAckedSequenceNumber x) # tasks x\<rparr>"
  have y: "sendStandaloneAck c x = ?y" using False by (simp add: sendStandaloneAck_def Let_def g e packet_encoded [OF p])
  obtain st where st: "reassemble ([], None) ps = Some st" "queue_rel (last_written x) (queuedOutgoingMatterMessages x) st sent"
    using inv by (auto simp: sess_inv_def out_inv_def)
  have a: "reassemble ([], None) (ps @ [p]) = Some st" using st(1) by (cases st) (simp add: reassemble_append p_def)
  have q: "last_written ?y = last_written x" by (auto simp: last_written_def)
  have "writes x = 0" using False sess_inv_tasks(2) [OF inv] by simp
  then have "sess_inv R F ?y (ps @ [p]) qs sent"
    using False
    by (intro sess_inv_write [OF inv _ _ p, where ack = True and c = True and st = st and t = "AckWrite c (prevAckedSequenceNumber x)"])
      (use st(2) a q pa in \<open>simp_all add: seq_fields_def\<close>)
  then show ?thesis unfolding y goes_def by (intro exI [of _ "ps @ [p]"]) simp
qed

text \<open>The segment cut from the message at the head of the queue.\<close>

definition next_segment :: "int \<Rightarrow> data_reader \<Rightarrow> nat option \<times> bool \<times> bytes" where
  "next_segment room m =
    (let len = length (rd_buffer m); off = nat (rd_offset m)
     in (if off = 0 then Some len else None, int (len - off) \<le> room, take (nat room) (drop off (rd_buffer m))))"

lemma next_segment_assembles:
  assumes q: "queue_rel False (m # rest) st sent" and room: "1 \<le> room"
    and p: "pk_segment p = Some (next_segment room m)"
  defines "off \<equiv> nat (rd_offset m) + nat (min room (int (length (rd_buffer m)) - rd_offset m))"
  shows "\<exists>st'. assemble st p = Some st' \<and>
    queue_rel (int (length (rd_buffer m)) - rd_offset m \<le> room) (m\<lparr>rd_offset := int off\<rparr> # rest) st' sent"
proof -
  let ?b = "rd_buffer m"
  obtain fin where st: "st = (fin, if rd_offset m = 0 then None else Some (length ?b, take (nat (rd_offset m)) ?b))"
    and f: "sent = fin @ map rd_buffer (m # rest)" "list_all fresh rest" and o: "0 \<le> rd_offset m" "rd_offset m < int (length ?b)"
    "length ?b < 2 ^ 16"
    using q by (cases st) (auto simp: queue_rel_def)
  define k where "k = nat (rd_offset m)"
  define j where "j = nat room"
  have k: "rd_offset m = int k" "k < length ?b" and j: "room = int j" "0 < j" using o room by (auto simp: k_def j_def)
  have last: "int (length ?b) - rd_offset m \<le> room \<longleftrightarrow> length ?b \<le> k + j" using k j by auto
  have off: "off = (if length ?b \<le> k + j then length ?b else k + j)" using k j by (auto simp: off_def min_def nat_diff_distrib)
  have cut: "take k ?b @ take j (drop k ?b) = take (k + j) ?b" by (simp add: take_add)
  have seg: "next_segment room m = (if k = 0 then Some (length ?b) else None, length ?b \<le> k + j, take j (drop k ?b))"
    using k j by (auto simp: next_segment_def Let_def)
  show ?thesis
  proof (cases "length ?b \<le> k + j")
    case True
    then have "assemble st p = Some (fin @ [?b], None)"
      using cut k by (cases "k = 0") (auto simp: st p seg finish_def)
    then show ?thesis using True f by (simp add: queue_rel_def last)
  next
    case False
    then have "assemble st p = Some (fin, Some (length ?b, take (k + j) ?b))"
      using cut k by (cases "k = 0") (auto simp: st p seg finish_def)
    then show ?thesis using False f o j(2) by (simp add: queue_rel_def last off nat_int_add)
  qed
qed

lemma sendQueue_round_goes:
  assumes inv: "sess_inv R F x ps qs sent" and w: "writes x = 0" and sip: "sendInProgress x"
  shows "goes R F (sendQueue_round c x) ps qs sent"
proof (cases "queuedOutgoingMatterMessages x = [] \<or> \<not> canSend (prevIncomingSequenceNumber x \<noteq> prevAckedSequenceNumber x) x")
  case True
  have "sess_inv R F (x\<lparr>sendInProgress := False\<rparr>) ps qs sent"
    by (rule sess_inv_cong [OF inv]) (use w sess_inv_tasks [OF inv] in \<open>simp_all add: sess_fields_def seq_fields_def last_written_def writes_def\<close>)
  from sendStandaloneAck_goes [OF this, of c] show ?thesis using True by (auto simp: sendQueue_round_def Let_def split: list.splits)
next
  case False
  have seq: "seq_inv x ps qs" and F: "fragmentSize x = F" "20 \<le> F" using inv by (simp_all add: sess_inv_def calm_def)
  let ?n = "base_of x + length ps" and ?r = "peer_base x + length qs"
  obtain m rest where q: "queuedOutgoingMatterMessages x = m # rest" using False by (cases "queuedOutgoingMatterMessages x") auto
  define ack where "ack = (prevIncomingSequenceNumber x \<noteq> prevAckedSequenceNumber x)"
  have can: "canSend ack x" using False by (simp add: ack_def)
  have nw: "\<not> last_written x" using w by (auto simp: writes_def last_written_def filter_empty_conv)
  obtain st where st: "reassemble ([], None) ps = Some st" "queue_rel False (m # rest) st sent"
    using inv nw q by (auto simp: sess_inv_def out_inv_def)
  let ?b = "rd_buffer m"
  define remaining where "remaining = remainingBytesCount m"
  define beginning where "beginning = (remaining = reader_length m)"
  define room where "room = F - (2 + (if beginning then 2 else 0) + (if ack then 1 else 0))"
  have o: "0 \<le> rd_offset m" "rd_offset m < int (length ?b)" "length ?b < 2 ^ 16" using st(2) by (simp_all add: queue_rel_def)
  have rem: "remaining = int (length ?b) - rd_offset m" "beginning \<longleftrightarrow> rd_offset m = 0"
    by (auto simp: remaining_def beginning_def remainingBytesCount_def reader_length_def)
  have room: "1 \<le> room" using F(2) by (simp add: room_def)
  define seg where "seg = take (nat room) (drop (nat (rd_offset m)) ?b)"
  have ns: "next_segment room m = (if beginning then Some (length ?b) else None, remaining \<le> room, seg)"
    using o rem by (auto simp: next_segment_def Let_def seg_def)
  have seg_take: "take (nat (min room remaining)) (drop (nat (rd_offset m)) ?b) = seg"
    using o rem by (auto simp: seg_def min_def nat_diff_distrib)
  have mr: "0 \<le> min room remaining" "rd_offset m + min room remaining \<le> int (length ?b)" using o rem room by auto
  have rd: "readByteArray (min room remaining) m = Inr (seg, m\<lparr>rd_offset := rd_offset m + min room remaining\<rparr>)"
    using mr by (simp add: readByteArray_def getOffsetAndAdvance_def Let_def subarray_def seg_take not_less)
  define p where "p = \<lparr>pk_ack = (if ack then Some ?r else None), pk_segment = Some (next_segment room m)\<rparr>"
  have r: "ack \<Longrightarrow> ?r \<noteq> 0 \<and> ack_num ?r = prevIncomingSequenceNumber x"
    using pending_positive [OF seq] seq_inv_pending [OF seq] by (simp add: ack_def)
  have pa: "pk_ack p = (if ack then Some ?r else None)"
    and psg: "pk_segment p = Some (if beginning then Some (length ?b) else None, remaining \<le> room, seg)"
    by (simp_all add: p_def ns)
  have "seg \<noteq> []" "int (length seg) \<le> F - (2 + (if beginning then 2 else 0) + (if ack then 1 else 0))"
    using o room by (auto simp: seg_def room_def [symmetric])
  then have p: "wf_packet F p" unfolding wf_packet_def pa psg using r o(3) by (cases beginning; cases ack) auto
  have pk: "packet_at ?n p = data_packet ack beginning (remaining \<le> room) (prevIncomingSequenceNumber x) (seq_num ?n) remaining seg"
    using r rem unfolding packet_at_def pa psg by (auto simp: data_packet_def)
  have enc: "encodeBtpPacket (data_packet ack beginning (remaining \<le> room) (prevIncomingSequenceNumber x) (seq_num ?n) remaining seg) =
      Inr (btp_packet_bytes (packet_at ?n p))"
    using packet_encoded [OF p, of ?n] unfolding pk .
  let ?m = "m\<lparr>rd_offset := rd_offset m + min room remaining\<rparr>"
  let ?x = "if ack then x\<lparr>sendAckTimer := False\<rparr> else x"
  let ?y = "?x\<lparr>queuedOutgoingMatterMessages := ?m # rest, outSequenceNumber := seq_num ?n,
    prevAckedSequenceNumber := (if ack then prevIncomingSequenceNumber x else prevAckedSequenceNumber x),
    wire := wire x @ [btp_packet_bytes (packet_at ?n p)],
    tasks := QueueWrite c (prevAckedSequenceNumber x) (remaining \<le> room) # tasks x\<rparr>"
  have y: "sendQueue_round c x = ?y"
  proof (rule sendQueue_round_cases [OF q ack_def can remaining_def beginning_def room_def [folded F(1)] refl refl, where c = c])
    fix segment current' e
    assume a: "readByteArray (min room remaining) m = Inr (segment, current')"
      "encodeBtpPacket (data_packet ack beginning (remaining \<le> room) (prevIncomingSequenceNumber x)
        (fst (getNextSequenceNumber x)) remaining segment) = Inl e"
    have "segment = seg" using a(1) rd by simp
    then show "sendQueue_round c x = ?y" using a(2) enc seq_inv_next [OF seq] by simp
  next
    fix segment current' packet
    assume a: "readByteArray (min room remaining) m = Inr (segment, current')"
      "encodeBtpPacket (data_packet ack beginning (remaining \<le> room) (prevIncomingSequenceNumber x)
        (fst (getNextSequenceNumber x)) remaining segment) = Inr packet"
      "sendQueue_round c x = ?x\<lparr>queuedOutgoingMatterMessages := current' # rest, outSequenceNumber := fst (getNextSequenceNumber x),
        prevAckedSequenceNumber := (if ack then prevIncomingSequenceNumber x else prevAckedSequenceNumber x),
        wire := wire x @ [packet], tasks := QueueWrite c (prevAckedSequenceNumber x) (remaining \<le> room) # tasks x\<rparr>"
    have "segment = seg" "current' = ?m" using a(1) rd by simp_all
    moreover from this have "packet = btp_packet_bytes (packet_at ?n p)" using a(2) enc seq_inv_next [OF seq] by simp
    ultimately show "sendQueue_round c x = ?y" using a(3) seq_inv_next [OF seq] by (simp only:)
  qed (simp add: rd)
  obtain st' where st': "assemble st p = Some st'" "queue_rel (remaining \<le> room) (?m # rest) st' sent"
    using next_segment_assembles [OF st(2) room, of p] o mr unfolding rem by (auto simp: p_def)
  have a: "reassemble ([], None) (ps @ [p]) = Some st'" using st(1) st'(1) by (simp add: reassemble_append)
  have lw: "last_written ?y \<longleftrightarrow> remaining \<le> room" using nw by (auto simp: last_written_def)
  have "sess_inv R F ?y (ps @ [p]) qs sent"
    by (rule sess_inv_write [OF inv can w p, where ack = ack and st = st' and t = "QueueWrite c (prevAckedSequenceNumber x) (remaining \<le> room)"])
      (use st'(2) a lw sip in \<open>simp_all add: seq_fields_def pa\<close>)
  then show ?thesis unfolding y goes_def by (intro exI [of _ "ps @ [p]"]) simp
qed

lemma processSendQueue_goes:
  assumes inv: "sess_inv R F x ps qs sent" shows "goes R F (processSendQueue c x) ps qs sent"
proof (cases "sendInProgress x \<or> queuedOutgoingMatterMessages x = []")
  case True
  then show ?thesis using return_to_goes [OF inv, of c] by (auto simp: processSendQueue_def)
next
  case False
  have w: "writes x = 0" using False sess_inv_tasks(2) [OF inv] by simp
  have "sess_inv R F (x\<lparr>sendInProgress := True\<rparr>) ps qs sent"
    by (rule sess_inv_cong [OF inv]) (use sess_inv_tasks [OF inv] w in \<open>simp_all add: sess_fields_def seq_fields_def last_written_def writes_def\<close>)
  from sendQueue_round_goes [OF this, of c] show ?thesis using False w by (simp add: processSendQueue_def writes_def)
qed

lemma sendImmediateAck_goes: "sess_inv R F x ps qs sent \<Longrightarrow> goes R F (sendImmediateAckIfWindowLow x) ps qs sent"
  by (simp add: sendImmediateAckIfWindowLow_def goes_stay sendStandaloneAck_goes)

lemma queue_rel_snoc:
  assumes "queue_rel b q st sent" "d \<noteq> []" "length d < 2 ^ 16"
  shows "queue_rel b (q @ [DataReader d True]) st (sent @ [d])"
  using assms by (cases q) (auto simp: queue_rel_def fresh_def DataReader_def)

lemma sendMatterMessage_goes:
  assumes inv: "sess_inv R F x ps qs sent" and d: "d \<noteq> []" "length d < 2 ^ 16"
  shows "goes R F (sendMatterMessage d x) ps qs (sent @ [d])"
proof -
  let ?y = "x\<lparr>queuedOutgoingMatterMessages := queuedOutgoingMatterMessages x @ [DataReader d True]\<rparr>"
  have "seq_inv ?y ps qs" using inv seq_inv_cong [of ?y x] by (simp add: sess_inv_def seq_fields_def)
  moreover have "out_inv ?y ps (sent @ [d])"
    using inv queue_rel_snoc [OF _ d] by (auto simp: sess_inv_def out_inv_def base_of_def last_written_def)
  moreover have "in_inv ?y qs" "calm R F ?y" using inv by (simp_all add: sess_inv_def in_inv_def calm_def writes_def)
  ultimately have "sess_inv R F ?y ps qs (sent @ [d])" using inv by (simp add: sess_inv_def)
  from processSendQueue_goes [OF this] show ?thesis
    using inv d by (simp add: sendMatterMessage_def sess_inv_def calm_def)
qed

text \<open>Resuming a task whose promise was fulfilled.\<close>

lemma writes_without:
  assumes "sess_inv R F x ps qs sent" "t \<in> set (tasks x)" "is_write t"
  shows "writes (without t x) = 0" "sendInProgress x"
proof -
  have "writes x = writes (without t x) + 1" using filter_remove1_length [OF assms(2), of is_write] assms(3)
    by (simp add: writes_def without_def)
  then show "writes (without t x) = 0" "sendInProgress x" using sess_inv_tasks(2) [OF assms(1)]
    by (cases "sendInProgress x"; simp)+
qed

lemma filter_remove1_Nil: "filter P ts = [] \<Longrightarrow> filter P (remove1 t ts) = []"
  by (auto simp: filter_empty_conv dest: notin_set_remove1)

lemma last_written_only:
  assumes "sess_inv R F x ps qs sent" "QueueWrite c n e \<in> set (tasks x)"
  shows "last_written x = e" "\<not> last_written (without (QueueWrite c n e) x)"
proof -
  have w: "is_write t \<Longrightarrow> t \<notin> set (remove1 (QueueWrite c n e) (tasks x))" for t
    using writes_without(1) [OF assms(1,2)] by (auto simp: writes_def without_def filter_empty_conv)
  then show "\<not> last_written (without (QueueWrite c n e) x)" by (auto simp: last_written_def without_def)
  have "QueueWrite c' n' True \<in> set (tasks x) \<Longrightarrow> QueueWrite c' n' True = QueueWrite c n e" for c' n'
    using w [of "QueueWrite c' n' True"] by (metis in_set_remove1 is_write.simps(1))
  then show "last_written x = e" using assms(2) unfolding last_written_def by (metis (full_types) btp_task.inject(1))
qed

lemma queue_rel_pop: "queue_rel True q st sent \<Longrightarrow> queue_rel False (tl q) st sent"
  by (cases q; cases "tl q"; cases st) (auto simp: queue_rel_def fresh_def)

text \<open>A change of the queue alone, with no write under way.\<close>

lemma sess_inv_queue:
  assumes inv: "sess_inv R F x ps qs sent" and q: "\<And>st. queue_rel (last_written x) (queuedOutgoingMatterMessages x) st sent \<Longrightarrow>
      queue_rel (last_written y) (queuedOutgoingMatterMessages y) st sent"
    and f: "sess_fields (y\<lparr>queuedOutgoingMatterMessages := q\<rparr>) = sess_fields (x\<lparr>queuedOutgoingMatterMessages := q\<rparr>)"
    and t: "filter is_disconnect (tasks y) = []" "writes y \<le> of_bool (sendInProgress y)"
  shows "sess_inv R F y ps qs sent"
proof -
  have s: "seq_fields y = seq_fields x" using f by (simp add: sess_fields_def seq_fields_def)
  then have b: "base_of y = base_of x" by (simp add: seq_fields_def base_of_def)
  have g: "wire y = wire x" "delivered y = delivered x" "currentIncomingSegmentedMsgLength y = currentIncomingSegmentedMsgLength x"
    "currentIncomingSegmentedPayload y = currentIncomingSegmentedPayload x" "isActive y = isActive x" "raised y = raised x"
    "fragmentSize y = fragmentSize x"
    using f by (simp_all add: sess_fields_def)
  have "out_inv y ps sent" using inv q by (auto simp: out_inv_def sess_inv_def g b)
  moreover have "in_inv y qs" using inv by (simp add: in_inv_def sess_inv_def g)
  moreover have "role y = role x" using s by (simp add: seq_fields_def)
  then have "calm R F y" using inv t by (simp add: calm_def sess_inv_def g)
  ultimately show ?thesis using inv seq_inv_cong [OF s] by (simp add: sess_inv_def)
qed

lemma segment_written_goes:
  assumes inv: "sess_inv R F x ps qs sent" and t: "QueueWrite c n e \<in> set (tasks x)"
  shows "goes R F (segment_written c n e None (without (QueueWrite c n e) x)) ps qs sent"
proof -
  let ?x = "without (QueueWrite c n e) x"
  define y where "y = (let s = ?x\<lparr>ackReceiveTimer := True\<rparr>;
            s = (if role s = Central then s\<lparr>idleTimeout := True\<rparr> else s)
        in (if e then s\<lparr>queuedOutgoingMatterMessages := tl (queuedOutgoingMatterMessages s)\<rparr> else s))"
  have y: "tasks y = tasks ?x" "sendInProgress y = sendInProgress x"
    "queuedOutgoingMatterMessages y = (if e then tl (queuedOutgoingMatterMessages x) else queuedOutgoingMatterMessages x)"
    "sess_fields (y\<lparr>queuedOutgoingMatterMessages := q\<rparr>) = sess_fields (x\<lparr>queuedOutgoingMatterMessages := q\<rparr>)" for q
    by (simp_all add: y_def Let_def without_def sess_fields_def seq_fields_def)
  note lw = last_written_only [OF inv t]
  have lwy: "\<not> last_written y" using lw(2) by (simp add: last_written_def y(1))
  have w: "writes y = 0" "sendInProgress y" using writes_without [OF inv t] y(1,2) by (simp_all add: writes_def)
  have "sess_inv R F y ps qs sent"
  proof (rule sess_inv_queue [OF inv _ y(4)])
    show "queue_rel (last_written y) (queuedOutgoingMatterMessages y) st sent"
      if "queue_rel (last_written x) (queuedOutgoingMatterMessages x) st sent" for st
      using that lw(1) lwy queue_rel_pop by (cases e) (simp_all add: y(3))
    show "filter is_disconnect (tasks y) = []"
      using sess_inv_tasks(1) [OF inv] filter_remove1_Nil by (simp add: y(1) without_def)
  qed (simp add: w)
  from sendQueue_round_goes [OF this w] show ?thesis by (simp add: segment_written_def y_def Let_def)
qed

lemma sess_inv_without:
  assumes "sess_inv R F x ps qs sent" "\<And>c n. t \<noteq> QueueWrite c n True"
  shows "sess_inv R F (without t x) ps qs sent"
proof (rule sess_inv_cong [OF assms(1)])
  show "last_written (without t x) = last_written x"
    using assms(2) [symmetric] by (simp add: last_written_def without_def in_set_remove1)
  have "length (filter is_write (remove1 t (tasks x))) \<le> length (filter is_write (tasks x))"
    using filter_remove1_length [of t "tasks x" is_write] by (cases "t \<in> set (tasks x)") (simp_all add: remove1_idem)
  then show "writes (without t x) \<le> of_bool (sendInProgress (without t x))"
    using sess_inv_tasks(2) [OF assms(1)] by (simp add: without_def writes_def)
qed (use sess_inv_tasks(1) [OF assms(1)] filter_remove1_Nil in \<open>simp_all add: without_def sess_fields_def seq_fields_def\<close>)

lemma ack_written_goes:
  assumes inv: "sess_inv R F x ps qs sent" and t: "AckWrite c n \<in> set (tasks x)"
  shows "goes R F (ack_written c n None (without (AckWrite c n) x)) ps qs sent"
proof -
  let ?x = "without (AckWrite c n) x"
  have i: "sess_inv R F ?x ps qs sent" by (rule sess_inv_without [OF inv]) simp
  have w: "writes ?x = 0" using writes_without [OF inv t] by simp
  let ?y = "?x\<lparr>sendAckTimer := False, ackReceiveTimer := True, sendInProgress := False\<rparr>"
  have "sess_inv R F ?y ps qs sent"
    by (rule sess_inv_cong [OF i])
      (use w sess_inv_tasks(1) [OF i] in \<open>simp_all add: sess_fields_def seq_fields_def last_written_def writes_def\<close>)
  from processSendQueue_goes [OF this] show ?thesis by (simp add: ack_written_def)
qed

lemma resume_goes:
  assumes inv: "sess_inv R F x ps qs sent" and t: "t \<in> set (tasks x)"
  shows "goes R F (resume t None (without t x)) ps qs sent"
proof (cases t)
  case (Disconnecting e)
  then show ?thesis using t sess_inv_tasks(1) [OF inv] by (auto simp: filter_empty_conv)
next
  case HandleMessage
  then show ?thesis using processSendQueue_goes [OF sess_inv_without [OF inv, of HandleMessage]] by simp
next
  case AfterQueue
  then show ?thesis using sendImmediateAck_goes [OF sess_inv_without [OF inv, of AfterQueue]] by simp
qed (use inv t segment_written_goes ack_written_goes in simp_all)

section \<open>Receiving\<close>

text \<open>The fields of a packet, as the receiver sees them.\<close>

lemma packet_at_fields:
  assumes "wf_packet F p" "packet_at k p = (h, b)"
  shows "\<not> isHandshakeRequest h" "\<not> hasManagementOpcode h" "hasAckNumber h \<longleftrightarrow> pk_ack p \<noteq> None"
    "ackNumber b = map_option ack_num (pk_ack p)" "sequenceNumber b = seq_num k"
    "pk_segment p = None \<Longrightarrow> \<not> isBeginningSegment h \<and> \<not> isContinuingSegment h \<and> \<not> isEndingSegment h \<and> payload_of b = []"
    "pk_segment p = Some (len, e, d) \<Longrightarrow> isBeginningSegment h = (len \<noteq> None) \<and> isContinuingSegment h = (len = None) \<and>
      isEndingSegment h = e \<and> messageLength b = map_option int len \<and> payload_of b = d"
  using assms by (auto simp: packet_at_def wf_packet_def data_packet_def ack_packet_def payload_of_def split: option.splits)

lemma incoming_packet_at:
  assumes p: "wf_packet F p" and x: "fragmentSize x = F" "20 \<le> F" and k: "packet_at k p = (h, b)"
  shows "\<exists>b'. incoming_packet (btp_packet_bytes (packet_at k p)) x = Inr (h, b') \<and> ackNumber b' = ackNumber b \<and>
    sequenceNumber b' = sequenceNumber b \<and> messageLength b' = messageLength b \<and> payload_of b' = payload_of b"
proof -
  note f = packet_at_fields [OF p k]
  let ?b = "b\<lparr>segmentPayload := Some (payload_of b)\<rparr>"
  have d: "decodeBtpPacket (btp_packet_bytes (h, b)) = Inr (h, ?b)"
    using decodeBtpPacket_bytes [of h b] packet_sendable [OF p, of k] by (simp add: k payload_of_def)
  have l: "int (length (btp_packet_bytes (h, b))) \<le> F" using packet_length [OF p, of k] x(2) by (simp add: k)
  have n: "payload_of b = [] \<Longrightarrow> hasAckNumber h"
    using f(3) p f(6,7) by (cases "pk_segment p") (auto simp: wf_packet_def split: prod.splits)
  have "incoming_packet (btp_packet_bytes (h, b)) x = Inr (h, ?b)"
    using l d f(1,2) n x(1) by (simp add: incoming_packet_def payload_of_def split: option.splits)
  then show ?thesis by (intro exI [of _ ?b]) (simp add: k payload_of_def)
qed

lemma incoming_segment_at:
  assumes f: "pk_segment p = None \<Longrightarrow> \<not> isBeginningSegment h \<and> \<not> isContinuingSegment h \<and> \<not> isEndingSegment h"
    "\<And>len e d. pk_segment p = Some (len, e, d) \<Longrightarrow> isBeginningSegment h = (len \<noteq> None) \<and> isContinuingSegment h = (len = None) \<and>
      isEndingSegment h = e \<and> messageLength b = map_option int len \<and> payload_of b = d \<and> d \<noteq> []"
    and x: "currentIncomingSegmentedMsgLength x = map_option (int \<circ> fst) cur" "currentIncomingSegmentedPayload x = map_option snd cur"
    and a: "assemble (fin, cur) p = Some (fin', cur')"
  shows "\<exists>m. bindE (incoming_segment h b x) (incoming_message h) =
      Inr (m, x\<lparr>currentIncomingSegmentedMsgLength := map_option (int \<circ> fst) cur',
        currentIncomingSegmentedPayload := map_option snd cur'\<rparr>) \<and>
    fin' = fin @ (case m of None \<Rightarrow> [] | Some c \<Rightarrow> [c])"
proof (cases "pk_segment p")
  case None
  then show ?thesis using f(1) x a by (auto simp: incoming_segment_def incoming_message_def)
next
  case (Some sg)
  then obtain len e d where sg: "pk_segment p = Some (len, e, d)" by (cases sg) auto
  note g = f(2) [OF sg]
  show ?thesis
    using g x a sg
    by (cases len; cases cur; cases e)
      (auto simp: incoming_segment_def incoming_message_def finish_def Let_def split: if_splits)
qed

text \<open>A packet of the peer is expected when its acknowledgement is of packets sent and not acknowledged before, it fits the
  message under way, and the peer kept to the window.\<close>

definition expected :: "int \<Rightarrow> btp_session \<Rightarrow> abs_packet list \<Rightarrow> abs_packet list \<Rightarrow> abs_packet \<Rightarrow> bool" where
  "expected F x ps qs p \<longleftrightarrow> wf_packet F p \<and> reassemble ([], None) (qs @ [p]) \<noteq> None \<and>
    peer_base x + length qs + 1 - last_ack ps \<le> 255 \<and>
    (case pk_ack p of None \<Rightarrow> True | Some a \<Rightarrow> last_ack qs \<le> a \<and> a \<le> base_of x + length ps)"

lemma incoming_body_expected:
  assumes inv: "sess_inv R F x ps qs sent" and e: "expected F x ps qs p"
    and data: "data = btp_packet_bytes (packet_at (peer_base x + length qs) p)"
  obtains m y where "incoming_body data x = Inr (m, y)" "sess_inv R F (y\<lparr>delivered := delivered y @ (case m of None \<Rightarrow> [] | Some c \<Rightarrow> [c])\<rparr>) ps (qs @ [p]) sent"
proof -
  let ?k = "peer_base x + length qs"
  obtain h b where k: "packet_at ?k p = (h, b)" by (cases "packet_at ?k p")
  have wf: "wf_packet F p" and seq: "seq_inv x ps qs" and F: "fragmentSize x = F" "20 \<le> F"
    using e inv by (simp_all add: expected_def sess_inv_def calm_def)
  note f = packet_at_fields [OF wf k]
  obtain b' where b': "incoming_packet data x = Inr (h, b')" "ackNumber b' = ackNumber b" "sequenceNumber b' = sequenceNumber b"
    "messageLength b' = messageLength b" "payload_of b' = payload_of b"
    using incoming_packet_at [OF wf F k] data by auto
  define x1 where "x1 = x\<lparr>prevIncomingSequenceNumber := seq_num ?k, sendAckTimer := True\<rparr>"
  have s: "incoming_sequence b' x = Inr x1"
    using expected_sequence [OF seq] by (simp add: incoming_sequence_def b'(3) f(5) x1_def)
  define x2 where "x2 = (case pk_ack p of None \<Rightarrow> x1
    | Some a \<Rightarrow> x1\<lparr>prevIncomingAckNumber := ack_num a, ackReceiveTimer := (ack_num a \<noteq> outSequenceNumber x)\<rparr>)"
  have a: "incoming_ack h b' x1 = Inr x2"
    using e expected_ack [OF seq, of "the (pk_ack p)"]
    by (cases "pk_ack p") (auto simp: incoming_ack_def b'(2) f(3,4) x2_def x1_def expected_def Let_def)
  obtain cur where cur: "reassemble ([], None) qs = Some (delivered x, cur)"
    "currentIncomingSegmentedMsgLength x = map_option (int \<circ> fst) cur" "currentIncomingSegmentedPayload x = map_option snd cur"
    using inv by (auto simp: sess_inv_def in_inv_def)
  obtain fin' cur' where as: "assemble (delivered x, cur) p = Some (fin', cur')"
    using e cur(1) by (auto simp: expected_def reassemble_append bind_eq_Some_conv split: prod.splits)
  have x2: "currentIncomingSegmentedMsgLength x2 = map_option (int \<circ> fst) cur" "currentIncomingSegmentedPayload x2 = map_option snd cur"
    "delivered x2 = delivered x"
    using cur by (simp_all add: x2_def x1_def split: option.splits)
  have sg: "isBeginningSegment h = (len \<noteq> None) \<and> isContinuingSegment h = (len = None) \<and>
      isEndingSegment h = en \<and> messageLength b' = map_option int len \<and> payload_of b' = d \<and> d \<noteq> []"
    if "pk_segment p = Some (len, en, d)" for len en d
    using f(7) [OF that] that wf by (simp add: b'(4,5) wf_packet_def)
  obtain m where m: "bindE (incoming_segment h b' x2) (incoming_message h) =
      Inr (m, x2\<lparr>currentIncomingSegmentedMsgLength := map_option (int \<circ> fst) cur', currentIncomingSegmentedPayload := map_option snd cur'\<rparr>)"
    "fin' = delivered x @ (case m of None \<Rightarrow> [] | Some c \<Rightarrow> [c])"
    using incoming_segment_at [OF _ sg x2(1,2) as] f(6) by blast
  define y where "y = x2\<lparr>currentIncomingSegmentedMsgLength := map_option (int \<circ> fst) cur',
    currentIncomingSegmentedPayload := map_option snd cur'\<rparr>"
  let ?z = "y\<lparr>delivered := delivered y @ (case m of None \<Rightarrow> [] | Some c \<Rightarrow> [c])\<rparr>"
  have body: "incoming_body data x = Inr (m, y)"
    using m(1) by (simp add: incoming_body_def b'(1) s a y_def)
  have z: "role ?z = role x" "outSequenceNumber ?z = outSequenceNumber x" "prevIncomingSequenceNumber ?z = seq_num ?k"
    "prevIncomingAckNumber ?z = (case pk_ack p of None \<Rightarrow> prevIncomingAckNumber x | Some a \<Rightarrow> ack_num a)"
    "prevAckedSequenceNumber ?z = prevAckedSequenceNumber x" "peerWindowSize ?z = peerWindowSize x" "wire ?z = wire x"
    "queuedOutgoingMatterMessages ?z = queuedOutgoingMatterMessages x" "tasks ?z = tasks x" "isActive ?z = isActive x"
    "raised ?z = raised x" "fragmentSize ?z = fragmentSize x" "sendInProgress ?z = sendInProgress x"
    by (simp_all add: y_def x2_def x1_def split: option.splits)
  have "seq_inv ?z ps (qs @ [p])"
    by (rule seq_inv_receive [OF seq _ _ z(1-6)]) (use e in \<open>auto simp: expected_def wf_packet_def\<close>)
  moreover have "out_inv ?z ps sent" using inv by (simp add: sess_inv_def out_inv_def z base_of_def last_written_def)
  moreover have "in_inv ?z (qs @ [p])" using cur(1) as m(2) by (simp add: in_inv_def reassemble_append y_def x2(3))
  moreover have "calm R F ?z" using inv by (simp add: sess_inv_def calm_def z writes_def)
  ultimately have "sess_inv R F ?z ps (qs @ [p]) sent" using inv by (simp add: sess_inv_def)
  then show thesis using that body by blast
qed

lemma handleIncoming_goes:
  assumes inv: "sess_inv R F x ps qs sent" and e: "expected F x ps qs p"
  shows "goes R F (handleIncomingBleData (btp_packet_bytes (packet_at (peer_base x + length qs) p)) x) ps (qs @ [p]) sent"
proof -
  obtain m y where b: "incoming_body (btp_packet_bytes (packet_at (peer_base x + length qs) p)) x = Inr (m, y)"
    and i: "sess_inv R F (y\<lparr>delivered := delivered y @ (case m of None \<Rightarrow> [] | Some c \<Rightarrow> [c])\<rparr>) ps (qs @ [p]) sent"
    by (rule incoming_body_expected [OF inv e refl])
  have act: "isActive x" using inv by (simp add: sess_inv_def calm_def)
  show ?thesis
  proof (cases m)
    case None
    then show ?thesis using processSendQueue_goes [OF i, of FromIncoming] act b by (simp add: handleIncomingBleData_def)
  next
    case (Some c)
    then show ?thesis using sess_inv_task [OF i, of HandleMessage] act b by (simp add: handleIncomingBleData_def goes_stay)
  qed
qed

section \<open>Two connected sessions\<close>

text \<open>
  The two ends, how many packets of each have reached the other, and the messages each was given.  The transport takes what
  an end writes, in order and without loss; nobody closes the session and no acknowledgement is late.
\<close>

record btp_link =
  centralEnd :: btp_session
  peripheralEnd :: btp_session
  centralGot :: nat
  peripheralGot :: nat
  centralSent :: "bytes list"
  peripheralSent :: "bytes list"

text \<open>What an end does by itself: it is given a message, a promise it waits for is fulfilled, or its timer for
  acknowledgements fires.\<close>

inductive end_step :: "btp_session \<Rightarrow> bytes list \<Rightarrow> btp_session \<Rightarrow> bytes list \<Rightarrow> bool" where
  given: "d \<noteq> [] \<Longrightarrow> length d < 2 ^ 16 \<Longrightarrow> end_step x sent (sendMatterMessage d x) (sent @ [d])"
| fulfilled: "t \<in> set (tasks x) \<Longrightarrow> end_step x sent (resume t None (x\<lparr>tasks := remove1 t (tasks x)\<rparr>)) sent"
| ack_due: "sendAckTimer x \<Longrightarrow> end_step x sent (btpSendAckTimeoutTriggered (x\<lparr>sendAckTimer := False\<rparr>)) sent"

inductive link_step :: "btp_link \<Rightarrow> btp_link \<Rightarrow> bool" where
  central: "end_step (centralEnd l) (centralSent l) y sent \<Longrightarrow> link_step l (l\<lparr>centralEnd := y, centralSent := sent\<rparr>)"
| peripheral: "end_step (peripheralEnd l) (peripheralSent l) y sent \<Longrightarrow> link_step l (l\<lparr>peripheralEnd := y, peripheralSent := sent\<rparr>)"
| to_central: "centralGot l < length (wire (peripheralEnd l)) \<Longrightarrow>
    link_step l (l\<lparr>centralEnd := handleIncomingBleData (wire (peripheralEnd l) ! centralGot l) (centralEnd l), centralGot := centralGot l + 1\<rparr>)"
| to_peripheral: "peripheralGot l < length (wire (centralEnd l)) \<Longrightarrow>
    link_step l (l\<lparr>peripheralEnd := handleIncomingBleData (wire (centralEnd l) ! peripheralGot l) (peripheralEnd l), peripheralGot := peripheralGot l + 1\<rparr>)"

text \<open>The ends after a handshake: the response the peripheral wrote is what the central got.\<close>

definition link_created :: "btp_link \<Rightarrow> bool" where
  "link_created l \<longleftrightarrow> (\<exists>m request response p c. snd (createFromHandshakeRequest m request None) = Inr (response, p) \<and>
    createAsCentral response = Inr c \<and>
    l = \<lparr>centralEnd = c, peripheralEnd = p, centralGot = 0, peripheralGot = 0, centralSent = [], peripheralSent = []\<rparr>)"

inductive link_reachable :: "btp_link \<Rightarrow> bool" where
  created: "link_created l \<Longrightarrow> link_reachable l"
| step: "link_reachable l \<Longrightarrow> link_step l m \<Longrightarrow> link_reachable m"

lemma end_step_goes:
  assumes "end_step x sent y sent'" "sess_inv R F x ps qs sent" shows "goes R F y ps qs sent'"
  using assms
proof (induction rule: end_step.induct)
  case (given d x sent)
  then show ?case by (intro sendMatterMessage_goes)
next
  case (fulfilled t x sent)
  then show ?case using resume_goes [OF fulfilled(2,1)] by (simp add: without_def)
next
  case (ack_due x sent)
  have "sess_inv R F (x\<lparr>sendAckTimer := False\<rparr>) ps qs sent"
    by (rule sess_inv_cong [OF ack_due(2)])
      (use sess_inv_tasks [OF ack_due(2)] in \<open>simp_all add: sess_fields_def seq_fields_def last_written_def writes_def\<close>)
  then show ?case by (simp add: btpSendAckTimeoutTriggered_def goes_stay sendStandaloneAck_goes)
qed

lemma last_ack_prefix: "sorted (acks (ps @ qs)) \<Longrightarrow> last_ack ps \<le> last_ack (ps @ qs)"
  by (cases "acks ps" rule: rev_cases; cases "acks qs" rule: rev_cases) (auto simp: last_ack_def acks_append sorted_append)

lemma ack_below_last: "sorted (acks ps) \<Longrightarrow> p \<in> set ps \<Longrightarrow> pk_ack p = Some a \<Longrightarrow> a \<le> last_ack ps"
proof -
  assume a: "sorted (acks ps)" "p \<in> set ps" "pk_ack p = Some a"
  then have "a \<in> set (acks ps)" by (force simp: acks_def map_filter_def)
  then show ?thesis using a(1) by (cases "acks ps" rule: rev_cases) (auto simp: last_ack_def sorted_append)
qed

text \<open>The next packet of the one end is expected by the other.\<close>

lemma next_expected:
  assumes x: "sess_inv R F x ps (take g qs) sent" and y: "sess_inv S F y qs (take h ps) sent'" and r: "R \<noteq> S"
    and g: "g < length qs" and h: "h \<le> length ps"
  shows "expected F x ps (take g qs) (qs ! g)" "wire y ! g = btp_packet_bytes (packet_at (peer_base x + length (take g qs)) (qs ! g))"
proof -
  have b: "base_of y = peer_base x" "peer_base y = base_of x"
    using x y r by (cases R; cases S; simp add: sess_inv_def calm_def base_of_def peer_base_def)+
  have sx: "seq_inv x ps (take g qs)" and sy: "seq_inv y qs (take h ps)" using x y by (simp_all add: sess_inv_def)
  show "wire y ! g = btp_packet_bytes (packet_at (peer_base x + length (take g qs)) (qs ! g))"
    using y g by (simp add: sess_inv_def out_inv_def wire_of_nth b)
  have t: "qs = take g qs @ qs ! g # drop (Suc g) qs" using g by (simp add: id_take_nth_drop)
  have so: "sorted (acks qs)" "sorted (acks ps)" using sx sy by (simp_all add: seq_inv_def Let_def)
  have wf: "wf_packet F (qs ! g)" using y g by (simp add: sess_inv_def list_all_length)
  obtain st where "reassemble ([], None) qs = Some st" using y by (auto simp: sess_inv_def out_inv_def)
  then have "reassemble ([], None) (take g qs @ [qs ! g]) \<noteq> None"
    using t reassemble_append [of "([], None)" "take g qs @ [qs ! g]" "drop (Suc g) qs"] by (cases "reassemble ([], None) (take g qs @ [qs ! g])") auto
  note asm = this
  have "last_ack (take h ps) \<le> last_ack ps" using last_ack_prefix [of "take h ps" "drop h ps"] so(2) by simp
  moreover have "peer_base x + length qs - last_ack (take h ps) \<le> 255" using sy by (simp add: seq_inv_def Let_def b)
  ultimately have w: "peer_base x + length (take g qs) + 1 - last_ack ps \<le> 255" using g by simp
  have "last_ack (take g qs) \<le> a \<and> a \<le> base_of x + length ps" if a: "pk_ack (qs ! g) = Some a" for a
  proof
    have "sorted (acks (take g qs @ [qs ! g] @ drop (Suc g) qs))" using so(1) t by simp
    then have "sorted (acks (take g qs @ [qs ! g]))" unfolding acks_append sorted_append append_assoc [symmetric] by blast
    then show "last_ack (take g qs) \<le> a" using last_ack_prefix [of "take g qs" "[qs ! g]"] a by simp
    have "a \<le> last_ack qs" using ack_below_last [OF so(1) _ a] g by simp
    also have "\<dots> \<le> base_of x + length (take h ps)" using sy by (simp add: seq_inv_def Let_def b)
    finally show "a \<le> base_of x + length ps" by simp
  qed
  then show "expected F x ps (take g qs) (qs ! g)" using wf asm w by (auto simp: expected_def split: option.splits)
qed

lemma goes_peer:
  assumes "goes R F x ps qs sent" "h \<le> length ps"
  obtains ps' where "sess_inv R F x ps' qs sent" "take h ps' = take h ps" "length ps \<le> length ps'"
  using assms by (auto simp: goes_def prefix_def)

text \<open>The histories of two ends fit together: each has received a prefix of what the other has written.\<close>

definition pair_inv :: "btp_session \<Rightarrow> nat \<Rightarrow> bytes list \<Rightarrow> btp_session \<Rightarrow> nat \<Rightarrow> bytes list \<Rightarrow> bool" where
  "pair_inv x g sx y h sy \<longleftrightarrow> (\<exists>R S F ps qs. R \<noteq> S \<and> g \<le> length qs \<and> h \<le> length ps \<and>
    sess_inv R F x ps (take g qs) sx \<and> sess_inv S F y qs (take h ps) sy)"

lemma pair_swap: "pair_inv x g sx y h sy \<Longrightarrow> pair_inv y h sy x g sx"
  unfolding pair_inv_def by metis

lemma pair_goes:
  assumes "R \<noteq> S" "goes R F x' ps (take g' qs) sx'" "sess_inv S F y qs (take h ps) sy" "g' \<le> length qs" "h \<le> length ps"
  shows "pair_inv x' g' sx' y h sy"
proof -
  obtain ps' where "sess_inv R F x' ps' (take g' qs) sx'" "take h ps' = take h ps" "length ps \<le> length ps'"
    using goes_peer [OF assms(2,5)] by blast
  then show ?thesis using assms(1,3-) unfolding pair_inv_def
    by (intro exI [of _ R] exI [of _ S] exI [of _ F] exI [of _ ps'] exI [of _ qs]) simp
qed

lemma pair_end_step:
  assumes "pair_inv x g sx y h sy" "end_step x sx x' sx'" shows "pair_inv x' g sx' y h sy"
  using assms pair_goes end_step_goes unfolding pair_inv_def by metis

lemma pair_receive:
  assumes "pair_inv x g sx y h sy" "g < length (wire y)"
  shows "pair_inv (handleIncomingBleData (wire y ! g) x) (g + 1) sx y h sy"
proof -
  obtain R S F ps qs where i: "R \<noteq> S" "g \<le> length qs" "h \<le> length ps" "sess_inv R F x ps (take g qs) sx" "sess_inv S F y qs (take h ps) sy"
    using assms(1) by (auto simp: pair_inv_def)
  have g: "g < length qs" using assms(2) i(5) by (simp add: sess_inv_def out_inv_def)
  note n = next_expected [OF i(4,5,1) g i(3)]
  have "goes R F (handleIncomingBleData (wire y ! g) x) ps (take (g + 1) qs) sx"
    using handleIncoming_goes [OF i(4) n(1)] n(2) g by (simp add: take_Suc_conv_app_nth)
  from pair_goes [OF i(1) this i(5)] show ?thesis using g i(3) by simp
qed

definition link_inv :: "btp_link \<Rightarrow> bool" where
  "link_inv l \<longleftrightarrow> pair_inv (centralEnd l) (centralGot l) (centralSent l) (peripheralEnd l) (peripheralGot l) (peripheralSent l)"

lemma link_step_inv: "link_step l m \<Longrightarrow> link_inv l \<Longrightarrow> link_inv m"
proof (induction rule: link_step.induct)
  case (central l y sent)
  then show ?case using pair_end_step by (simp add: link_inv_def)
next
  case (peripheral l y sent)
  then show ?case using pair_end_step [OF pair_swap, THEN pair_swap] by (simp add: link_inv_def)
next
  case (to_central l)
  then show ?case using pair_receive by (simp add: link_inv_def)
next
  case (to_peripheral l)
  then show ?case using pair_receive [OF pair_swap, THEN pair_swap] by (simp add: link_inv_def)
qed

text \<open>The peripheral's handshake response is decoded by the central to the same fragment and window sizes.\<close>

lemma handshake_response_decoded:
  assumes "encodeBtpHandshakeResponse \<lparr>version = 4, rsp_attMtu = m, windowSize = w\<rparr> = Inr bs" "0 \<le> m" "m < 2 ^ 16" "0 \<le> w" "w < 2 ^ 8"
  shows "decodeBtpHandshakeResponsePayload bs = Inr \<lparr>version = 4, rsp_attMtu = m, windowSize = w\<rparr>"
proof -
  have v: "js_and 4 15 = 4" by (simp add: js_and_def to_int32_id)
  show ?thesis
    using assms by (auto simp: encodeBtpHandshakeResponse_def decodeBtpHandshakeResponsePayload_def io_simps v)
qed

lemma BtpSessionHandler_sess_inv:
  assumes "BtpSessionHandler R 4 F w = Inr x" "20 \<le> F" "0 \<le> w" "w \<le> 255"
  shows "sess_inv R F (x\<lparr>ackReceiveTimer := b\<rparr>) [] [] []"
  using assms
  by (cases R) (auto simp: BtpSessionHandler_def sess_inv_def seq_inv_def out_inv_def in_inv_def calm_def base_of_def peer_base_def
      last_num_def ack_num_def queue_rel_def last_written_def writes_def)

lemma link_created_inv: "link_created l \<Longrightarrow> link_inv l"
proof -
  assume "link_created l"
  then obtain m request response p c where cr: "snd (createFromHandshakeRequest m request None) = Inr (response, p)"
    "createAsCentral response = Inr c"
    and l: "l = \<lparr>centralEnd = c, peripheralEnd = p, centralGot = 0, peripheralGot = 0, centralSent = [], peripheralSent = []\<rparr>"
    by (auto simp: link_created_def)
  obtain rq t where d: "decodeBtpHandshakeRequest request = Inr rq" "p = t\<lparr>ackReceiveTimer := True\<rparr>"
    and e: "encodeBtpHandshakeResponse \<lparr>version = 4, rsp_attMtu = negotiateMtu m (req_attMtu rq),
      windowSize = min BTP_MAXIMUM_WINDOW_SIZE (clientWindowSize rq)\<rparr> = Inr response"
    and t: "BtpSessionHandler Peripheral 4 (negotiateMtu m (req_attMtu rq)) (min BTP_MAXIMUM_WINDOW_SIZE (clientWindowSize rq)) = Inr t"
    by (rule createFromHandshakeRequest_Inr [OF cr(1)])
  define F w where "F = negotiateMtu m (req_attMtu rq)" and "w = min BTP_MAXIMUM_WINDOW_SIZE (clientWindowSize rq)"
  have F: "20 \<le> F" "F \<le> 244" and w: "0 \<le> w" "w \<le> 255"
    using negotiateMtu_bounds [of m "req_attMtu rq"] handshake_window(1) [OF d(1)] by (simp_all add: F_def w_def btp_constants)
  have "decodeBtpHandshakeResponsePayload response = Inr \<lparr>version = 4, rsp_attMtu = F, windowSize = w\<rparr>"
    using handshake_response_decoded [OF e] F w by (simp add: F_def w_def)
  then have c: "BtpSessionHandler Central 4 F w = Inr c"
    using cr(2) F by (simp add: createAsCentral_def MAXIMUM_BTP_MTU_def min_absorb1)
  have "sess_inv Central F (c\<lparr>ackReceiveTimer := ackReceiveTimer c\<rparr>) [] [] []" by (rule BtpSessionHandler_sess_inv [OF c F(1) w])
  moreover have "sess_inv Peripheral F p [] [] []" unfolding d(2) by (rule BtpSessionHandler_sess_inv [OF t [folded F_def w_def] F(1) w])
  ultimately have "pair_inv c 0 [] p 0 []"
    unfolding pair_inv_def by (intro exI [of _ Central] exI [of _ Peripheral] exI [of _ F] exI [of _ "[]"] exI [of _ "[]"]) simp
  then show ?thesis by (simp add: link_inv_def l)
qed

lemma link_reachable_inv: "link_reachable l \<Longrightarrow> link_inv l"
  by (induction rule: link_reachable.induct) (auto intro: link_created_inv link_step_inv)

lemma pair_delivered:
  assumes "pair_inv x g sx y h sy"
  shows "isActive x" "raised x = []" "prefix (delivered x) sy"
    "g = length (wire y) \<Longrightarrow> queuedOutgoingMatterMessages y = [] \<Longrightarrow> delivered x = sy"
proof -
  obtain R S F ps qs where i: "g \<le> length qs" "sess_inv R F x ps (take g qs) sx" "sess_inv S F y qs (take h ps) sy"
    using assms by (auto simp: pair_inv_def)
  show "isActive x" "raised x = []" using i(2) by (simp_all add: sess_inv_def calm_def)
  obtain fin cur where q: "reassemble ([], None) qs = Some (fin, cur)"
    and r: "queue_rel (last_written y) (queuedOutgoingMatterMessages y) (fin, cur) sy" using i(3) by (auto simp: sess_inv_def out_inv_def)
  obtain cur' where d: "reassemble ([], None) (take g qs) = Some (delivered x, cur')" using i(2) by (auto simp: sess_inv_def in_inv_def)
  have "prefix fin sy" using r by (auto simp: queue_rel_def split: list.splits if_splits)
  moreover have "prefix (delivered x) fin" using reassemble_prefix [OF q take_is_prefix d] .
  ultimately show "prefix (delivered x) sy" by (rule prefix_order.trans [rotated])
  have "length (wire y) = length qs" using i(3) by (simp add: sess_inv_def out_inv_def)
  then show "g = length (wire y) \<Longrightarrow> queuedOutgoingMatterMessages y = [] \<Longrightarrow> delivered x = sy"
    using q d r by (simp add: queue_rel_def)
qed

section \<open>An example\<close>

text \<open>A message of thirty bytes crosses a link with fragments of twenty bytes, in two packets.\<close>

definition example_connected :: btp_link where
  "example_connected =
    (case createFromHandshakeRequest None [0x65, 0x6c, 4, 0, 0, 0, 0, 0, 4] None of
       (_, Inr (response, p)) \<Rightarrow> (case createAsCentral response of
         Inr c \<Rightarrow> \<lparr>centralEnd = c, peripheralEnd = p, centralGot = 0, peripheralGot = 0, centralSent = [], peripheralSent = []\<rparr>))"

definition example_given :: btp_link where
  "example_given = example_connected\<lparr>centralEnd := sendMatterMessage (replicate 30 7) (centralEnd example_connected),
     centralSent := centralSent example_connected @ [replicate 30 7]\<rparr>"

definition fulfil :: "btp_link \<Rightarrow> btp_link" where
  "fulfil l = (let x = centralEnd l; t = hd (tasks x)
     in l\<lparr>centralEnd := resume t None (x\<lparr>tasks := remove1 t (tasks x)\<rparr>), centralSent := centralSent l\<rparr>)"

definition example_written :: btp_link where
  "example_written = fulfil (fulfil example_given)"

definition arrive :: "btp_link \<Rightarrow> btp_link" where
  "arrive l = l\<lparr>peripheralEnd := handleIncomingBleData (wire (centralEnd l) ! peripheralGot l) (peripheralEnd l),
     peripheralGot := peripheralGot l + 1\<rparr>"

lemma example_connected_reachable: "link_reachable example_connected"
proof -
  let ?h = "createFromHandshakeRequest None [0x65, 0x6c, 4, 0, 0, 0, 0, 0, 4] None"
  have t: "case ?h of (_, Inr (response, p)) \<Rightarrow> (case createAsCentral response of Inr _ \<Rightarrow> True | _ \<Rightarrow> False) | _ \<Rightarrow> False"
    by code_simp
  obtain d b p where h: "?h = (d, Inr (b, p))" using t by (auto split: prod.splits sum.splits)
  obtain c where "createAsCentral b = Inr c" using t unfolding h by (cases "createAsCentral b") simp_all
  note c = h this
  have "snd ?h = Inr (b, p)" by (simp add: c)
  then have "link_created example_connected"
    unfolding link_created_def using c by (intro exI conjI) (assumption | simp add: example_connected_def)+
  then show ?thesis by (rule link_reachable.created)
qed

lemma fulfil_reachable: "link_reachable l \<Longrightarrow> tasks (centralEnd l) \<noteq> [] \<Longrightarrow> link_reachable (fulfil l)"
  unfolding fulfil_def Let_def
  by (intro link_reachable.step [OF _ link_step.central [OF end_step.fulfilled]]) simp_all

lemma example_written_reachable: "link_reachable example_written"
proof -
  have "link_reachable example_given"
    unfolding example_given_def
    by (rule link_reachable.step [OF example_connected_reachable link_step.central [OF end_step.given]]) simp_all
  moreover have "tasks (centralEnd example_given) \<noteq> []" "tasks (centralEnd (fulfil example_given)) \<noteq> []" by code_simp+
  ultimately show ?thesis unfolding example_written_def by (intro fulfil_reachable)
qed

lemma arrive_reachable: "link_reachable l \<Longrightarrow> peripheralGot l < length (wire (centralEnd l)) \<Longrightarrow> link_reachable (arrive l)"
  unfolding arrive_def by (rule link_reachable.step [OF _ link_step.to_peripheral])

section \<open>Properties\<close>

text \<open>
  C22: two connected sessions, in every interleaving of their steps with the arrival of packets: neither ever fails, each
  delivers the messages the other was given, unchanged and in order, and all of them once nothing is queued or on the way.
\<close>

theorem btp_link_delivers:
  assumes "link_reachable l"
  shows "isActive (centralEnd l) \<and> isActive (peripheralEnd l) \<and> raised (centralEnd l) = [] \<and> raised (peripheralEnd l) = [] \<and>
    prefix (delivered (peripheralEnd l)) (centralSent l) \<and> prefix (delivered (centralEnd l)) (peripheralSent l) \<and>
    (peripheralGot l = length (wire (centralEnd l)) \<and> queuedOutgoingMatterMessages (centralEnd l) = [] \<longrightarrow>
      delivered (peripheralEnd l) = centralSent l) \<and>
    (centralGot l = length (wire (peripheralEnd l)) \<and> queuedOutgoingMatterMessages (peripheralEnd l) = [] \<longrightarrow>
      delivered (centralEnd l) = peripheralSent l)"
proof -
  have p: "pair_inv (centralEnd l) (centralGot l) (centralSent l) (peripheralEnd l) (peripheralGot l) (peripheralSent l)"
    using link_reachable_inv [OF assms] by (simp add: link_inv_def)
  show ?thesis using pair_delivered [OF p] pair_delivered [OF pair_swap [OF p]] by simp
qed

theorem btp_link_delivers_witness:
  "isActive (peripheralEnd (arrive (arrive example_written))) \<and> delivered (peripheralEnd (arrive example_written)) = [] \<and>
    delivered (peripheralEnd (arrive (arrive example_written))) = [replicate 30 7]"
proof -
  have w: "length (wire (centralEnd example_written)) = 2" "peripheralGot example_written = 0"
    "queuedOutgoingMatterMessages (centralEnd example_written) = []" "delivered (peripheralEnd (arrive example_written)) = []"
    "centralSent example_written = [replicate 30 7]"
    by code_simp+
  have "link_reachable (arrive (arrive example_written))"
    using w by (intro arrive_reachable example_written_reachable) (simp_all add: arrive_def)
  from btp_link_delivers [OF this] show ?thesis using w by (simp add: arrive_def)
qed

end
