(* ===== verification/Access_Model.thy ===== *)
theory Access_Model
  imports Prelude
begin

text \<open>
  \<open>Access\<close>: the access qualities of a data model element, the notation of the specification they are written in, and
  how they are inherited.

  The lemmas show when what is printed is parsed to the same access, what a chain of definitions inherits, and what
  the parser does with characters it does not know.  Definitions in the notation are strings of ASCII characters.
\<close>

section \<open>Access\<close>

datatype AccessLevel = View | ProxyView | Operate | Manage | Administer

fun access_level_num :: "AccessLevel \<Rightarrow> int" where
  "access_level_num View = 1"
| "access_level_num ProxyView = 2"
| "access_level_num Operate = 3"
| "access_level_num Manage = 4"
| "access_level_num Administer = 5"

datatype Rw = Read | Write | ReadWrite | ReadWriteOption
datatype Fabric = Unaware | Scoped | Sensitive
datatype Privilege = PView | POperate | PManage | PAdminister
datatype access_flag = RwFlag Rw | FabricFlag Fabric | PrivilegeFlag Privilege | TimedRequired

fun PrivilegeLevel :: "Privilege \<Rightarrow> AccessLevel" where
  "PrivilegeLevel PView = View"
| "PrivilegeLevel POperate = Operate"
| "PrivilegeLevel PManage = Manage"
| "PrivilegeLevel PAdminister = Administer"

record access_ast =
  rw :: "Rw option"
  fabric :: "Fabric option"
  readPriv :: "Privilege option"
  writePriv :: "Privilege option"
  timed :: "bool option"

text \<open>A definition is an object, an array of flags and authorizations, a string in the notation, or undefined.\<close>

datatype flag_or_authorization = Flag access_flag | Authorization "Privilege list"

datatype access_definition = DAst access_ast | DFlags "flag_or_authorization list" | DString string | DUndefined

record access = access_ast +
  isEmpty :: bool
  access_errors :: string

definition readable :: "'z access_ast_scheme \<Rightarrow> bool" where
  "readable a \<longleftrightarrow> rw a = None \<or> rw a \<noteq> Some Write"

definition writable :: "'z access_ast_scheme \<Rightarrow> bool" where
  "writable a \<longleftrightarrow> rw a \<noteq> None \<and> rw a \<noteq> Some Read"

definition fabricScoped :: "'z access_ast_scheme \<Rightarrow> bool" where
  "fabricScoped a \<longleftrightarrow> fabric a = Some Scoped"

definition fabricSensitive :: "'z access_ast_scheme \<Rightarrow> bool" where
  "fabricSensitive a \<longleftrightarrow> fabric a = Some Sensitive"

definition complete :: "'z access_ast_scheme \<Rightarrow> bool" where
  "complete a \<longleftrightarrow> rw a \<noteq> None \<and> (\<not> readable a \<or> readPriv a \<noteq> None) \<and> (\<not> writable a \<or> writePriv a \<noteq> None)"

definition AccessOf :: "access_ast \<Rightarrow> string \<Rightarrow> access" where
  "AccessOf d errs = \<lparr>rw = rw d, fabric = fabric d, readPriv = readPriv d, writePriv = writePriv d, timed = timed d,
    isEmpty = ((rw d = None \<or> rw d = Some Read) \<and> fabric d = None \<and> readPriv d = None \<and> writePriv d = None \<and>
      timed d \<noteq> Some True),
    access_errors = errs\<rparr>"

definition or_else :: "'a option \<Rightarrow> 'a option \<Rightarrow> 'a option" where
  "or_else x y = (case x of None \<Rightarrow> y | Some v \<Rightarrow> Some v)"

definition extend :: "access \<Rightarrow> access \<Rightarrow> access" where
  "extend this other =
    (if isEmpty other then this
     else if isEmpty this then other
     else AccessOf \<lparr>rw = or_else (rw other) (rw this), fabric = or_else (fabric other) (fabric this),
       readPriv = or_else (readPriv other) (readPriv this), writePriv = or_else (writePriv other) (writePriv this),
       timed = or_else (timed other) (timed this)\<rparr> [])"

section \<open>The notation\<close>

definition to_upper :: "char \<Rightarrow> char" where
  "to_upper c = (let n = of_char c :: nat in if 97 \<le> n \<and> n \<le> 122 then char_of (n - 32) else c)"

definition letter_flag :: "char \<Rightarrow> access_flag option" where
  "letter_flag c =
    (if c = CHR ''R'' then Some (RwFlag Read)
     else if c = CHR ''U'' then Some (FabricFlag Unaware)
     else if c = CHR ''F'' then Some (FabricFlag Scoped)
     else if c = CHR ''S'' then Some (FabricFlag Sensitive)
     else if c = CHR ''V'' then Some (PrivilegeFlag PView)
     else if c = CHR ''O'' then Some (PrivilegeFlag POperate)
     else if c = CHR ''M'' then Some (PrivilegeFlag PManage)
     else if c = CHR ''A'' then Some (PrivilegeFlag PAdminister)
     else if c = CHR ''T'' then Some TimedRequired
     else if c = CHR ''W'' then Some (RwFlag Write)
     else None)"

definition is_blank :: "char \<Rightarrow> bool" where
  "is_blank c \<longleftrightarrow> c \<in> {CHR '' '', CHR 0x09, CHR 0x0A, CHR 0x0D, CHR 0x0C, CHR 0x0B}"

definition push_flag :: "access_flag \<Rightarrow> access_flag list \<times> string \<Rightarrow> access_flag list \<times> string" where
  "push_flag f r = (f # fst r, snd r)"

definition push_error :: "char \<Rightarrow> access_flag list \<times> string \<Rightarrow> access_flag list \<times> string" where
  "push_error c r = (fst r, c # snd r)"

text \<open>The loop over the characters of the definition, with the characters it reports.  An unknown one takes the
  next with it.\<close>

function parse_flags :: "string \<Rightarrow> access_flag list \<times> string" where
  "parse_flags [] = ([], [])"
| "parse_flags (c # cs) = (case letter_flag c of
      Some f \<Rightarrow> push_flag f (parse_flags cs)
    | None \<Rightarrow>
      if c = CHR ''['' then
        (if take 2 cs = ''W]'' then push_flag (RwFlag ReadWriteOption) (parse_flags (drop 2 cs)) else parse_flags cs)
      else if c = CHR ''*'' then
        (if take 1 cs = ''W'' then push_flag (RwFlag ReadWriteOption) (parse_flags (drop 1 cs)) else parse_flags cs)
      else if is_blank c then parse_flags cs
      else push_error c (parse_flags (drop 1 cs)))"
  by pat_completeness auto
termination
  by (relation "measure length") simp_all

definition parse :: "string \<Rightarrow> access_flag list \<times> string" where
  "parse definition =
    (let d = map to_upper definition in if d = ''DERIVED'' then ([], []) else parse_flags d)"

definition privilege_less :: "Privilege \<Rightarrow> Privilege \<Rightarrow> bool" where
  "privilege_less p q \<longleftrightarrow> access_level_num (PrivilegeLevel p) < access_level_num (PrivilegeLevel q)"

fun translateFlag :: "access_flag \<Rightarrow> access_ast \<Rightarrow> access_ast" where
  "translateFlag (RwFlag Read) a = (if rw a = None then a\<lparr>rw := Some Read\<rparr> else a)"
| "translateFlag (RwFlag Write) a =
    (if rw a = None then a\<lparr>rw := Some Write\<rparr> else if rw a = Some Read then a\<lparr>rw := Some ReadWrite\<rparr> else a)"
| "translateFlag (RwFlag ReadWrite) a = (if rw a \<noteq> Some ReadWriteOption then a\<lparr>rw := Some ReadWrite\<rparr> else a)"
| "translateFlag (RwFlag ReadWriteOption) a = a\<lparr>rw := Some ReadWriteOption\<rparr>"
| "translateFlag (FabricFlag Unaware) a = a\<lparr>fabric := Some Unaware\<rparr>"
| "translateFlag (FabricFlag Scoped) a = (if fabric a \<noteq> Some Sensitive then a\<lparr>fabric := Some Scoped\<rparr> else a)"
| "translateFlag (FabricFlag Sensitive) a = a\<lparr>fabric := Some Sensitive\<rparr>"
| "translateFlag (PrivilegeFlag PView) a = a\<lparr>readPriv := Some PView\<rparr>"
| "translateFlag (PrivilegeFlag f) a =
    (let a = (if (case readPriv a of None \<Rightarrow> True | Some p \<Rightarrow> privilege_less f p) then a\<lparr>readPriv := Some f\<rparr> else a)
     in if (case writePriv a of None \<Rightarrow> True | Some p \<Rightarrow> privilege_less p f) then a\<lparr>writePriv := Some f\<rparr> else a)"
| "translateFlag TimedRequired a = a\<lparr>timed := Some True\<rparr>"

definition translateFlags :: "access_flag list \<Rightarrow> access_ast" where
  "translateFlags fs = fold translateFlag fs \<lparr>rw = None, fabric = None, readPriv = None, writePriv = None, timed = None\<rparr>"

fun flat_flags :: "flag_or_authorization list \<Rightarrow> access_flag list" where
  "flat_flags [] = []"
| "flat_flags (Flag f # ds) = f # flat_flags ds"
| "flat_flags (Authorization ps # ds) = map PrivilegeFlag ps @ flat_flags ds"

fun Access :: "access_definition \<Rightarrow> access" where
  "Access (DFlags ds) = AccessOf (translateFlags (flat_flags ds)) []"
| "Access (DString s) = (case parse s of (flags, errs) \<Rightarrow> AccessOf (translateFlags flags) errs)"
| "Access (DAst a) = AccessOf a []"
| "Access DUndefined = AccessOf \<lparr>rw = None, fabric = None, readPriv = None, writePriv = None, timed = None\<rparr> []"

definition access_default :: access where
  "access_default = Access (DAst \<lparr>rw = Some ReadWrite, fabric = None, readPriv = Some PView, writePriv = Some POperate, timed = None\<rparr>)"

fun rw_string :: "Rw \<Rightarrow> string" where
  "rw_string Read = ''R''" | "rw_string Write = ''W''" | "rw_string ReadWrite = ''RW''" | "rw_string ReadWriteOption = ''R[W]''"

fun fabric_string :: "Fabric \<Rightarrow> string" where
  "fabric_string Unaware = ''U''" | "fabric_string Scoped = ''F''" | "fabric_string Sensitive = ''S''"

fun privilege_string :: "Privilege \<Rightarrow> string" where
  "privilege_string PView = ''V''" | "privilege_string POperate = ''O''" | "privilege_string PManage = ''M''" | "privilege_string PAdminister = ''A''"

fun join_spaces :: "string list \<Rightarrow> string" where
  "join_spaces [] = []"
| "join_spaces [p] = p"
| "join_spaces (p # ps) = p @ '' '' @ join_spaces ps"

definition toString :: "'z access_ast_scheme \<Rightarrow> string" where
  "toString a = join_spaces
    ((case rw a of None \<Rightarrow> [] | Some r \<Rightarrow> [rw_string r]) @
     (case fabric a of None \<Rightarrow> [] | Some f \<Rightarrow> [fabric_string f]) @
     (if readPriv a = writePriv a then (case readPriv a of None \<Rightarrow> [] | Some p \<Rightarrow> [privilege_string p])
      else case (readPriv a, writePriv a) of
        (Some r, Some w) \<Rightarrow> [privilege_string r @ privilege_string w]
      | (Some r, None) \<Rightarrow> [privilege_string r]
      | (None, Some w) \<Rightarrow> [privilege_string w]
      | (None, None) \<Rightarrow> []) @
     (if timed a = Some True then [''T''] else []))"

section \<open>What parsing yields\<close>

text \<open>The qualities a definition can denote: a privilege to write comes with one to read that is no higher.\<close>

definition denotable :: "access_ast \<Rightarrow> bool" where
  "denotable a \<longleftrightarrow> timed a \<noteq> Some False \<and>
    (case writePriv a of
       None \<Rightarrow> readPriv a = None \<or> readPriv a = Some PView
     | Some w \<Rightarrow> w \<noteq> PView \<and> (case readPriv a of None \<Rightarrow> False | Some r \<Rightarrow> \<not> privilege_less w r))"

lemma access_level_positive [simp]: "\<not> access_level_num l < 1"
  by (cases l) simp_all

lemma translateFlag_denotable: "denotable a \<Longrightarrow> denotable (translateFlag f a)"
  by (induction f a rule: translateFlag.induct)
    (auto simp: denotable_def privilege_less_def Let_def split: option.splits Privilege.splits)

lemma translateFlags_denotable: "denotable (translateFlags fs)"
proof -
  have "denotable a \<Longrightarrow> denotable (fold translateFlag fs a)" for a
    by (induction fs arbitrary: a) (simp_all add: translateFlag_denotable)
  then show ?thesis by (simp add: translateFlags_def denotable_def)
qed

lemma denotable_priv_cases:
  assumes "denotable a"
  shows "(readPriv a, writePriv a) \<in> {(None, None), (Some PView, None), (Some PView, Some POperate), (Some PView, Some PManage), (Some PView, Some PAdminister),
    (Some POperate, Some POperate), (Some POperate, Some PManage), (Some POperate, Some PAdminister), (Some PManage, Some PManage), (Some PManage, Some PAdminister), (Some PAdminister, Some PAdminister)}"
    "timed a \<in> {None, Some True}"
proof -
  show "(readPriv a, writePriv a) \<in> {(None, None), (Some PView, None), (Some PView, Some POperate), (Some PView, Some PManage), (Some PView, Some PAdminister),
    (Some POperate, Some POperate), (Some POperate, Some PManage), (Some POperate, Some PAdminister), (Some PManage, Some PManage), (Some PManage, Some PAdminister), (Some PAdminister, Some PAdminister)}"
    using assms by (cases "readPriv a"; cases "writePriv a"; cases "the (readPriv a)"; cases "the (writePriv a)")
      (auto simp: denotable_def privilege_less_def)
  show "timed a \<in> {None, Some True}" using assms by (cases "timed a") (auto simp: denotable_def)
qed

text \<open>Parsing goes on where a part of the notation ends, as the parts hold none of the characters that look ahead.\<close>

lemma parse_space: "parse_flags (CHR '' '' # ds) = parse_flags ds"
  by (simp add: letter_flag_def is_blank_def)

definition rw_flags :: "Rw \<Rightarrow> access_flag list" where
  "rw_flags r = (case r of Read \<Rightarrow> [RwFlag Read] | Write \<Rightarrow> [RwFlag Write] | ReadWrite \<Rightarrow> [RwFlag Read, RwFlag Write]
    | ReadWriteOption \<Rightarrow> [RwFlag Read, RwFlag ReadWriteOption])"

lemma parse_rw: "parse_flags (rw_string r @ ds) = (rw_flags r @ fst (parse_flags ds), snd (parse_flags ds))"
  by (cases r) (simp_all add: rw_flags_def letter_flag_def push_flag_def)

lemma parse_fabric: "parse_flags (fabric_string f @ ds) = (FabricFlag f # fst (parse_flags ds), snd (parse_flags ds))"
  by (cases f) (simp_all add: letter_flag_def push_flag_def)

lemma parse_privilege: "parse_flags (privilege_string p @ ds) = (PrivilegeFlag p # fst (parse_flags ds), snd (parse_flags ds))"
  by (cases p) (simp_all add: letter_flag_def push_flag_def)

text \<open>A part of the notation stands for flags, whatever follows it.\<close>

definition notation_for :: "string \<Rightarrow> access_flag list \<Rightarrow> bool" where
  "notation_for p fs \<longleftrightarrow> (\<forall>ds. parse_flags (p @ ds) = (fs @ fst (parse_flags ds), snd (parse_flags ds))) \<and>
    list_all (\<lambda>c. to_upper c = c \<and> c \<noteq> CHR ''D'') p"

lemma notation_parts:
  "notation_for (rw_string r) (rw_flags r)" "notation_for (fabric_string f) [FabricFlag f]"
  "notation_for (privilege_string p) [PrivilegeFlag p]" "notation_for ''T'' [TimedRequired]"
proof -
  have "list_all (\<lambda>c. to_upper c = c \<and> c \<noteq> CHR ''D'') (rw_string r)" by (cases r) (simp_all add: to_upper_def)
  then show "notation_for (rw_string r) (rw_flags r)" by (simp add: notation_for_def parse_rw)
  have "list_all (\<lambda>c. to_upper c = c \<and> c \<noteq> CHR ''D'') (fabric_string f)" by (cases f) (simp_all add: to_upper_def)
  then show "notation_for (fabric_string f) [FabricFlag f]" by (simp add: notation_for_def parse_fabric)
  have "list_all (\<lambda>c. to_upper c = c \<and> c \<noteq> CHR ''D'') (privilege_string p)" by (cases p) (simp_all add: to_upper_def)
  then show "notation_for (privilege_string p) [PrivilegeFlag p]" by (simp add: notation_for_def parse_privilege)
  show "notation_for ''T'' [TimedRequired]" by (simp add: notation_for_def letter_flag_def push_flag_def to_upper_def)
qed

lemma notation_append: "notation_for p fs \<Longrightarrow> notation_for q gs \<Longrightarrow> notation_for (p @ q) (fs @ gs)"
  by (simp add: notation_for_def)

lemma notation_join:
  "list_all2 notation_for ps fss \<Longrightarrow> parse_flags (join_spaces ps) = (concat fss, [])"
proof (induction ps arbitrary: fss rule: join_spaces.induct)
  case 1
  then show ?case by simp
next
  case (2 p)
  then obtain fs where f: "fss = [fs]" "notation_for p fs" by (auto simp: list_all2_Cons1)
  from f(2) have "parse_flags (p @ []) = (fs, [])" unfolding notation_for_def by (metis append_Nil2 fst_conv parse_flags.simps(1) snd_conv)
  then show ?case using f(1) by simp
next
  case (3 p q ps)
  then obtain fs gss where f: "fss = fs # gss" "notation_for p fs" "list_all2 notation_for (q # ps) gss" by (auto simp: list_all2_Cons1)
  show ?case using 3(1) [OF f(3)] f(2) parse_space by (simp add: notation_for_def f(1))
qed

lemma notation_plain:
  "list_all2 notation_for ps fss \<Longrightarrow> list_all (\<lambda>c. to_upper c = c \<and> c \<noteq> CHR ''D'') (join_spaces ps)"
  by (induction ps arbitrary: fss rule: join_spaces.induct)
    (auto simp: list_all2_Cons1 notation_for_def to_upper_def)

lemma parse_join:
  assumes "list_all2 notation_for ps fss"
  shows "parse (join_spaces ps) = (concat fss, [])"
proof -
  have u: "map to_upper (join_spaces ps) = join_spaces ps" "CHR ''D'' \<notin> set (join_spaces ps)"
    using notation_plain [OF assms] by (auto simp: list_all_iff intro: map_idI)
  then have "join_spaces ps \<noteq> ''DERIVED''" by auto
  with u show ?thesis by (simp add: parse_def notation_join [OF assms])
qed

definition priv_flags :: "Privilege option \<Rightarrow> Privilege option \<Rightarrow> access_flag list list" where
  "priv_flags r w = (if r = w then (case r of None \<Rightarrow> [] | Some p \<Rightarrow> [[PrivilegeFlag p]])
    else case (r, w) of
      (Some r, Some w) \<Rightarrow> [[PrivilegeFlag r, PrivilegeFlag w]]
    | (Some r, None) \<Rightarrow> [[PrivilegeFlag r]]
    | (None, Some w) \<Rightarrow> [[PrivilegeFlag w]]
    | (None, None) \<Rightarrow> [])"

definition part_flags :: "access_ast \<Rightarrow> access_flag list list" where
  "part_flags a = (case rw a of None \<Rightarrow> [] | Some r \<Rightarrow> [rw_flags r]) @ (case fabric a of None \<Rightarrow> [] | Some f \<Rightarrow> [[FabricFlag f]]) @
    priv_flags (readPriv a) (writePriv a) @ (if timed a = Some True then [[TimedRequired]] else [])"

lemma parse_toString: "parse (toString a) = (concat (part_flags a), [])"
proof -
  note pp = notation_append [OF notation_parts(3) notation_parts(3), simplified]
  show ?thesis unfolding toString_def part_flags_def priv_flags_def
    by (intro parse_join list_all2_appendI) (auto simp: notation_parts pp split: option.splits)
qed

lemma translate_parts:
  assumes "denotable a" shows "translateFlags (concat (part_flags a)) = a"
proof -
  define p where "p = concat (priv_flags (readPriv a) (writePriv a))"
  have p: "fold translateFlag p \<lparr>rw = r, fabric = f, readPriv = None, writePriv = None, timed = None\<rparr> =
      \<lparr>rw = r, fabric = f, readPriv = readPriv a, writePriv = writePriv a, timed = None\<rparr>" for r f
    using denotable_priv_cases(1) [OF assms] unfolding p_def priv_flags_def
    by (elim insertE emptyE Pair_inject) (simp_all add: privilege_less_def)
  have r: "fold translateFlag (rw_flags x) \<lparr>rw = None, fabric = None, readPriv = None, writePriv = None, timed = None\<rparr> =
      \<lparr>rw = Some x, fabric = None, readPriv = None, writePriv = None, timed = None\<rparr>" for x
    by (cases x) (simp_all add: rw_flags_def)
  have f: "translateFlag (FabricFlag x) \<lparr>rw = y, fabric = None, readPriv = None, writePriv = None, timed = None\<rparr> =
      \<lparr>rw = y, fabric = Some x, readPriv = None, writePriv = None, timed = None\<rparr>" for x y
    by (cases x) simp_all
  have "translateFlags (concat (part_flags a)) =
      \<lparr>rw = rw a, fabric = fabric a, readPriv = readPriv a, writePriv = writePriv a, timed = timed a\<rparr>"
    using denotable_priv_cases(2) [OF assms]
    by (cases "rw a"; cases "fabric a") (auto simp: translateFlags_def part_flags_def p_def [symmetric] p r f)
  then show ?thesis by simp
qed

lemma extend_nonempty:
  "\<not> isEmpty (AccessOf x es) \<Longrightarrow> \<not> isEmpty (AccessOf y fs) \<Longrightarrow> \<not> isEmpty (extend (AccessOf x es) (AccessOf y fs))"
  by (auto simp: extend_def AccessOf_def or_else_def split: option.splits)

definition definition_ast :: "access_definition \<Rightarrow> access_ast" where
  "definition_ast d = \<lparr>rw = rw (Access d), fabric = fabric (Access d), readPriv = readPriv (Access d), writePriv = writePriv (Access d),
    timed = timed (Access d)\<rparr>"

lemma definition_ast_AccessOf: "Access d = AccessOf a es \<Longrightarrow> definition_ast d = a"
  by (simp add: definition_ast_def AccessOf_def)

lemma Access_AccessOf: "\<exists>es. Access d = AccessOf (definition_ast d) es"
proof -
  have "\<exists>a es. Access d = AccessOf a es" by (cases d) (auto split: prod.splits)
  then show ?thesis using definition_ast_AccessOf by blast
qed

lemma definition_denotable: "denotable (definition_ast d) \<longleftrightarrow> (case d of DAst a \<Rightarrow> denotable a | _ \<Rightarrow> True)"
proof (cases d)
  case (DAst a)
  then show ?thesis using definition_ast_AccessOf [of d a "[]"] by simp
next
  case (DFlags ds)
  then show ?thesis using definition_ast_AccessOf [of d "translateFlags (flat_flags ds)" "[]"] translateFlags_denotable by simp
next
  case (DString s)
  then show ?thesis using definition_ast_AccessOf [of d "translateFlags (fst (parse s))" "snd (parse s)"] translateFlags_denotable
    by (simp add: case_prod_beta)
next
  case DUndefined
  then show ?thesis using definition_ast_AccessOf [of d "translateFlags []" "[]"] translateFlags_denotable [of "[]"]
    by (simp add: translateFlags_def)
qed

lemma Access_toString: "Access (DString (toString (Access d))) = AccessOf (translateFlags (concat (part_flags (definition_ast d)))) []"
proof -
  have "toString (Access d) = toString (definition_ast d)" by (simp add: toString_def definition_ast_def)
  then show ?thesis by (simp add: parse_toString)
qed

section \<open>Inheritance\<close>

text \<open>The value that the last of several definitions states for a quality.\<close>

definition last_stated :: "(access \<Rightarrow> 'a option) \<Rightarrow> access list \<Rightarrow> 'a option" where
  "last_stated q as = (case find (\<lambda>a. q a \<noteq> None) (rev as) of None \<Rightarrow> None | Some a \<Rightarrow> q a)"

lemma last_stated_snoc: "last_stated q (as @ [a]) = or_else (q a) (last_stated q as)"
  by (cases "q a") (simp_all add: last_stated_def or_else_def)

lemma last_stated_single: "last_stated q [a] = q a"
  using last_stated_snoc [of q "[]" a] by (cases "q a") (simp_all add: last_stated_def or_else_def)

definition states :: "access \<Rightarrow> access list \<Rightarrow> bool" where
  "states r as \<longleftrightarrow> rw r = last_stated rw as \<and> fabric r = last_stated fabric as \<and> readPriv r = last_stated readPriv as \<and>
    writePriv r = last_stated writePriv as \<and> timed r = last_stated timed as"

lemma extend_states:
  assumes "\<not> isEmpty r" "\<not> isEmpty a" "states r as"
  shows "states (extend r a) (as @ [a])"
  using assms by (simp add: states_def extend_def AccessOf_def last_stated_snoc)

lemma extend_AccessOf: "\<exists>x es. a = AccessOf x es \<Longrightarrow> \<exists>x es. b = AccessOf x es \<Longrightarrow> \<exists>x es. extend a b = AccessOf x es"
  by (auto simp: extend_def)

lemma chain_states:
  defines "stated \<equiv> filter (\<lambda>a. \<not> isEmpty a)"
  shows "(\<exists>x es. foldl extend (Access d) (map Access ds) = AccessOf x es) \<and>
    (if stated (map Access (d # ds)) = [] then foldl extend (Access d) (map Access ds) = Access d
     else \<not> isEmpty (foldl extend (Access d) (map Access ds)) \<and>
       states (foldl extend (Access d) (map Access ds)) (stated (map Access (d # ds))))"
proof (induction ds rule: rev_induct)
  case Nil
  then show ?case using Access_AccessOf [of d] by (auto simp: stated_def states_def last_stated_single)
next
  case (snoc x ds)
  define r where "r = foldl extend (Access d) (map Access ds)"
  have e: "foldl extend (Access d) (map Access (ds @ [x])) = extend r (Access x)" by (simp add: r_def)
  have p: "\<exists>x es. r = AccessOf x es" "\<exists>y es. Access x = AccessOf y es"
    using snoc.IH Access_AccessOf [of x] by (auto simp: r_def)
  consider "isEmpty (Access x)" | "\<not> isEmpty (Access x)" "stated (map Access (d # ds)) = []"
    | "\<not> isEmpty (Access x)" "stated (map Access (d # ds)) \<noteq> []" by blast
  then show ?case
  proof cases
    case 1
    then have "extend r (Access x) = r" "stated (map Access (d # (ds @ [x]))) = stated (map Access (d # ds))"
      by (simp_all add: extend_def stated_def)
    then show ?thesis using snoc.IH unfolding e r_def [symmetric] by metis
  next
    case 2
    then have "isEmpty r" "extend r (Access x) = Access x"
      using snoc.IH by (auto simp: r_def stated_def extend_def split: if_splits)
    moreover have "stated (map Access (d # ds @ [x])) = [Access x]" using 2 by (simp add: stated_def split: if_splits)
    ultimately show ?thesis using 2 p(2) unfolding e by (simp add: states_def last_stated_single)
  next
    case 3
    then have r: "\<not> isEmpty r" "states r (stated (map Access (d # ds)))" using snoc.IH by (simp_all add: r_def)
    moreover have "stated (map Access (d # ds @ [x])) = stated (map Access (d # ds)) @ [Access x]" using 3 by (simp add: stated_def)
    ultimately show ?thesis
      using 3 extend_states [OF r(1) 3(1) r(2)] extend_AccessOf [OF p] extend_nonempty p unfolding e by fastforce
  qed
qed

text \<open>A character the parser does not know hides the one after it.\<close>

lemma unknown_flag_hides_next:
  assumes "letter_flag c = None" "\<not> is_blank c" "c \<noteq> CHR ''[''" "c \<noteq> CHR ''*''"
  shows "parse_flags (c # d # cs) = push_error c (parse_flags cs)"
  using assms by simp

section \<open>Properties\<close>

text \<open>
  C28: printing and parsing.  What a definition denotes is printed in the notation of the specification, and parsing
  that gives the same qualities without complaint, for every string, every array of flags and the undefined
  definition, and for an object exactly when it is denotable: its write privilege is above view and comes with a read
  privilege that is no higher, a read privilege alone is view, and it does not state that no timed interaction is
  needed.
\<close>

theorem access_notation_roundtrip:
  "Access (DString (toString (Access d))) = (Access d)\<lparr>access_errors := []\<rparr> \<longleftrightarrow>
    (case d of DAst a \<Rightarrow> denotable a | _ \<Rightarrow> True)"
proof -
  obtain es where d: "Access d = AccessOf (definition_ast d) es" using Access_AccessOf by blast
  then have e: "(Access d)\<lparr>access_errors := []\<rparr> = AccessOf (definition_ast d) []" by (simp add: AccessOf_def)
  have i: "AccessOf a [] = AccessOf b [] \<longleftrightarrow> a = b" for a b by (auto simp: AccessOf_def)
  have "translateFlags (concat (part_flags (definition_ast d))) = definition_ast d \<longleftrightarrow> denotable (definition_ast d)"
    using translate_parts translateFlags_denotable by metis
  then show ?thesis unfolding Access_toString e i definition_denotable .
qed

text \<open>
  C29: inheritance of access along a chain of definitions, from the base to the most derived one.  Definitions that
  are empty, that is, state nothing but at most read access, are passed over; of the others, each quality has
  the value that the most derived definition stating it gives.  A chain of empty definitions yields the base.
  So a derived definition of read access alone does not take an inherited write access back.
\<close>

theorem access_inheritance:
  "let r = foldl extend (Access d) (map Access ds);
     stated = filter (\<lambda>a. \<not> isEmpty a) (map Access (d # ds)) in
   if stated = [] then r = Access d
   else rw r = last_stated rw stated \<and> fabric r = last_stated fabric stated \<and> timed r = last_stated timed stated \<and>
     readPriv r = last_stated readPriv stated \<and> writePriv r = last_stated writePriv stated \<and> \<not> isEmpty r"
  using chain_states [of d ds] unfolding states_def Let_def by (simp split: if_splits)

end
