(* ===== verification/Access_Control.thy ===== *)
theory Access_Control
  imports Access_Model Identifiers
begin

text \<open>
  Access decisions: the enforcers of \<open>AccessControl\<close>, which decide whether a session may read, write or invoke an element,
  and \<open>FabricAccessControl\<close>, which derives the privileges of a session from the access control list of a fabric.

  The lemmas show that asking and asserting agree except for one kind of read, that fabric-sensitive data stays within
  its fabric, that the privileges granted are exactly those the entries that apply stand for, that well-formed lists
  never make the check fail, and that a list grants nothing to the sessions of another fabric.
\<close>

section \<open>Enforcers\<close>

record access_limits =
  l_readable :: bool
  readLevel :: AccessLevel
  l_writable :: bool
  writeLevel :: AccessLevel
  l_fabricScoped :: bool
  l_fabricSensitive :: bool
  l_timed :: bool
  l_largeMessage :: bool

record location =
  loc_endpoint :: "int option"
  loc_cluster :: "int option"
  owningFabric :: "int option"

definition NO_FABRIC :: int where "NO_FABRIC = 0"

datatype Authority = Granted | Unauthorized | Restricted

text \<open>A session of a remote actor.  Local actors have none.\<close>

record remote_session =
  authorityAt :: "AccessLevel \<Rightarrow> location \<Rightarrow> error + Authority"
  sess_fabric :: int
  fabricFiltered :: bool
  sess_timed :: bool
  sess_command :: bool

type_synonym session = "remote_session option"
type_synonym verification = "session \<Rightarrow> location \<Rightarrow> error + bool"
type_synonym assertion = "session \<Rightarrow> location \<Rightarrow> error + unit"

abbreviation (input) UnsupportedAccess :: int where "UnsupportedAccess \<equiv> 126"
abbreviation (input) UnsupportedWrite :: int where "UnsupportedWrite \<equiv> 136"
abbreviation (input) UnsupportedRead :: int where "UnsupportedRead \<equiv> 143"
abbreviation (input) NeedsTimedInteraction :: int where "NeedsTimedInteraction \<equiv> 198"
abbreviation (input) TimedRequestMismatch :: int where "TimedRequestMismatch \<equiv> 201"

text \<open>The part of a schema its limits depend on: its effective access, whether it is a value (with its own quality
  \<open>fixed\<close> and those of the values it is part of, innermost first) and whether it asks for large messages.\<close>

record schema =
  isCommand :: bool
  effectiveAccess :: access
  isValue :: bool
  fixedQuality :: bool
  parentsFixed :: "bool list"
  largeMessageQuality :: bool

definition limitsFor :: "schema \<Rightarrow> access_limits" where
  "limitsFor sc =
    (let access = effectiveAccess sc;
         fixed = (isValue sc \<and> fixedQuality sc \<or> list_ex (\<lambda>f. f) (parentsFixed sc))
     in \<lparr>l_readable = readable access,
       readLevel = (case readPriv access of None \<Rightarrow> View | Some p \<Rightarrow> PrivilegeLevel p),
       l_writable = (writable access \<and> \<not> fixed),
       writeLevel = (case writePriv access of None \<Rightarrow> Operate | Some p \<Rightarrow> PrivilegeLevel p),
       l_fabricScoped = (fabric access = Some Scoped \<or> fabric access = Some Sensitive),
       l_fabricSensitive = (fabric access = Some Sensitive),
       l_timed = (timed access = Some True),
       l_largeMessage = (isValue sc \<and> largeMessageQuality sc)\<rparr>)"

definition granted :: "remote_session \<Rightarrow> AccessLevel \<Rightarrow> location \<Rightarrow> error + bool" where
  "granted s level loc = bindE (authorityAt s level loc) (\<lambda>a. Inr (a = Granted))"

definition base_may :: "AccessLevel \<Rightarrow> verification" where
  "base_may level s loc = (case s of
      None \<Rightarrow> Inr True
    | Some s \<Rightarrow> if sess_command s then Inr True else granted s level loc)"

definition base_authorize :: "(int \<Rightarrow> error) \<Rightarrow> AccessLevel \<Rightarrow> assertion" where
  "base_authorize err level s loc = (case s of
      None \<Rightarrow> Inr ()
    | Some s \<Rightarrow> if sess_command s then Inr ()
      else bindE (granted s level loc) (\<lambda>g. if g then Inr () else Inl (err UnsupportedAccess)))"

definition timed_authorizeWrite :: "assertion \<Rightarrow> assertion" where
  "timed_authorizeWrite wrapped s loc = (case s of
      None \<Rightarrow> wrapped s loc
    | Some r \<Rightarrow> if \<not> sess_timed r then Inl (WriteError NeedsTimedInteraction) else wrapped s loc)"

definition timed_mayWrite :: "verification \<Rightarrow> verification" where
  "timed_mayWrite wrapped s loc = (case s of
      None \<Rightarrow> wrapped s loc
    | Some r \<Rightarrow> if \<not> sess_timed r then Inr False else wrapped s loc)"

definition fabric_mismatch :: "location \<Rightarrow> remote_session \<Rightarrow> bool" where
  "fabric_mismatch loc r = (case owningFabric loc of None \<Rightarrow> False | Some f \<Rightarrow> f \<noteq> sess_fabric r)"

definition sensitive_authorizeRead :: "assertion \<Rightarrow> assertion" where
  "sensitive_authorizeRead wrapped s loc = (case s of
      None \<Rightarrow> Inr ()
    | Some r \<Rightarrow> if sess_command r then Inr ()
      else if fabricFiltered r \<and> sess_fabric r = 0 then Inl (ReadError UnsupportedAccess)
      else if fabricFiltered r \<and> fabric_mismatch loc r then Inl (ReadError UnsupportedAccess)
      else wrapped s loc)"

definition sensitive_may :: "verification \<Rightarrow> verification" where
  "sensitive_may wrapped s loc = (case s of
      None \<Rightarrow> Inr True
    | Some r \<Rightarrow> if sess_command r then Inr True
      else if sess_fabric r = 0 then Inr False
      else if fabric_mismatch loc r then Inr False
      else wrapped s loc)"

definition sensitive_authorizeWrite :: "assertion \<Rightarrow> assertion" where
  "sensitive_authorizeWrite wrapped s loc = (case s of
      None \<Rightarrow> Inr ()
    | Some r \<Rightarrow> if sess_command r then Inr ()
      else if sess_fabric r = 0 then Inl (WriteError UnsupportedAccess)
      else if fabric_mismatch loc r then Inl (WriteError UnsupportedWrite)
      else wrapped s loc)"

definition forbidden_authorize :: "error \<Rightarrow> assertion" where
  "forbidden_authorize err s loc = (case s of
      None \<Rightarrow> Inr ()
    | Some r \<Rightarrow> if sess_command r then Inr () else Inl err)"

definition forbidden_may :: "verification" where
  "forbidden_may s loc = (case s of None \<Rightarrow> Inr True | Some r \<Rightarrow> Inr (sess_command r))"

record enforcer =
  limits :: access_limits
  authorizeRead :: assertion
  mayRead :: verification
  authorizeWrite :: assertion
  mayWrite :: verification
  authorizeInvoke :: assertion
  mayInvoke :: verification

definition dataEnforcerFor :: "schema \<Rightarrow> enforcer" where
  "dataEnforcerFor sc =
    (let l = limitsFor sc;
         mr = base_may (readLevel l);
         mw = base_may (writeLevel l);
         ar = base_authorize ReadError (readLevel l);
         aw = base_authorize WriteError (writeLevel l);
         (aw, mw) = (if l_timed l then (timed_authorizeWrite aw, timed_mayWrite mw) else (aw, mw));
         (ar, mr) = (if l_fabricSensitive l then (sensitive_authorizeRead ar, sensitive_may mr) else (ar, mr));
         (aw, mw) = (if l_fabricSensitive l then (sensitive_authorizeWrite aw, sensitive_may mw) else (aw, mw));
         (ar, mr) = (if \<not> l_readable l then (forbidden_authorize (ReadError UnsupportedRead), forbidden_may) else (ar, mr));
         (aw, mw) = (if \<not> l_writable l then (forbidden_authorize (WriteError UnsupportedWrite), forbidden_may) else (aw, mw))
     in \<lparr>limits = l, authorizeRead = ar, mayRead = mr, authorizeWrite = aw, mayWrite = mw,
       authorizeInvoke = (\<lambda>s loc. Inl SchemaImplementationError), mayInvoke = (\<lambda>s loc. Inr False)\<rparr>)"

definition commandEnforcerFor :: "schema \<Rightarrow> enforcer" where
  "commandEnforcerFor sc =
    (let l = limitsFor sc; needsTimed = (timed (effectiveAccess sc) = Some True); needsFabric = (fabric (effectiveAccess sc) \<noteq> None)
     in \<lparr>limits = l,
       authorizeRead = (\<lambda>s loc. Inl SchemaImplementationError), mayRead = (\<lambda>s loc. Inr False),
       authorizeWrite = (\<lambda>s loc. Inl SchemaImplementationError), mayWrite = (\<lambda>s loc. Inr False),
       authorizeInvoke = (\<lambda>s loc. case s of
           None \<Rightarrow> Inr ()
         | Some r \<Rightarrow>
           if \<not> sess_command r then Inl (InvokeError UnsupportedAccess)
           else if needsTimed \<and> \<not> sess_timed r then Inl (InvokeError TimedRequestMismatch)
           else if needsFabric \<and> sess_fabric r = 0 then Inl (WriteError UnsupportedAccess)
           else bindE (granted r (writeLevel l) loc) (\<lambda>g. if g then Inr () else Inl (InvokeError UnsupportedAccess))),
       mayInvoke = (\<lambda>s loc. case s of
           None \<Rightarrow> Inr True
         | Some r \<Rightarrow>
           if \<not> sess_command r then Inr False
           else if needsTimed \<and> \<not> sess_timed r then Inr False
           else if needsFabric \<and> sess_fabric r = 0 then Inr False
           else granted r (writeLevel l) loc)\<rparr>)"

definition enforcerFor :: "schema \<Rightarrow> enforcer" where
  "enforcerFor sc = (if isCommand sc then commandEnforcerFor sc else dataEnforcerFor sc)"

section \<open>Subjects and entries\<close>

definition UNSPECIFIED_NODE_ID :: int where "UNSPECIFIED_NODE_ID = 0"

datatype auth_mode = AuthModeNone | PaseAuth | CaseAuth | GroupAuth

datatype subject = NodeSubject int "int list option" | GroupSubject int bool "int list"

record acl_target =
  t_cluster :: "int option"
  t_endpoint :: "int option"
  t_deviceType :: "int option"

record AclEntry =
  e_fabricIndex :: int
  privilege :: AccessLevel
  e_authMode :: auth_mode
  e_subjects :: "int list option"
  e_targets :: "acl_target list option"

record AclEndpointContext =
  ep_id :: int
  deviceTypes :: "int list"

record IncomingSubjectDescriptor =
  isCommissioning :: bool
  isd_authMode :: auth_mode
  isd_subjects :: "int list"
  isd_fabricIndex :: int

type_synonym extension_check =
  "AclEntry list \<Rightarrow> AclEntry \<Rightarrow> IncomingSubjectDescriptor \<Rightarrow> AclEndpointContext \<Rightarrow> int \<Rightarrow> bool"

record fabric_access_control =
  fac_fabricIndex :: int
  fac_aclList :: "AclEntry list"
  fac_auxiliaryFeatureEnabled :: bool
  fac_extensionEntryAccessCheck :: extension_check

definition ImplicitDefaultPaseAclEntry :: AclEntry where
  "ImplicitDefaultPaseAclEntry = \<lparr>e_fabricIndex = NO_FABRIC, privilege = Administer, e_authMode = PaseAuth,
    e_subjects = Some [], e_targets = Some []\<rparr>"

definition FabricAccessControl :: "int option \<Rightarrow> fabric_access_control" where
  "FabricAccessControl fabricIndex = (case fabricIndex of
      None \<Rightarrow> \<lparr>fac_fabricIndex = NO_FABRIC, fac_aclList = [ImplicitDefaultPaseAclEntry], fac_auxiliaryFeatureEnabled = False,
        fac_extensionEntryAccessCheck = (\<lambda>_ _ _ _ _. True)\<rparr>
    | Some i \<Rightarrow> \<lparr>fac_fabricIndex = i, fac_aclList = [], fac_auxiliaryFeatureEnabled = False,
        fac_extensionEntryAccessCheck = (\<lambda>_ _ _ _ _. True)\<rparr>)"

definition set_aclList :: "AclEntry list \<Rightarrow> fabric_access_control \<Rightarrow> error + fabric_access_control" where
  "set_aclList acl c =
    (if list_ex (\<lambda>e. e_fabricIndex e \<noteq> fac_fabricIndex c) acl then Inl InternalError else Inr (c\<lparr>fac_aclList := acl\<rparr>))"

definition set_auxiliaryFeatureEnabled :: "bool \<Rightarrow> fabric_access_control \<Rightarrow> fabric_access_control" where
  "set_auxiliaryFeatureEnabled enabled c = c\<lparr>fac_auxiliaryFeatureEnabled := enabled\<rparr>"

definition set_extensionEntryAccessCheck :: "extension_check \<Rightarrow> fabric_access_control \<Rightarrow> fabric_access_control" where
  "set_extensionEntryAccessCheck func c = c\<lparr>fac_extensionEntryAccessCheck := func\<rparr>"

definition subjectMatches :: "int \<Rightarrow> int \<Rightarrow> error + bool" where
  "subjectMatches target candidate =
    (if target = candidate then Inr True
     else if \<not> isCaseAuthenticatedTag target \<or> \<not> isCaseAuthenticatedTag candidate then Inr False
     else
       bindE (extractAsCaseAuthenticatedTag target) (\<lambda>targetCat.
       bindE (extractAsCaseAuthenticatedTag candidate) (\<lambda>candidateCat.
       Inr (getIdentifyValue targetCat = getIdentifyValue candidateCat \<and> getVersion candidateCat \<ge> getVersion targetCat))))"

text \<open>The comparison with the unspecified node id is strict and that id is a bigint, so it holds only for a node; the id of
  a group is a number.\<close>

definition getIsdFromMessage :: "int option \<Rightarrow> subject option \<Rightarrow> error + IncomingSubjectDescriptor" where
  "getIsdFromMessage fabricIndex subj =
    (let isd = \<lparr>isCommissioning = False, isd_authMode = AuthModeNone, isd_subjects = [], isd_fabricIndex = NO_FABRIC\<rparr>;
         noFabric = (fabricIndex = None \<or> fabricIndex = Some NO_FABRIC)
     in case subj of
       None \<Rightarrow> Inl MatterFlowError
     | Some s \<Rightarrow>
       if (case s of NodeSubject i _ \<Rightarrow> i = UNSPECIFIED_NODE_ID | GroupSubject i _ _ \<Rightarrow> False) then
         Inr (isd\<lparr>isd_authMode := PaseAuth, isCommissioning := True, isd_subjects := [UNSPECIFIED_NODE_ID],
           isd_fabricIndex := (if noFabric then NO_FABRIC else the fabricIndex)\<rparr>)
       else (case s of
         GroupSubject i hasValidMapping _ \<Rightarrow>
           if noFabric then Inl MatterFlowError
           else if hasValidMapping then
             Inr (isd\<lparr>isd_authMode := GroupAuth, isd_subjects := [i], isd_fabricIndex := the fabricIndex\<rparr>)
           else Inr isd
       | NodeSubject i catSubjects \<Rightarrow>
           if noFabric then Inl MatterFlowError
           else Inr (isd\<lparr>isd_authMode := CaseAuth,
             isd_subjects := i # (case catSubjects of None \<Rightarrow> [] | Some cs \<Rightarrow> cs), isd_fabricIndex := the fabricIndex\<rparr>)))"

section \<open>Privileges\<close>

text \<open>A JavaScript set: the values in the order they were added.\<close>

definition set_add :: "'a \<Rightarrow> 'a list \<Rightarrow> 'a list" where
  "set_add x xs = (if x \<in> set xs then xs else xs @ [x])"

fun addGrantedPrivilege :: "AccessLevel \<Rightarrow> AccessLevel list \<Rightarrow> AccessLevel list" where
  "addGrantedPrivilege View g = set_add View g"
| "addGrantedPrivilege ProxyView g = set_add View (set_add ProxyView g)"
| "addGrantedPrivilege Operate g = set_add View (set_add Operate g)"
| "addGrantedPrivilege Manage g = set_add View (set_add Operate (set_add Manage g))"
| "addGrantedPrivilege Administer g = set_add View (set_add Operate (set_add Manage (set_add Administer g)))"

text \<open>A loop that looks for the first match; a check that throws ends it.\<close>

fun first_match :: "('a \<Rightarrow> error + bool) \<Rightarrow> 'a list \<Rightarrow> error + bool" where
  "first_match p [] = Inr False"
| "first_match p (x # xs) = bindE (p x) (\<lambda>b. if b then Inr True else first_match p xs)"

definition subject_check :: "AclEntry \<Rightarrow> IncomingSubjectDescriptor \<Rightarrow> error + bool" where
  "subject_check e isd = (case e_subjects e of
      None \<Rightarrow> if e_authMode e \<noteq> CaseAuth \<and> e_authMode e \<noteq> GroupAuth then Inl MatterFlowError else Inr True
    | Some [] \<Rightarrow> if e_authMode e \<noteq> CaseAuth \<and> e_authMode e \<noteq> GroupAuth then Inl MatterFlowError else Inr True
    | Some (s # ss) \<Rightarrow> first_match (\<lambda>a. first_match (subjectMatches a) (isd_subjects isd)) (s # ss))"

definition target_match :: "AclEndpointContext \<Rightarrow> int \<Rightarrow> acl_target \<Rightarrow> error + bool" where
  "target_match ep clusterId t =
    (if t_cluster t = None \<and> t_endpoint t = None \<and> t_deviceType t = None then Inl MatterFlowError
     else if t_endpoint t \<noteq> None \<and> t_deviceType t \<noteq> None then Inl MatterFlowError
     else if t_cluster t \<noteq> None \<and> t_cluster t \<noteq> Some clusterId then Inr False
     else if t_endpoint t \<noteq> None \<and> t_endpoint t \<noteq> Some (ep_id ep) then Inr False
     else if (case t_deviceType t of None \<Rightarrow> False | Some d \<Rightarrow> d \<notin> set (deviceTypes ep)) then Inr False
     else Inr True)"

definition target_check :: "fabric_access_control \<Rightarrow> AclEntry \<Rightarrow> AclEndpointContext \<Rightarrow> int \<Rightarrow> error + bool" where
  "target_check c e ep clusterId = (case e_targets e of
      None \<Rightarrow> Inr (\<not> (e_authMode e = GroupAuth \<and> fac_auxiliaryFeatureEnabled c \<and> ep_id ep = 0))
    | Some [] \<Rightarrow> Inr (\<not> (e_authMode e = GroupAuth \<and> fac_auxiliaryFeatureEnabled c \<and> ep_id ep = 0))
    | Some (t # ts) \<Rightarrow> first_match (target_match ep clusterId) (t # ts))"

definition entry_check ::
  "fabric_access_control \<Rightarrow> IncomingSubjectDescriptor \<Rightarrow> AclEndpointContext \<Rightarrow> int \<Rightarrow> AclEntry \<Rightarrow> error + bool" where
  "entry_check c isd ep clusterId e =
    (if e_fabricIndex e = NO_FABRIC \<or> e_fabricIndex e \<noteq> isd_fabricIndex isd then Inr False
     else if e_authMode e \<noteq> isd_authMode isd then Inr False
     else bindE (subject_check e isd) (\<lambda>sm. if \<not> sm then Inr False
     else bindE (target_check c e ep clusterId) (\<lambda>tm. if \<not> tm then Inr False
     else Inr (fac_extensionEntryAccessCheck c (fac_aclList c) e isd ep clusterId))))"

fun grant_loop :: "(AclEntry \<Rightarrow> error + bool) \<Rightarrow> AclEntry list \<Rightarrow> AccessLevel list \<Rightarrow> error + AccessLevel list" where
  "grant_loop chk [] g = Inr g"
| "grant_loop chk (e # es) g =
    (if Administer \<in> set g then Inr g
     else bindE (chk e) (\<lambda>b. grant_loop chk es (if b then addGrantedPrivilege (privilege e) g else g)))"

definition getGrantedPrivileges ::
  "fabric_access_control \<Rightarrow> int option \<Rightarrow> subject option \<Rightarrow> AclEndpointContext \<Rightarrow> int \<Rightarrow> error + AccessLevel list" where
  "getGrantedPrivileges c fabricIndex subj ep clusterId =
    bindE (getIsdFromMessage fabricIndex subj) (\<lambda>isd.
    let g = (if isd_authMode isd = PaseAuth \<and> isCommissioning isd then addGrantedPrivilege Administer [] else []) in
    bindE (grant_loop (entry_check c isd ep clusterId) (fac_aclList c) g) (\<lambda>g.
    if isd_authMode isd = GroupAuth \<and> Administer \<in> set g then Inl MatterFlowError else Inr g))"

definition accessLevelsFor ::
  "fabric_access_control \<Rightarrow> int option \<Rightarrow> subject option \<Rightarrow> location \<Rightarrow> AclEndpointContext option \<Rightarrow> error + AccessLevel list" where
  "accessLevelsFor c fabricIndex subj loc ep = (case loc_cluster loc of
      None \<Rightarrow> Inr [View]
    | Some cluster \<Rightarrow> (case ep of None \<Rightarrow> Inr [View] | Some ep \<Rightarrow> getGrantedPrivileges c fabricIndex subj ep cluster))"

section \<open>Asking and asserting\<close>

text \<open>A verification and an assertion agree when the assertion throws exactly if the verification says no.\<close>

definition agree :: "error + bool \<Rightarrow> error + unit \<Rightarrow> bool" where
  "agree may authorize \<longleftrightarrow> (case may of
      Inl e \<Rightarrow> authorize = Inl e
    | Inr True \<Rightarrow> authorize = Inr ()
    | Inr False \<Rightarrow> (\<exists>e. authorize = Inl e))"

lemma agree_simps [simp]:
  "agree (Inl e) x = (x = Inl e)" "agree (Inr True) x = (x = Inr ())" "agree (Inr False) (Inl e)"
  by (auto simp: agree_def)

lemma agree_granted: "agree (granted s l loc) (bindE (granted s l loc) (\<lambda>g. if g then Inr () else Inl e))"
  by (cases "granted s l loc") (auto simp: agree_def)

lemma agree_base: "agree (base_may l s loc) (base_authorize err l s loc)"
  by (auto simp: base_may_def base_authorize_def agree_granted split: option.splits)

lemma agree_layers:
  assumes "\<And>s. agree (m s loc) (a s loc)"
  shows "agree (timed_mayWrite m s loc) (timed_authorizeWrite a s loc)"
    "agree (sensitive_may m s loc) (sensitive_authorizeWrite a s loc)"
  using assms
  by (auto simp: timed_mayWrite_def timed_authorizeWrite_def sensitive_may_def sensitive_authorizeWrite_def
      agree_def split: option.splits)

lemma agree_forbidden [simp]: "agree (forbidden_may s loc) (forbidden_authorize e s loc)"
  by (auto simp: forbidden_may_def forbidden_authorize_def agree_def split: option.splits)

text \<open>The reads of fabric-sensitive data without fabric filtering that are not of the owning fabric.\<close>

definition unfiltered_foreign_read :: "schema \<Rightarrow> session \<Rightarrow> location \<Rightarrow> bool" where
  "unfiltered_foreign_read sc s loc = (case s of
      None \<Rightarrow> False
    | Some r \<Rightarrow> \<not> isCommand sc \<and> l_fabricSensitive (limitsFor sc) \<and> l_readable (limitsFor sc) \<and> \<not> sess_command r \<and>
        \<not> fabricFiltered r \<and> (sess_fabric r = 0 \<or> fabric_mismatch loc r))"

lemma agree_sensitive_read:
  assumes "\<And>s. agree (m s loc) (a s loc)" "case s of None \<Rightarrow> True | Some r \<Rightarrow> sess_command r \<or> fabricFiltered r \<or> sess_fabric r \<noteq> 0 \<and> \<not> fabric_mismatch loc r"
  shows "agree (sensitive_may m s loc) (sensitive_authorizeRead a s loc)"
  using assms by (auto simp: sensitive_may_def sensitive_authorizeRead_def agree_def split: option.splits)

lemma data_write_agree: "agree (mayWrite (dataEnforcerFor sc) s loc) (authorizeWrite (dataEnforcerFor sc) s loc)"
proof -
  note b = agree_base [of "writeLevel (limitsFor sc)" _ loc WriteError]
  show ?thesis by (simp add: dataEnforcerFor_def Let_def agree_layers b)
qed

lemma data_read_agree:
  assumes "\<not> unfiltered_foreign_read sc s loc" "\<not> isCommand sc"
  shows "agree (mayRead (dataEnforcerFor sc) s loc) (authorizeRead (dataEnforcerFor sc) s loc)"
proof -
  note b = agree_base [of "readLevel (limitsFor sc)" _ loc ReadError]
  show ?thesis
    using assms by (auto simp: dataEnforcerFor_def Let_def agree_layers b unfiltered_foreign_read_def
        intro!: agree_sensitive_read split: option.splits)
qed

lemma command_agree:
  "agree (mayInvoke (commandEnforcerFor sc) s loc) (authorizeInvoke (commandEnforcerFor sc) s loc)"
  by (auto simp: commandEnforcerFor_def Let_def agree_granted split: option.splits)

section \<open>Properties of the enforcers\<close>

text \<open>
  C26: asking and asserting agree.  For writes and invokes, and for every read but one kind, the assertion throws
  exactly if the verification says no.  The exception is a read of fabric-sensitive data without fabric filtering by a session that does
  not belong to the owning fabric: the verification denies it, the assertion looks only at the privilege.
\<close>

theorem enforcer_agreement:
  "agree (mayWrite (enforcerFor sc) s loc) (authorizeWrite (enforcerFor sc) s loc) \<and>
   agree (mayInvoke (enforcerFor sc) s loc) (authorizeInvoke (enforcerFor sc) s loc) \<and>
   (if unfiltered_foreign_read sc s loc
    then mayRead (enforcerFor sc) s loc = Inr False \<and>
      authorizeRead (enforcerFor sc) s loc = base_authorize ReadError (readLevel (limitsFor sc)) s loc
    else agree (mayRead (enforcerFor sc) s loc) (authorizeRead (enforcerFor sc) s loc))"
proof (cases "isCommand sc")
  case True
  then show ?thesis
    using command_agree [of sc s loc] by (auto simp: enforcerFor_def unfiltered_foreign_read_def commandEnforcerFor_def Let_def split: option.splits)
next
  case False
  have i: "agree (mayInvoke (dataEnforcerFor sc) s loc) (authorizeInvoke (dataEnforcerFor sc) s loc)"
    by (simp add: dataEnforcerFor_def Let_def split: prod.splits)
  have u: "unfiltered_foreign_read sc s loc \<Longrightarrow> mayRead (dataEnforcerFor sc) s loc = Inr False \<and>
      authorizeRead (dataEnforcerFor sc) s loc = base_authorize ReadError (readLevel (limitsFor sc)) s loc"
    by (auto simp: unfiltered_foreign_read_def dataEnforcerFor_def Let_def sensitive_may_def sensitive_authorizeRead_def split: option.splits)
  show ?thesis using False data_write_agree i u data_read_agree by (simp add: enforcerFor_def)
qed

text \<open>
  C27: what fabric sensitivity adds, for a session that is not running a command.  If the session belongs to no
  fabric, or the data is owned by a fabric other than the session's, asking denies reads and writes and
  asserting throws on every write and on every fabric-filtered read; an unfiltered read is asserted by privilege
  alone.  This holds also for data of undefined owner and a session without a fabric, and for data whose
  owner is \<open>NO_FABRIC\<close> and a session with one, where the documentation of the location says that no fabric is
  enforced.  In all other cases the answers are those of the same schema without a fabric quality.
\<close>

theorem fabric_sensitive_isolation:
  assumes "\<not> isCommand sc" "fabric (effectiveAccess sc) = Some Sensitive" "\<not> sess_command r"
  defines "unaware \<equiv> sc\<lparr>effectiveAccess := (effectiveAccess sc)\<lparr>fabric := None\<rparr>\<rparr>"
  shows "if sess_fabric r = NO_FABRIC \<or> owningFabric loc \<notin> {None, Some (sess_fabric r)}
    then mayRead (enforcerFor sc) (Some r) loc = Inr False \<and> mayWrite (enforcerFor sc) (Some r) loc = Inr False \<and>
      authorizeWrite (enforcerFor sc) (Some r) loc = Inl (WriteError
        (if l_writable (limitsFor sc) \<and> sess_fabric r = NO_FABRIC then UnsupportedAccess else UnsupportedWrite)) \<and>
      authorizeRead (enforcerFor sc) (Some r) loc =
        (if \<not> l_readable (limitsFor sc) then Inl (ReadError UnsupportedRead)
         else if fabricFiltered r then Inl (ReadError UnsupportedAccess)
         else base_authorize ReadError (readLevel (limitsFor sc)) (Some r) loc)
    else mayRead (enforcerFor sc) (Some r) loc = mayRead (enforcerFor unaware) (Some r) loc \<and>
      mayWrite (enforcerFor sc) (Some r) loc = mayWrite (enforcerFor unaware) (Some r) loc \<and>
      authorizeRead (enforcerFor sc) (Some r) loc = authorizeRead (enforcerFor unaware) (Some r) loc \<and>
      authorizeWrite (enforcerFor sc) (Some r) loc = authorizeWrite (enforcerFor unaware) (Some r) loc"
proof -
  note layers = sensitive_may_def sensitive_authorizeRead_def sensitive_authorizeWrite_def forbidden_may_def forbidden_authorize_def
  have l: "l_fabricSensitive (limitsFor sc)" using assms(2) by (simp add: limitsFor_def Let_def)
  have u: "limitsFor unaware = (limitsFor sc)\<lparr>l_fabricScoped := False, l_fabricSensitive := False\<rparr>" "\<not> isCommand unaware"
    using assms(1) by (simp_all add: limitsFor_def Let_def unaware_def readable_def writable_def)
  have m: "fabric_mismatch loc r \<longleftrightarrow> owningFabric loc \<notin> {None, Some (sess_fabric r)}"
    by (auto simp: fabric_mismatch_def split: option.splits)
  show ?thesis
  proof (cases "sess_fabric r = NO_FABRIC \<or> fabric_mismatch loc r")
    case True
    then show ?thesis using assms(1,3) l unfolding m [symmetric]
      by (auto simp: enforcerFor_def dataEnforcerFor_def Let_def layers NO_FABRIC_def)
  next
    case False
    then show ?thesis using assms(1,3) l u unfolding m [symmetric]
      by (simp add: enforcerFor_def dataEnforcerFor_def Let_def layers NO_FABRIC_def)
  qed
qed

definition example_schema :: schema where
  "example_schema = \<lparr>isCommand = False, effectiveAccess = Access (DString ''RW S VA''), isValue = True, fixedQuality = False,
    parentsFixed = [], largeMessageQuality = False\<rparr>"

definition example_remote :: remote_session where
  "example_remote = \<lparr>authorityAt = (\<lambda>_ _. Inr Granted), sess_fabric = 2, fabricFiltered = True, sess_timed = False, sess_command = False\<rparr>"

definition example_location :: location where
  "example_location = \<lparr>loc_endpoint = Some 0, loc_cluster = Some 31, owningFabric = Some 1\<rparr>"

theorem fabric_sensitive_isolation_witness:
  "mayRead (enforcerFor example_schema) (Some example_remote) example_location = Inr False \<and>
   mayWrite (enforcerFor example_schema) (Some example_remote) example_location = Inr False \<and>
   authorizeWrite (enforcerFor example_schema) (Some example_remote) example_location = Inl (WriteError UnsupportedWrite) \<and>
   authorizeRead (enforcerFor example_schema) (Some example_remote) example_location = Inl (ReadError UnsupportedAccess) \<and>
   mayRead (enforcerFor example_schema) (Some example_remote) (example_location\<lparr>owningFabric := Some 2\<rparr>) = Inr True"
proof -
  have s: "fabric (effectiveAccess example_schema) = Some Sensitive" "l_readable (limitsFor example_schema)"
    "mayRead (enforcerFor (example_schema\<lparr>effectiveAccess := (effectiveAccess example_schema)\<lparr>fabric := None\<rparr>\<rparr>)) (Some example_remote)
      (example_location\<lparr>owningFabric := Some 2\<rparr>) = Inr True"
    by code_simp+
  show ?thesis
    using s fabric_sensitive_isolation [of example_schema example_remote example_location]
      fabric_sensitive_isolation [of example_schema example_remote "example_location\<lparr>owningFabric := Some 2\<rparr>"]
    by (simp add: example_schema_def example_remote_def example_location_def NO_FABRIC_def)
qed

section \<open>What an entry stands for\<close>

definition subsumes :: "AccessLevel \<Rightarrow> AccessLevel \<Rightarrow> bool" where
  "subsumes p l \<longleftrightarrow> p = l \<or> l = View \<or> access_level_num l \<le> access_level_num p \<and> l \<noteq> ProxyView"

lemma set_addGrantedPrivilege: "set (addGrantedPrivilege p g) = set g \<union> {l. subsumes p l}"
proof -
  have s: "set (set_add x xs) = insert x (set xs)" for x :: AccessLevel and xs by (auto simp: set_add_def)
  have "{l. subsumes p l} = (case p of View \<Rightarrow> {View} | ProxyView \<Rightarrow> {View, ProxyView} | Operate \<Rightarrow> {View, Operate}
      | Manage \<Rightarrow> {View, Operate, Manage} | Administer \<Rightarrow> {View, Operate, Manage, Administer})"
    by (cases p; intro equalityI subsetI) (auto simp: subsumes_def split: AccessLevel.splits, (case_tac x; simp)+)
  then show ?thesis by (cases p) (auto simp: s)
qed

definition target_covers :: "AclEndpointContext \<Rightarrow> int \<Rightarrow> acl_target \<Rightarrow> bool" where
  "target_covers ep cluster t \<longleftrightarrow> t_cluster t \<in> {None, Some cluster} \<and> t_endpoint t \<in> {None, Some (ep_id ep)} \<and>
    (case t_deviceType t of None \<Rightarrow> True | Some d \<Rightarrow> d \<in> set (deviceTypes ep))"

text \<open>An entry applies when its fabric and mode are those of the subject, some subject it names matches or it names none,
  some target covers the element or it names none, and the extension does not object.\<close>

definition entry_applies :: "fabric_access_control \<Rightarrow> IncomingSubjectDescriptor \<Rightarrow> AclEndpointContext \<Rightarrow> int \<Rightarrow> AclEntry \<Rightarrow> bool" where
  "entry_applies c isd ep cluster e \<longleftrightarrow>
    e_fabricIndex e \<noteq> NO_FABRIC \<and> e_fabricIndex e = isd_fabricIndex isd \<and> e_authMode e = isd_authMode isd \<and>
    (case e_subjects e of None \<Rightarrow> True | Some ss \<Rightarrow> ss = [] \<or> (\<exists>s \<in> set ss. \<exists>i \<in> set (isd_subjects isd). subjectMatches s i = Inr True)) \<and>
    (if e_targets e = None \<or> e_targets e = Some []
     then \<not> (e_authMode e = GroupAuth \<and> fac_auxiliaryFeatureEnabled c \<and> ep_id ep = 0)
     else \<exists>t \<in> set (the (e_targets e)). target_covers ep cluster t) \<and>
    fac_extensionEntryAccessCheck c (fac_aclList c) e isd ep cluster"

lemma first_match_True: "first_match p xs = Inr True \<Longrightarrow> \<exists>x \<in> set xs. p x = Inr True"
  by (induction xs) (auto simp: bindE_eq_Inr_iff split: if_splits)

lemma first_match_False: "first_match p xs = Inr False \<Longrightarrow> x \<in> set xs \<Longrightarrow> p x = Inr False"
  by (induction xs) (auto simp: bindE_eq_Inr_iff split: if_splits)

lemma subject_check_Inr:
  assumes "subject_check e isd = Inr b"
  shows "b \<longleftrightarrow> (case e_subjects e of None \<Rightarrow> True | Some ss \<Rightarrow> ss = [] \<or> (\<exists>s \<in> set ss. \<exists>i \<in> set (isd_subjects isd). subjectMatches s i = Inr True))"
proof (cases "e_subjects e = None \<or> e_subjects e = Some []")
  case True
  then show ?thesis using assms by (auto simp: subject_check_def split: if_splits)
next
  case False
  then obtain ss where ss: "e_subjects e = Some ss" "ss \<noteq> []" by auto
  let ?p = "\<lambda>a. first_match (subjectMatches a) (isd_subjects isd)"
  have m: "first_match ?p ss = Inr b" using assms ss by (cases ss) (simp_all add: subject_check_def)
  show ?thesis
  proof (cases b)
    case True
    then have "first_match ?p ss = Inr True" using m by simp
    from first_match_True [OF this] obtain s where "s \<in> set ss" "?p s = Inr True" by blast
    then have "\<exists>i \<in> set (isd_subjects isd). subjectMatches s i = Inr True" by (intro first_match_True)
    then show ?thesis using True ss \<open>s \<in> set ss\<close> by auto
  next
    case False
    then have "first_match ?p ss = Inr False" using m by simp
    then have "subjectMatches s i = Inr False" if "s \<in> set ss" "i \<in> set (isd_subjects isd)" for s i
      using first_match_False [of ?p ss s] first_match_False [of "subjectMatches s" "isd_subjects isd" i] that by blast
    then show ?thesis using False ss by auto
  qed
qed

lemma target_match_Inr: "target_match ep cluster t = Inr b \<Longrightarrow> b \<longleftrightarrow> target_covers ep cluster t"
  by (auto simp: target_match_def target_covers_def split: if_splits option.splits)

lemma target_check_Inr:
  assumes "target_check c e ep cluster = Inr b"
  shows "b \<longleftrightarrow> (if e_targets e = None \<or> e_targets e = Some []
     then \<not> (e_authMode e = GroupAuth \<and> fac_auxiliaryFeatureEnabled c \<and> ep_id ep = 0)
     else \<exists>t \<in> set (the (e_targets e)). target_covers ep cluster t)"
proof (cases "e_targets e = None \<or> e_targets e = Some []")
  case True
  then show ?thesis using assms by (auto simp: target_check_def)
next
  case False
  then obtain ts where ts: "e_targets e = Some ts" "ts \<noteq> []" by auto
  then have m: "first_match (target_match ep cluster) ts = Inr b" using assms by (cases ts) (simp_all add: target_check_def)
  show ?thesis
  proof (cases b)
    case True
    then obtain t where "t \<in> set ts" "target_match ep cluster t = Inr True"
      using first_match_True [of "target_match ep cluster" ts] m by auto
    then show ?thesis using True target_match_Inr [of ep cluster t True] ts by auto
  next
    case b: False
    then have "target_match ep cluster t = Inr False" if "t \<in> set ts" for t
      using first_match_False [of "target_match ep cluster" ts t] m that by simp
    then show ?thesis using b ts target_match_Inr by auto
  qed
qed

lemma entry_check_Inr:
  assumes "entry_check c isd ep cluster e = Inr b" shows "b \<longleftrightarrow> entry_applies c isd ep cluster e"
proof (cases "e_fabricIndex e = NO_FABRIC \<or> e_fabricIndex e \<noteq> isd_fabricIndex isd \<or> e_authMode e \<noteq> isd_authMode isd")
  case True
  then have "entry_check c isd ep cluster e = Inr False" unfolding entry_check_def by (elim disjE) simp_all
  then show ?thesis using assms True by (auto simp: entry_applies_def)
next
  case False
  then obtain sm where sm: "subject_check e isd = Inr sm"
    using assms by (cases "subject_check e isd") (simp_all add: entry_check_def)
  show ?thesis
  proof (cases sm)
    case True
    then obtain tm where tm: "target_check c e ep cluster = Inr tm"
      using False sm assms by (cases "target_check c e ep cluster") (simp_all add: entry_check_def)
    have "b \<longleftrightarrow> tm \<and> fac_extensionEntryAccessCheck c (fac_aclList c) e isd ep cluster"
      using False assms sm tm True by (cases tm) (simp_all add: entry_check_def)
    then show ?thesis
      using False True subject_check_Inr [OF sm] target_check_Inr [OF tm] unfolding entry_applies_def by blast
  next
    case no: False
    then have "entry_check c isd ep cluster e = Inr False" using sm unfolding entry_check_def by simp
    then have "\<not> b" using assms by simp
    moreover have "\<not> entry_applies c isd ep cluster e" using no subject_check_Inr [OF sm] unfolding entry_applies_def by blast
    ultimately show ?thesis by simp
  qed
qed

text \<open>A subject of a list is valid unless it is a tag of version zero.\<close>

definition valid_subject :: "int \<Rightarrow> bool" where
  "valid_subject n \<longleftrightarrow> \<not> isCaseAuthenticatedTag n \<or> n mod 2 ^ 16 \<noteq> 0"

lemma subjectMatches_valid:
  assumes "valid_subject t" "valid_subject n"
  shows "subjectMatches t n = Inr (t = n \<or> isCaseAuthenticatedTag t \<and> isCaseAuthenticatedTag n \<and>
    t mod 2 ^ 32 div 2 ^ 16 = n mod 2 ^ 32 div 2 ^ 16 \<and> t mod 2 ^ 16 \<le> n mod 2 ^ 16)"
proof (cases "t = n \<or> \<not> isCaseAuthenticatedTag t \<or> \<not> isCaseAuthenticatedTag n")
  case False
  have i: "getIdentifyValue (x mod 2 ^ 32) = x mod 2 ^ 32 div 2 ^ 16" for x
    using js_ushr_16 [of "x mod 2 ^ 32"] by (simp add: getIdentifyValue_def)
  have v: "getVersion (x mod 2 ^ 32) = x mod 2 ^ 16" for x
    unfolding getVersion_def js_and_ffff by (simp add: mod_mod_cancel)
  show ?thesis
    using False assms unfolding subjectMatches_def valid_subject_def
    by (simp add: extract_tag i [simplified] v [simplified])
qed (auto simp: subjectMatches_def)

lemma first_match_total: "list_all (\<lambda>x. is_ok (p x)) xs \<Longrightarrow> is_ok (first_match p xs)"
  by (induction xs) (auto simp: is_ok_iff)

definition wf_target :: "acl_target \<Rightarrow> bool" where
  "wf_target t \<longleftrightarrow> \<not> (t_cluster t = None \<and> t_endpoint t = None \<and> t_deviceType t = None) \<and>
    (t_endpoint t = None \<or> t_deviceType t = None)"

definition wf_entry :: "AclEntry \<Rightarrow> bool" where
  "wf_entry e \<longleftrightarrow>
    (e_authMode e \<in> {CaseAuth, GroupAuth} \<or> e_subjects e \<noteq> None \<and> e_subjects e \<noteq> Some []) \<and>
    (case e_subjects e of None \<Rightarrow> True | Some ss \<Rightarrow> list_all valid_subject ss) \<and>
    (case e_targets e of None \<Rightarrow> True | Some ts \<Rightarrow> list_all wf_target ts) \<and>
    (e_authMode e = GroupAuth \<longrightarrow> privilege e \<noteq> Administer)"

lemma entry_check_total:
  assumes "wf_entry e" "list_all valid_subject (isd_subjects isd)"
  shows "is_ok (entry_check c isd ep cluster e)"
proof -
  have m: "is_ok (first_match (subjectMatches a) (isd_subjects isd))" if "valid_subject a" for a
    using assms(2) that by (intro first_match_total) (auto simp: list_all_iff subjectMatches_valid)
  have s: "is_ok (subject_check e isd)"
  proof (cases "e_subjects e = None \<or> e_subjects e = Some []")
    case True
    then show ?thesis using assms(1) by (auto simp: subject_check_def wf_entry_def)
  next
    case False
    then obtain x xs where x: "e_subjects e = Some (x # xs)" by (cases "e_subjects e"; cases "the (e_subjects e)") auto
    then have "list_all valid_subject (x # xs)" using assms(1) by (simp add: wf_entry_def)
    then have "is_ok (first_match (\<lambda>a. first_match (subjectMatches a) (isd_subjects isd)) (x # xs))"
      by (intro first_match_total) (auto simp: list_all_iff m)
    then show ?thesis by (simp add: subject_check_def x)
  qed
  have t: "is_ok (target_check c e ep cluster)"
  proof (cases "e_targets e = None \<or> e_targets e = Some []")
    case True
    then show ?thesis by (auto simp: target_check_def)
  next
    case False
    then obtain x xs where x: "e_targets e = Some (x # xs)" by (cases "e_targets e"; cases "the (e_targets e)") auto
    have "is_ok (target_match ep cluster y)" if "wf_target y" for y
      using that by (auto simp: target_match_def wf_target_def)
    moreover have "list_all wf_target (x # xs)" using assms(1) x by (simp add: wf_entry_def)
    ultimately have "is_ok (first_match (target_match ep cluster) (x # xs))"
      by (intro first_match_total) (auto simp: list_all_iff)
    then show ?thesis by (simp add: target_check_def x)
  qed
  show ?thesis using s t by (auto simp: entry_check_def is_ok_iff)
qed

lemma subsumes_Administer: "subsumes p Administer \<longleftrightarrow> p = Administer" "subsumes Administer l \<longleftrightarrow> l \<noteq> ProxyView"
  by (cases p; simp add: subsumes_def) (cases l; simp add: subsumes_def)

lemma grant_loop_exact:
  assumes "\<And>e b. chk e = Inr b \<Longrightarrow> b = P e" "grant_loop chk es g = Inr r"
    "Administer \<in> set g \<Longrightarrow> - {ProxyView} \<subseteq> set g"
  shows "set r - {ProxyView} = (set g \<union> {l. \<exists>e \<in> set es. P e \<and> subsumes (privilege e) l}) - {ProxyView} \<and>
    set r \<subseteq> set g \<union> {l. \<exists>e \<in> set es. P e \<and> subsumes (privilege e) l}"
  using assms(2,3)
proof (induction es arbitrary: g)
  case (Cons e es)
  show ?case
  proof (cases "Administer \<in> set g")
    case True
    then show ?thesis using Cons(2,3) by auto
  next
    case False
    then obtain b where b: "chk e = Inr b"
      and l: "grant_loop chk es (if b then addGrantedPrivilege (privilege e) g else g) = Inr r"
      using Cons(2) by (auto simp: bindE_eq_Inr_iff)
    let ?g = "if b then addGrantedPrivilege (privilege e) g else g"
    have g: "set ?g = set g \<union> {l. P e \<and> subsumes (privilege e) l}"
      using assms(1) [OF b] by (simp add: set_addGrantedPrivilege)
    have "Administer \<in> set ?g \<Longrightarrow> - {ProxyView} \<subseteq> set ?g"
      using False unfolding g by (auto simp: subsumes_Administer)
    from Cons(1) [OF l this] show ?thesis unfolding g by auto
  qed
qed simp

lemma grant_loop_total:
  assumes "list_all (\<lambda>e. is_ok (chk e)) es" shows "is_ok (grant_loop chk es g)"
  using assms by (induction es arbitrary: g) (auto simp: is_ok_iff)

lemma start_privileges: "Administer \<in> set (if b then addGrantedPrivilege Administer [] else []) \<Longrightarrow>
    - {ProxyView} \<subseteq> set (if b then addGrantedPrivilege Administer [] else [])"
  by (auto simp: set_addGrantedPrivilege subsumes_Administer simp del: addGrantedPrivilege.simps)

section \<open>Properties of the access control list\<close>

text \<open>
  C23: the privileges a session gets are those the entries that apply to it stand for, each with the lower privileges it
  subsumes, and all of them for a commissioning session.  Proxy view is the exception: it is granted only by
  an entry, but not looked for once administer has been granted.
\<close>

theorem acl_grants_exactly:
  assumes "getIsdFromMessage fabricIndex subj = Inr isd" "loc_cluster loc = Some cluster"
    "accessLevelsFor c fabricIndex subj loc (Some ep) = Inr levels"
    "entitled = {l. \<exists>e \<in> set (fac_aclList c). entry_applies c isd ep cluster e \<and> subsumes (privilege e) l} \<union>
      {l. isd_authMode isd = PaseAuth \<and> isCommissioning isd \<and> l \<noteq> ProxyView}"
  shows "set levels - {ProxyView} = entitled - {ProxyView} \<and> set levels \<subseteq> entitled"
proof -
  let ?g = "if isd_authMode isd = PaseAuth \<and> isCommissioning isd then addGrantedPrivilege Administer [] else []"
  have l: "grant_loop (entry_check c isd ep cluster) (fac_aclList c) ?g = Inr levels"
    using assms(1-3) by (auto simp: accessLevelsFor_def getGrantedPrivileges_def bindE_eq_Inr_iff Let_def split: if_splits)
  have g: "set ?g = {l. isd_authMode isd = PaseAuth \<and> isCommissioning isd \<and> l \<noteq> ProxyView}"
    by (auto simp: set_addGrantedPrivilege subsumes_Administer simp del: addGrantedPrivilege.simps)
  note x = grant_loop_exact [where P = "entry_applies c isd ep cluster", OF entry_check_Inr l start_privileges, unfolded g]
  show ?thesis using x unfolding assms(4) by blast
qed

text \<open>
  C25: with well-formed entries the check never throws for a session that has a subject descriptor: it always
  returns a list of privileges, and a group is never given administer, whatever its id is and whether or not it has a
  valid mapping.
\<close>

theorem well_formed_acl_total:
  assumes "getIsdFromMessage fabricIndex subj = Inr isd" "list_all valid_subject (isd_subjects isd)"
    "list_all wf_entry (fac_aclList c)"
  shows "\<exists>levels. accessLevelsFor c fabricIndex subj loc ep = Inr levels \<and>
    (case subj of Some (GroupSubject i hasValidMapping eps) \<Rightarrow> Administer \<notin> set levels | _ \<Rightarrow> True)"
proof (cases "loc_cluster loc = None \<or> ep = None")
  case True
  then show ?thesis by (auto simp: accessLevelsFor_def split: option.splits subject.splits)
next
  case False
  then obtain cluster p where x: "loc_cluster loc = Some cluster" "ep = Some p" by auto
  let ?g = "if isd_authMode isd = PaseAuth \<and> isCommissioning isd then addGrantedPrivilege Administer [] else []"
  have "is_ok (grant_loop (entry_check c isd p cluster) (fac_aclList c) ?g)"
    using assms(2,3) by (intro grant_loop_total) (auto simp: list_all_iff entry_check_total)
  then obtain r where r: "grant_loop (entry_check c isd p cluster) (fac_aclList c) ?g = Inr r" by (auto simp: is_ok_iff)
  have "Administer \<notin> set r" if m: "isd_authMode isd = GroupAuth \<or> isd_authMode isd = AuthModeNone \<and> isd_fabricIndex isd = NO_FABRIC"
  proof
    assume "Administer \<in> set r"
    then obtain e where "e \<in> set (fac_aclList c)" "entry_applies c isd p cluster e" "subsumes (privilege e) Administer"
      using m grant_loop_exact [where P = "entry_applies c isd p cluster", OF entry_check_Inr r start_privileges] by auto
    then show False using assms(3) m by (auto simp: entry_applies_def subsumes_Administer wf_entry_def list_all_iff)
  qed
  moreover have "isd_authMode isd = GroupAuth \<or> isd_authMode isd = AuthModeNone \<and> isd_fabricIndex isd = NO_FABRIC"
    if "subj = Some (GroupSubject i v eps)" for i v eps
    using assms(1) that by (auto simp: getIsdFromMessage_def Let_def split: if_splits)
  ultimately show ?thesis
    using assms(1) r x by (auto simp: accessLevelsFor_def getGrantedPrivileges_def Let_def split: option.splits subject.splits)
qed

text \<open>A list that gives operators of a tag control over one endpoint and an administrator everything.\<close>

definition example_acl :: fabric_access_control where
  "example_acl = (FabricAccessControl (Some 1))\<lparr>fac_aclList :=
    [\<lparr>e_fabricIndex = 1, privilege = Operate, e_authMode = CaseAuth, e_subjects = Some [0xFFFFFFFDABCD0002],
       e_targets = Some [\<lparr>t_cluster = Some 6, t_endpoint = Some 1, t_deviceType = None\<rparr>]\<rparr>,
     \<lparr>e_fabricIndex = 1, privilege = Administer, e_authMode = CaseAuth, e_subjects = Some [77], e_targets = None\<rparr>]\<rparr>"

definition example_isd :: IncomingSubjectDescriptor where
  "example_isd = \<lparr>isCommissioning = False, isd_authMode = CaseAuth, isd_subjects = [5, 0xFFFFFFFDABCD0003], isd_fabricIndex = 1\<rparr>"

abbreviation (input) example_subject :: "subject option" where
  "example_subject \<equiv> Some (NodeSubject 5 (Some [0xFFFFFFFDABCD0003]))"

abbreviation (input) example_endpoint :: AclEndpointContext where
  "example_endpoint \<equiv> \<lparr>ep_id = 1, deviceTypes = [256]\<rparr>"

abbreviation (input) example_onoff :: location where
  "example_onoff \<equiv> \<lparr>loc_endpoint = Some 1, loc_cluster = Some 6, owningFabric = None\<rparr>"

lemma example_isd_of: "getIsdFromMessage (Some 1) example_subject = Inr example_isd"
  by (simp add: getIsdFromMessage_def example_isd_def NO_FABRIC_def UNSPECIFIED_NODE_ID_def)

lemma example_levels: "accessLevelsFor example_acl (Some 1) example_subject example_onoff (Some example_endpoint) = Inr [Operate, View]"
proof -
  have v: "valid_subject 77" "valid_subject 5" "valid_subject 0xFFFFFFFDABCD0003" "valid_subject 0xFFFFFFFDABCD0002"
    by (simp_all add: valid_subject_def isCaseAuthenticatedTag_iff)
  show ?thesis
    unfolding accessLevelsFor_def getGrantedPrivileges_def example_isd_of
    by (simp add: example_isd_def example_acl_def FabricAccessControl_def entry_check_def subject_check_def target_check_def
        target_match_def subjectMatches_valid v isCaseAuthenticatedTag_iff set_add_def NO_FABRIC_def)
qed

theorem acl_grants_exactly_witness:
  "set [Operate, View] - {ProxyView} = ({l. list_ex (\<lambda>e. entry_applies example_acl example_isd example_endpoint 6 e \<and>
      subsumes (privilege e) l) (fac_aclList example_acl)}) - {ProxyView} \<and>
    accessLevelsFor example_acl (Some 1) example_subject example_onoff (Some example_endpoint) = Inr [Operate, View]"
  using acl_grants_exactly [OF example_isd_of _ example_levels refl, of 6] example_levels
  by (simp add: list_ex_iff example_isd_def)

text \<open>A list that opens an endpoint to the members of a group.\<close>

definition example_group_acl :: fabric_access_control where
  "example_group_acl = (FabricAccessControl (Some 1))\<lparr>fac_aclList :=
    [\<lparr>e_fabricIndex = 1, privilege = Manage, e_authMode = GroupAuth, e_subjects = Some [258], e_targets = None\<rparr>]\<rparr>"

theorem well_formed_acl_total_witness:
  "(\<exists>levels. accessLevelsFor example_acl (Some 1) example_subject example_onoff (Some example_endpoint) = Inr levels) \<and>
   (\<exists>levels. accessLevelsFor example_group_acl (Some 1) (Some (GroupSubject 258 True [1])) example_onoff (Some example_endpoint) = Inr levels \<and>
     Administer \<notin> set levels)"
proof -
  have c: "list_all valid_subject (isd_subjects example_isd)" "list_all wf_entry (fac_aclList example_acl)"
    by (simp_all add: example_isd_def example_acl_def FabricAccessControl_def wf_entry_def wf_target_def valid_subject_def isCaseAuthenticatedTag_iff)
  have i: "getIsdFromMessage (Some 1) (Some (GroupSubject 258 True [1])) =
      Inr \<lparr>isCommissioning = False, isd_authMode = GroupAuth, isd_subjects = [258], isd_fabricIndex = 1\<rparr>"
    by (simp add: getIsdFromMessage_def NO_FABRIC_def)
  have "list_all wf_entry (fac_aclList example_group_acl)"
    by (simp add: example_group_acl_def FabricAccessControl_def wf_entry_def valid_subject_def isCaseAuthenticatedTag_iff)
  from well_formed_acl_total [OF i _ this, of example_onoff "Some example_endpoint"]
    well_formed_acl_total [OF example_isd_of c, of example_onoff "Some example_endpoint"] show ?thesis
    by (simp add: valid_subject_def isCaseAuthenticatedTag_iff)
qed

text \<open>
  C24: a list that was set for one fabric grants nothing to an operational session of another fabric: the check returns the empty
  list, whatever the entries are.
\<close>

theorem foreign_fabric_gets_nothing:
  assumes "set_aclList acl c = Inr c'" "getIsdFromMessage (Some f) subj = Inr isd" "f \<noteq> fac_fabricIndex c"
    "isd_authMode isd \<noteq> PaseAuth"
  shows "accessLevelsFor c' (Some f) subj \<lparr>loc_endpoint = l, loc_cluster = Some cluster, owningFabric = ow\<rparr> (Some ep) = Inr []"
proof -
  have acl: "fac_aclList c' = acl" "list_all (\<lambda>e. e_fabricIndex e = fac_fabricIndex c) acl"
    using assms(1) by (auto simp: set_aclList_def list_ex_iff list_all_iff split: if_splits)
  have "isd_fabricIndex isd \<in> {f, NO_FABRIC}"
    using assms(2) by (auto simp: getIsdFromMessage_def Let_def split: option.splits subject.splits if_splits)
  then have "list_all (\<lambda>e. entry_check c' isd ep cluster e = Inr False) acl"
    using acl(2) assms(3) by (auto simp: list_all_iff entry_check_def)
  then have "grant_loop (entry_check c' isd ep cluster) acl [] = Inr []"
    by (induction acl) simp_all
  then show ?thesis using assms(2,4) acl(1) by (simp add: accessLevelsFor_def getGrantedPrivileges_def)
qed

theorem foreign_fabric_gets_nothing_witness:
  "\<exists>c'. set_aclList (fac_aclList example_acl) (FabricAccessControl (Some 1)) = Inr c' \<and>
    accessLevelsFor c' (Some 2) (Some (NodeSubject 77 None)) example_onoff (Some example_endpoint) = Inr []"
proof -
  obtain c' where c: "set_aclList (fac_aclList example_acl) (FabricAccessControl (Some 1)) = Inr c'"
    by (simp add: set_aclList_def example_acl_def FabricAccessControl_def)
  have i: "getIsdFromMessage (Some 2) (Some (NodeSubject 77 None)) =
      Inr \<lparr>isCommissioning = False, isd_authMode = CaseAuth, isd_subjects = [77], isd_fabricIndex = 2\<rparr>"
    by (simp add: getIsdFromMessage_def NO_FABRIC_def UNSPECIFIED_NODE_ID_def)
  show ?thesis using foreign_fabric_gets_nothing [OF c i] c by (auto simp: FabricAccessControl_def)
qed

end
