(* ===== verification/Base38.thy ===== *)
theory Base38
  imports Js_Text
begin

text \<open>
  \<open>Base38Schema.ts\<close> of the package \<open>types\<close>, the text encoding of QR codes: three bytes become five characters, two become four and one
  becomes two, the least significant character first.

  The main lemma is that decoding accepts exactly what encoding writes and inverts it.
\<close>

definition BASE38_ALPHABET :: js_string where
  "BASE38_ALPHABET = map of_char ''0123456789ABCDEFGHIJKLMNOPQRSTUVWXYZ-.''"

text \<open>\<open>indexOf\<close> of a string, for one character.\<close>

fun indexOf :: "js_string \<Rightarrow> 16 word \<Rightarrow> int" where
  "indexOf [] c = -1"
| "indexOf (a # s) c = (if a = c then 0 else let i = indexOf s c in if i = -1 then -1 else i + 1)"

section \<open>Encoding\<close>

fun encodeBase38 :: "int \<Rightarrow> nat \<Rightarrow> js_string" where
  "encodeBase38 v 0 = []"
| "encodeBase38 v (Suc charCount) =
    (let remainder = js_rem v 38
     in BASE38_ALPHABET ! nat remainder # encodeBase38 ((v - remainder) div 38) charCount)"

fun base38_encode :: "bytes \<Rightarrow> js_string" where
  "base38_encode [] = []"
| "base38_encode (a # b # c # bs) =
    encodeBase38 (js_or (js_or (uint a) (js_shl (uint b) 8)) (js_shl (uint c) 16)) 5 @ base38_encode bs"
| "base38_encode [a, b] = encodeBase38 (js_or (uint a) (js_shl (uint b) 8)) 4"
| "base38_encode [a] = encodeBase38 (uint a) 2"

section \<open>Decoding\<close>

text \<open>The loop visits the characters of a group from the last to the first.\<close>

fun decode_loop :: "js_string \<Rightarrow> int \<Rightarrow> error + int" where
  "decode_loop [] result = Inr result"
| "decode_loop (c # cs) result =
    (let code = indexOf BASE38_ALPHABET c
     in if code = -1 then Inl UnexpectedDataError else decode_loop cs (result * 38 + code))"

definition decodeBase38 :: "js_string \<Rightarrow> nat \<Rightarrow> error + int" where
  "decodeBase38 cs byteCount =
    bindE (decode_loop (rev cs) 0) (\<lambda>result.
      if result \<ge> js_shl 1 (8 * int byteCount) then Inl UnexpectedDataError else Inr result)"

fun decode_groups :: "js_string \<Rightarrow> error + bytes" where
  "decode_groups [] = Inr []"
| "decode_groups (a # b # c # d # e # cs) =
    bindE (decodeBase38 [a, b, c, d, e] 3) (\<lambda>v.
    bindE (decode_groups cs) (\<lambda>bs.
    Inr (word_of_int (js_and v 0xff) # word_of_int (js_and (js_shr v 8) 0xff) # word_of_int (js_and (js_shr v 16) 0xff) # bs)))"
| "decode_groups [a, b, c, d] =
    bindE (decodeBase38 [a, b, c, d] 2) (\<lambda>v. Inr [word_of_int (js_and v 0xff), word_of_int (js_and (js_shr v 8) 0xff)])"
| "decode_groups [a, b, c] = bindE (decodeBase38 [a, b] 1) (\<lambda>v. Inr [word_of_int (js_and v 0xff)])"
| "decode_groups [a, b] = bindE (decodeBase38 [a, b] 1) (\<lambda>v. Inr [word_of_int (js_and v 0xff)])"
| "decode_groups [a] = Inl UnexpectedDataError"

definition base38_decode :: "js_string \<Rightarrow> error + bytes" where
  "base38_decode encoded =
    (if length encoded mod 5 \<in> {0, 2, 4} then decode_groups encoded else Inl UnexpectedDataError)"

section \<open>Groups of characters\<close>

lemma indexOf_range: "-1 \<le> indexOf s c \<and> indexOf s c < int (length s)"
  by (induction s) (auto simp: Let_def)

lemma indexOf_iff: "distinct s \<Longrightarrow> 0 \<le> i \<Longrightarrow> i < int (length s) \<Longrightarrow> indexOf s c = i \<longleftrightarrow> s ! nat i = c"
proof (induction s arbitrary: i)
  case (Cons a s)
  show ?case
  proof (cases "i = 0")
    case False
    have "indexOf s c = i - 1 \<longleftrightarrow> s ! nat (i - 1) = c" using Cons False by simp
    moreover have "nat i = Suc (nat (i - 1))" using Cons.prems False by simp
    moreover have "a \<noteq> s ! nat (i - 1)" using Cons.prems False by (metis \<open>nat i = Suc (nat (i - 1))\<close> distinct.simps(2) length_Cons
      nat_less_iff not_less_eq nth_mem)
    ultimately show ?thesis using Cons.prems False by (auto simp: Let_def)
  qed (use Cons in \<open>auto simp: Let_def\<close>)
qed simp

lemma alphabet: "distinct BASE38_ALPHABET" "length BASE38_ALPHABET = 38"
  by code_simp+

lemmas alphabet_index = indexOf_iff [OF alphabet(1), unfolded alphabet(2)] indexOf_range [of BASE38_ALPHABET, unfolded alphabet(2)]

text \<open>The number a group stands for, character by character.\<close>

fun group_value :: "js_string \<Rightarrow> int" where
  "group_value [] = 0"
| "group_value (c # cs) = indexOf BASE38_ALPHABET c + 38 * group_value cs"

definition in_alphabet :: "js_string \<Rightarrow> bool" where
  "in_alphabet cs \<longleftrightarrow> list_all (\<lambda>c. indexOf BASE38_ALPHABET c \<noteq> -1) cs"

lemma decode_loop_append: "decode_loop (xs @ ys) r = bindE (decode_loop xs r) (decode_loop ys)"
  by (induction xs arbitrary: r) (simp_all add: Let_def)

lemma decode_loop_rev: "decode_loop (rev cs) 0 = (if in_alphabet cs then Inr (group_value cs) else Inl UnexpectedDataError)"
  by (induction cs) (simp_all add: decode_loop_append in_alphabet_def Let_def)

lemma group_value_range: "in_alphabet cs \<Longrightarrow> 0 \<le> group_value cs \<and> group_value cs < 38 ^ length cs"
proof (induction cs)
  case (Cons c cs)
  then have "0 \<le> group_value cs" "group_value cs + 1 \<le> 38 ^ length cs" by (simp_all add: in_alphabet_def)
  then show ?case using Cons.prems alphabet_index(2) [of c] by (auto simp: in_alphabet_def)
qed simp

lemma encode_group_value: "in_alphabet cs \<Longrightarrow> encodeBase38 (group_value cs) (length cs) = cs"
proof (induction cs)
  case (Cons c cs)
  define i g where "i = indexOf BASE38_ALPHABET c" and "g = group_value cs"
  have i: "0 \<le> i" "i < 38" and g: "0 \<le> g"
    using Cons.prems alphabet_index(2) [of c] group_value_range [of cs] by (simp_all add: in_alphabet_def i_def g_def)
  then have "js_rem (i + 38 * g) 38 = i" by (simp add: js_rem_def sgn_if)
  moreover have "BASE38_ALPHABET ! nat i = c" using alphabet_index(1) [of i c] i by (simp add: i_def)
  ultimately show ?case using Cons by (simp add: Let_def in_alphabet_def flip: i_def g_def)
qed simp

lemma group_value_encode: "0 \<le> v \<Longrightarrow> v < 38 ^ n \<Longrightarrow> in_alphabet (encodeBase38 v n) \<and> group_value (encodeBase38 v n) = v"
proof (induction n arbitrary: v)
  case (Suc n)
  have r: "js_rem v 38 = v mod 38" using Suc.prems by (auto simp: js_rem_def sgn_if)
  have "v div 38 < 38 ^ n" using Suc.prems by (simp add: div_less_iff_less_mult mult.commute)
  then have "in_alphabet (encodeBase38 (v div 38) n) \<and> group_value (encodeBase38 (v div 38) n) = v div 38"
    using Suc by (simp add: pos_imp_zdiv_nonneg_iff)
  moreover have "(v - v mod 38) div 38 = v div 38" by (simp add: minus_mod_eq_mult_div)
  moreover have "indexOf BASE38_ALPHABET (BASE38_ALPHABET ! nat (v mod 38)) = v mod 38"
    by (subst alphabet_index(1)) simp_all
  ultimately show ?case by (simp add: Let_def r in_alphabet_def)
qed (simp add: in_alphabet_def)

lemma length_encodeBase38 [simp]: "length (encodeBase38 v n) = n"
  by (induction n arbitrary: v) (simp_all add: Let_def)

text \<open>A group of characters decodes to a number that fits its bytes exactly when it is the encoding of it.\<close>

lemma decodeBase38_iff:
  assumes "k \<le> 3" "256 ^ k \<le> (38 :: int) ^ length cs"
  shows "decodeBase38 cs k = Inr v \<longleftrightarrow> 0 \<le> v \<and> v < 256 ^ k \<and> encodeBase38 v (length cs) = cs"
proof -
  have "k \<in> {0, 1, 2, 3}" using assms(1) by auto
  then have s: "js_shl 1 (8 * int k) = 256 ^ k" by (elim insertE) (simp_all add: js_shl_def to_int32_def signed_take_bit_def push_bit_eq_mult)
  show ?thesis
    using assms group_value_range [of cs] encode_group_value [of cs] group_value_encode [of v "length cs"]
    unfolding decodeBase38_def decode_loop_rev s by (auto simp: bindE_def)
qed

section \<open>Groups of bytes\<close>

lemma bytes_value:
  fixes a b c :: byte
  shows "js_or (uint a) (js_shl (uint b) 8) = le_value [a, b]"
    "js_or (js_or (uint a) (js_shl (uint b) 8)) (js_shl (uint c) 16) = le_value [a, b, c]"
proof -
  note u = uint_byte_bounds [of a] uint_byte_bounds [of b] uint_byte_bounds [of c]
  have ab: "js_or (uint a) (js_shl (uint b) 8) = uint b * 256 + uint a" using js_or_parts(1) [of "uint a" 8 "uint b" 8] u by simp
  then show "js_or (uint a) (js_shl (uint b) 8) = le_value [a, b]" by simp
  show "js_or (js_or (uint a) (js_shl (uint b) 8)) (js_shl (uint c) 16) = le_value [a, b, c]"
    unfolding ab using js_or_parts(1) [of "uint b * 256 + uint a" 16 "uint c" 8] u by simp
qed

lemma byte_and_ff [simp]: "word_of_int (js_and v 0xff) = (word_of_int v :: byte)"
  by (simp add: js_and_ff word_uint_eq_iff)

text \<open>A group as bytes.\<close>

lemma group_bytes:
  assumes "k \<le> 3" "256 ^ k \<le> (38 :: int) ^ length cs"
  shows "(\<exists>v. decodeBase38 cs k = Inr v \<and> xs = le_bytes k v) \<longleftrightarrow> length xs = k \<and> encodeBase38 (le_value xs) (length cs) = cs"
proof
  assume "\<exists>v. decodeBase38 cs k = Inr v \<and> xs = le_bytes k v"
  then obtain v where v: "0 \<le> v" "v < 256 ^ k" "encodeBase38 v (length cs) = cs" "xs = le_bytes k v"
    by (auto simp: decodeBase38_iff [OF assms])
  then show "length xs = k \<and> encodeBase38 (le_value xs) (length cs) = cs" by (simp add: le_value_le_bytes)
next
  assume "length xs = k \<and> encodeBase38 (le_value xs) (length cs) = cs"
  then show "\<exists>v. decodeBase38 cs k = Inr v \<and> xs = le_bytes k v"
    using le_value_less [of xs] le_bytes_le_value [of xs] by (intro exI [of _ "le_value xs"]) (simp add: decodeBase38_iff [OF assms])
qed

lemma decodeBase38_bounds: "decodeBase38 cs k = Inr v \<Longrightarrow> k \<le> 3 \<Longrightarrow> 256 ^ k \<le> (38 :: int) ^ length cs \<Longrightarrow> 0 \<le> v \<and> v < 2 ^ 24"
  using power_increasing [of k 3 "256 :: int"] by (simp add: decodeBase38_iff)

lemma value_bytes_list:
  assumes "0 \<le> v" "v < 2 ^ 24"
  shows "[word_of_int (js_and v 0xff), word_of_int (js_and (js_shr v 8) 0xff), word_of_int (js_and (js_shr v 16) 0xff)] = le_bytes 3 v"
    "[word_of_int (js_and v 0xff), word_of_int (js_and (js_shr v 8) 0xff)] = le_bytes 2 v"
    "[word_of_int (js_and v 0xff)] = le_bytes 1 v"
proof -
  have "js_shr v 8 = v div 256" "js_shr v 16 = v div 256 div 256"
    using js_shr_small [of v 8] js_shr_small [of v 16] assms by (simp_all add: zdiv_zmult2_eq [symmetric])
  then show "[word_of_int (js_and v 0xff), word_of_int (js_and (js_shr v 8) 0xff), word_of_int (js_and (js_shr v 16) 0xff)] = le_bytes 3 v"
    "[word_of_int (js_and v 0xff), word_of_int (js_and (js_shr v 8) 0xff)] = le_bytes 2 v" "[word_of_int (js_and v 0xff)] = le_bytes 1 v"
    by (simp_all add: le_bytes_numeral)
qed

text \<open>What a group of each size decodes to.\<close>

definition group_bytes_of :: "nat \<Rightarrow> js_string \<Rightarrow> error + bytes" where
  "group_bytes_of k cs = bindE (decodeBase38 cs k) (\<lambda>v. Inr (le_bytes k v))"

lemma group_bytes_of_iff:
  "k \<le> 3 \<Longrightarrow> 256 ^ k \<le> (38 :: int) ^ length cs \<Longrightarrow> group_bytes_of k cs = Inr xs \<longleftrightarrow> length xs = k \<and> encodeBase38 (le_value xs) (length cs) = cs"
  unfolding group_bytes [symmetric] by (auto simp: group_bytes_of_def bindE_eq_Inr_iff)

lemma decode_groups_alt:
  "decode_groups (a # b # c # d # e # cs) = bindE (group_bytes_of 3 [a, b, c, d, e]) (\<lambda>xs. bindE (decode_groups cs) (\<lambda>bs. Inr (xs @ bs)))"
  "decode_groups [a, b, c, d] = group_bytes_of 2 [a, b, c, d]"
  "decode_groups [a, b] = group_bytes_of 1 [a, b]"
proof -
  have b: "0 \<le> v \<and> v < 2 ^ 24" if "decodeBase38 xs k = Inr v" "(length xs, k) \<in> {(5, 3), (4, 2), (2, 1)}" for v k xs
    using decodeBase38_bounds [OF that(1)] that(2) by auto
  show "decode_groups [a, b] = group_bytes_of 1 [a, b]"
    unfolding group_bytes_of_def decode_groups.simps by (rule bindE_cong) simp_all
  show "decode_groups [a, b, c, d] = group_bytes_of 2 [a, b, c, d]"
    unfolding group_bytes_of_def decode_groups.simps by (rule bindE_cong [OF refl], drule b) (simp_all only: value_bytes_list, simp_all)
  show "decode_groups (a # b # c # d # e # cs) = bindE (group_bytes_of 3 [a, b, c, d, e]) (\<lambda>xs. bindE (decode_groups cs) (\<lambda>bs. Inr (xs @ bs)))"
    unfolding group_bytes_of_def decode_groups.simps(2) bindE_assoc bindE_Inr
    by (rule bindE_cong [OF refl], drule b) (simp_all flip: value_bytes_list(1))
qed

lemma base38_encode_alt:
  "length xs = 3 \<Longrightarrow> base38_encode (xs @ bs) = encodeBase38 (le_value xs) 5 @ base38_encode bs"
  "length xs = 2 \<Longrightarrow> base38_encode xs = encodeBase38 (le_value xs) 4"
  "length xs = 1 \<Longrightarrow> base38_encode xs = encodeBase38 (le_value xs) 2"
proof -
  show "length xs = 3 \<Longrightarrow> base38_encode (xs @ bs) = encodeBase38 (le_value xs) 5 @ base38_encode bs"
    by (auto simp only: length_Suc_conv numeral_3_eq_3 append.simps length_0_conv base38_encode.simps bytes_value(2))
  show "length xs = 2 \<Longrightarrow> base38_encode xs = encodeBase38 (le_value xs) 4"
    by (auto simp only: length_Suc_conv numeral_2_eq_2 length_0_conv base38_encode.simps bytes_value)
  show "length xs = 1 \<Longrightarrow> base38_encode xs = encodeBase38 (le_value xs) 2"
    by (cases xs) simp_all
qed

lemma decode_groups_encode: "decode_groups (base38_encode bs) = Inr bs"
proof -
  have g: "group_bytes_of k (encodeBase38 (le_value xs) n) = Inr xs" if "length xs = k" "(n, k) \<in> {(5, 3), (4, 2), (2, 1)}" for k n xs
    using that by (auto simp: group_bytes_of_iff)
  have l: "\<exists>a b c d e. encodeBase38 v 5 = [a, b, c, d, e]" "\<exists>a b c d. encodeBase38 v 4 = [a, b, c, d]" "\<exists>a b. encodeBase38 v 2 = [a, b]" for v
    using length_encodeBase38 [of v 5] length_encodeBase38 [of v 4] length_encodeBase38 [of v 2]
    by (simp_all only: numeral_eq_Suc pred_numeral_simps BitM.simps length_Suc_conv) blast+
  show ?thesis
  proof (induction bs rule: base38_encode.induct)
    case (2 a b c bs)
    obtain p q r s t where e: "encodeBase38 (le_value [a, b, c]) 5 = [p, q, r, s, t]" using l(1) by blast
    then show ?case
      using base38_encode_alt(1) [of "[a, b, c]" bs] g [of "[a, b, c]" 3 5] 2 by (simp del: decode_groups.simps(2) base38_encode.simps(2) add: decode_groups_alt)
  next
    case (3 a b)
    obtain p q r s where e: "encodeBase38 (le_value [a, b]) 4 = [p, q, r, s]" using l(2) by blast
    then show ?case
      using base38_encode_alt(2) [of "[a, b]"] g [of "[a, b]" 2 4] by (simp del: decode_groups.simps base38_encode.simps add: decode_groups_alt)
  next
    case (4 a)
    obtain p q where e: "encodeBase38 (uint a) 2 = [p, q]" using l(3) by blast
    then show ?case using g [of "[a]" 1 2] by (simp del: decode_groups.simps add: decode_groups_alt)
  qed simp
qed

lemma encode_decode_groups: "length s mod 5 \<in> {0, 2, 4} \<Longrightarrow> decode_groups s = Inr bs \<Longrightarrow> base38_encode bs = s"
proof (induction "length s" arbitrary: s bs rule: less_induct)
  case less
  have g: "length xs = k \<and> encodeBase38 (le_value xs) n = cs"
    if "group_bytes_of k cs = Inr xs" "(n, k) \<in> {(5, 3), (4, 2), (2, 1)}" "length cs = n" for k n xs cs
    using that by (auto simp: group_bytes_of_iff)
  show ?case
  proof (cases s rule: decode_groups.cases)
    case (2 a b c d e cs)
    have "length (a # b # c # d # e # cs) mod 5 = length cs mod 5" using mod_add_self2 [of "length cs" 5] by simp
    then have m: "length cs mod 5 \<in> {0, 2, 4}" using less(2) 2 by simp
    obtain xs ys where y: "group_bytes_of 3 [a, b, c, d, e] = Inr xs" "decode_groups cs = Inr ys" "bs = xs @ ys"
      using less(3) unfolding 2 decode_groups_alt by (auto simp: bindE_eq_Inr_iff)
    have "base38_encode ys = cs" using less(1) [OF _ m y(2)] by (simp add: 2)
    then show ?thesis using g [OF y(1), of 5] by (simp add: y(3) 2 base38_encode_alt(1))
  next
    case (3 a b c d)
    show ?thesis using g [of 2 "[a, b, c, d]" bs 4] less(3) unfolding 3 decode_groups_alt by (simp add: base38_encode_alt(2))
  next
    case (5 a b)
    show ?thesis using g [of 1 "[a, b]" bs 2] less(3) unfolding 5 decode_groups_alt by (simp add: base38_encode_alt(3))
  qed (use less in auto)
qed

lemma length_base38_encode: "length (base38_encode bs) = 5 * (length bs div 3) + 2 * (length bs mod 3)"
proof (induction bs rule: base38_encode.induct)
  case (2 a b c bs)
  have l: "length (a # b # c # bs) = length bs + 3" by simp
  show ?case unfolding l base38_encode.simps length_append length_encodeBase38 2 by (simp add: div_add_self2)
qed simp_all

lemma set_encodeBase38: "0 \<le> v \<Longrightarrow> set (encodeBase38 v n) \<subseteq> set BASE38_ALPHABET"
proof (induction n arbitrary: v)
  case (Suc n)
  have "js_rem v 38 = v mod 38" using Suc.prems by (auto simp: js_rem_def sgn_if)
  moreover have "BASE38_ALPHABET ! nat (v mod 38) \<in> set BASE38_ALPHABET" by (rule nth_mem) (simp add: alphabet(2))
  moreover have "0 \<le> (v - v mod 38) div 38" by (simp add: minus_mod_eq_mult_div pos_imp_zdiv_nonneg_iff Suc.prems)
  ultimately show ?case using Suc.IH by (simp add: Let_def)
qed simp

lemma set_base38_encode: "set (base38_encode bs) \<subseteq> set BASE38_ALPHABET"
proof (induction bs rule: base38_encode.induct)
  case (2 a b c bs)
  then show ?case unfolding base38_encode.simps bytes_value(2) set_append using set_encodeBase38 [OF le_value_nonneg, of "[a, b, c]" 5] by blast
next
  case (3 a b)
  show ?case unfolding base38_encode.simps bytes_value(1) by (rule set_encodeBase38 [OF le_value_nonneg])
qed (simp_all add: set_encodeBase38)

lemma length_base38_encode_mod: "length (base38_encode bs) mod 5 \<in> {0, 2, 4}"
proof -
  have "length bs mod 3 \<in> {0, 1, 2}" by auto
  then show ?thesis unfolding length_base38_encode by auto
qed

lemma base38_decode_encode: "base38_decode (base38_encode bs) = Inr bs"
  unfolding base38_decode_def using decode_groups_encode length_base38_encode_mod by (simp only: if_True)

section \<open>Properties\<close>

text \<open>
  C33: a string decodes to some bytes exactly when it is the encoding of these bytes.  So encoding followed by
  decoding is the identity, and every other string, one whose groups denote more than their bytes included, is refused.
\<close>

theorem base38_exact: "base38_decode s = Inr bs \<longleftrightarrow> s = base38_encode bs"
proof
  assume "base38_decode s = Inr bs"
  then show "s = base38_encode bs"
    using encode_decode_groups [of s bs] by (cases "length s mod 5 \<in> {0, 2, 4}") (simp_all only: base38_decode_def if_True if_False sum.distinct)
qed (simp add: base38_decode_encode)

end
