(* ===== verification/Verhoeff.thy ===== *)
theory Verhoeff
  imports Js_Text
begin

text \<open>
  \<open>Verhoeff.ts\<close> of the package \<open>general\<close>, the check digit of manual pairing codes.

  A code, data followed by its check digit, is balanced: multiplied through from the check digit on, it gives zero.  The lemmas
  show that a balanced code with one digit changed, or two neighbouring digits swapped, is no longer balanced.
\<close>

definition multiply :: "nat list list" where
  "multiply =
   [[0, 1, 2, 3, 4, 5, 6, 7, 8, 9],
    [1, 2, 3, 4, 0, 6, 7, 8, 9, 5],
    [2, 3, 4, 0, 1, 7, 8, 9, 5, 6],
    [3, 4, 0, 1, 2, 8, 9, 5, 6, 7],
    [4, 0, 1, 2, 3, 9, 5, 6, 7, 8],
    [5, 9, 8, 7, 6, 0, 4, 3, 2, 1],
    [6, 5, 9, 8, 7, 1, 0, 4, 3, 2],
    [7, 6, 5, 9, 8, 2, 1, 0, 4, 3],
    [8, 7, 6, 5, 9, 3, 2, 1, 0, 4],
    [9, 8, 7, 6, 5, 4, 3, 2, 1, 0]]"

definition inverse_table :: "nat list" where
  "inverse_table = [0, 4, 3, 2, 1, 5, 6, 7, 8, 9]"

definition permute :: "nat list list" where
  "permute =
   [[0, 1, 2, 3, 4, 5, 6, 7, 8, 9],
    [1, 5, 7, 6, 2, 8, 3, 0, 9, 4],
    [5, 8, 0, 3, 7, 9, 6, 1, 4, 2],
    [8, 9, 1, 6, 0, 4, 3, 5, 2, 7],
    [9, 4, 5, 3, 1, 2, 6, 8, 7, 0],
    [4, 2, 8, 6, 5, 7, 3, 9, 0, 1],
    [2, 7, 9, 3, 8, 0, 6, 4, 1, 5],
    [7, 0, 4, 6, 9, 1, 3, 2, 5, 8]]"

text \<open>\<open>Number.parseInt\<close> of one character: a digit, or \<open>NaN\<close>.\<close>

definition is_digit :: "16 word \<Rightarrow> bool" where
  "is_digit c \<longleftrightarrow> 48 \<le> c \<and> c \<le> 57"

definition parseDigit :: "16 word \<Rightarrow> nat option" where
  "parseDigit c = (if is_digit c then Some (unat c - 48) else None)"

text \<open>The loop over the digits from the last to the first, \<open>i\<close> counting from one.\<close>

fun checksum_loop :: "js_string \<Rightarrow> nat \<Rightarrow> nat \<Rightarrow> error + nat" where
  "checksum_loop [] i checksum = Inr checksum"
| "checksum_loop (c # cs) i checksum =
    (case parseDigit c of
       None \<Rightarrow> Inl ImplementationError
     | Some digit \<Rightarrow> checksum_loop cs (i + 1) (multiply ! checksum ! (permute ! (i mod 8) ! digit)))"

definition computeChecksum :: "js_string \<Rightarrow> error + nat" where
  "computeChecksum digits = bindE (checksum_loop (rev digits) 1 0) (\<lambda>checksum. Inr (inverse_table ! checksum))"

section \<open>The tables\<close>

definition mul :: "nat \<Rightarrow> nat \<Rightarrow> nat" where "mul a b = multiply ! a ! b"

definition perm :: "nat \<Rightarrow> nat \<Rightarrow> nat" where "perm i d = permute ! (i mod 8) ! d"

definition digit_range :: "nat list" where "digit_range = [0, 1, 2, 3, 4, 5, 6, 7, 8, 9]"

lemma in_digit_range: "d < 10 \<longleftrightarrow> d \<in> set digit_range"
  unfolding digit_range_def by auto

lemma table_checks:
  "list_all (\<lambda>a. list_all (\<lambda>b. mul a b < 10) digit_range) digit_range"
  "list_all (\<lambda>a. distinct (map (mul a) digit_range)) digit_range"
  "list_all (\<lambda>a. distinct (map (\<lambda>b. mul b a) digit_range)) digit_range"
  "list_all (\<lambda>a. list_all (\<lambda>b. list_all (\<lambda>c. mul (mul a b) c = mul a (mul b c)) digit_range) digit_range) digit_range"
  "list_all (\<lambda>a. list_all (\<lambda>b. (mul b a = 0) = (b = inverse_table ! a)) digit_range) digit_range"
  by code_simp+

lemma permute_checks:
  "list_all (\<lambda>p. list_all (\<lambda>b. p ! b < 10) digit_range \<and> distinct p) permute"
  "list_all (\<lambda>(p, q). list_all (\<lambda>a. list_all (\<lambda>b. a = b \<or> mul (p ! a) (q ! b) \<noteq> mul (p ! b) (q ! a)) digit_range) digit_range)
    (zip permute (tl permute @ [hd permute]))"
  by code_simp+

lemma mul_less: "a < 10 \<Longrightarrow> b < 10 \<Longrightarrow> mul a b < 10"
  using table_checks(1) by (simp add: in_digit_range list_all_iff)

lemma mul_cancel_left: "a < 10 \<Longrightarrow> b < 10 \<Longrightarrow> c < 10 \<Longrightarrow> mul a b = mul a c \<longleftrightarrow> b = c"
  using table_checks(2) by (auto simp only: in_digit_range list_all_iff distinct_map inj_on_def)

lemma mul_cancel_right: "a < 10 \<Longrightarrow> b < 10 \<Longrightarrow> c < 10 \<Longrightarrow> mul b a = mul c a \<longleftrightarrow> b = c"
  using table_checks(3) by (auto simp only: in_digit_range list_all_iff distinct_map inj_on_def)

lemma mul_assoc: "a < 10 \<Longrightarrow> b < 10 \<Longrightarrow> c < 10 \<Longrightarrow> mul (mul a b) c = mul a (mul b c)"
  using table_checks(4) by (simp add: in_digit_range list_all_iff)

lemma mul_inverse: "a < 10 \<Longrightarrow> b < 10 \<Longrightarrow> mul b a = 0 \<longleftrightarrow> b = inverse_table ! a"
  using table_checks(5) by (simp add: in_digit_range list_all_iff)

lemma length_permute: "length permute = 8"
  by (simp add: permute_def)

lemma perm_row: "permute ! (i mod 8) \<in> set permute"
  by (rule nth_mem) (simp add: length_permute)

lemma perm_less: "d < 10 \<Longrightarrow> perm i d < 10"
  using permute_checks(1) perm_row [of i] by (simp add: perm_def list_all_iff in_digit_range)

lemma length_perm_row: "length (permute ! (i mod 8)) = 10"
proof -
  have "list_all (\<lambda>p. length p = 10) permute" by code_simp
  then show ?thesis using perm_row by (simp add: list_all_iff)
qed

lemma perm_inject: "d < 10 \<Longrightarrow> e < 10 \<Longrightarrow> perm i d = perm i e \<longleftrightarrow> d = e"
  using permute_checks(1) perm_row [of i] by (simp add: perm_def list_all_iff nth_eq_iff_index_eq length_perm_row)

lemma perm_next: "(permute ! (i mod 8), permute ! (Suc i mod 8)) \<in> set (zip permute (tl permute @ [hd permute]))"
proof -
  have "zip permute (tl permute @ [hd permute]) ! (i mod 8) = (permute ! (i mod 8), permute ! (Suc i mod 8))"
  proof -
    have "i mod 8 < 8" "hd permute = permute ! 0" by (simp_all add: permute_def)
    then show ?thesis by (cases "i mod 8 = 7") (auto simp: length_permute nth_append nth_tl mod_Suc)
  qed
  moreover have "i mod 8 < length (zip permute (tl permute @ [hd permute]))" by (simp add: length_permute)
  ultimately show ?thesis by (metis nth_mem)
qed

lemma perm_swap: "a < 10 \<Longrightarrow> b < 10 \<Longrightarrow> a \<noteq> b \<Longrightarrow> mul (perm i a) (perm (Suc i) b) \<noteq> mul (perm i b) (perm (Suc i) a)"
  using permute_checks(2) perm_next [of i] unfolding perm_def list_all_iff in_digit_range by blast

section \<open>Weighing a code\<close>

fun weigh :: "nat list \<Rightarrow> nat \<Rightarrow> nat \<Rightarrow> nat" where
  "weigh [] i c = c"
| "weigh (d # ds) i c = weigh ds (Suc i) (mul c (perm i d))"

lemma weigh_append: "weigh (xs @ ys) i c = weigh ys (i + length xs) (weigh xs i c)"
  by (induction xs arbitrary: i c) simp_all

lemma weigh_less: "list_all (\<lambda>d. d < 10) ds \<Longrightarrow> c < 10 \<Longrightarrow> weigh ds i c < 10"
  by (induction ds arbitrary: i c) (simp_all add: mul_less perm_less)

lemma weigh_inject: "list_all (\<lambda>d. d < 10) ds \<Longrightarrow> c < 10 \<Longrightarrow> d < 10 \<Longrightarrow> weigh ds i c = weigh ds i d \<longleftrightarrow> c = d"
  by (induction ds arbitrary: i c d) (simp_all add: mul_less perm_less mul_cancel_right)

lemma weigh_mul: "list_all (\<lambda>d. d < 10) ds \<Longrightarrow> a < 10 \<Longrightarrow> c < 10 \<Longrightarrow> weigh ds i (mul a c) = mul a (weigh ds i c)"
  by (induction ds arbitrary: i c) (simp_all add: mul_less perm_less mul_assoc)

lemma weigh_changed:
  assumes "list_all (\<lambda>d. d < 10) (xs @ a # ys)" "list_all (\<lambda>d. d < 10) (xs @ b # ys)" "c < 10" "a \<noteq> b"
  shows "weigh (xs @ a # ys) i c \<noteq> weigh (xs @ b # ys) i c"
  using assms by (simp add: weigh_append weigh_inject mul_less perm_less weigh_less mul_cancel_left perm_inject)

lemma weigh_swapped:
  assumes "list_all (\<lambda>d. d < 10) (xs @ a # b # ys)" "c < 10" "a \<noteq> b"
  shows "weigh (xs @ a # b # ys) i c \<noteq> weigh (xs @ b # a # ys) i c"
  using assms perm_swap [of a b]
  by (simp add: weigh_append weigh_inject mul_less perm_less weigh_less mul_assoc mul_cancel_left)

section \<open>Codes with a check digit\<close>

definition digit :: "16 word \<Rightarrow> nat" where "digit c = unat c - 48"

lemma digit_less: "is_digit c \<Longrightarrow> digit c < 10"
  unfolding is_digit_def digit_def by unat_arith

lemma digit_inject: "is_digit c \<Longrightarrow> is_digit d \<Longrightarrow> digit c = digit d \<longleftrightarrow> c = d"
  unfolding is_digit_def digit_def by unat_arith

lemma digits_less: "list_all is_digit s \<Longrightarrow> list_all (\<lambda>d. d < 10) (map digit s)"
  by (auto simp: list_all_iff digit_less)

lemma checksum_loop_weigh: "list_all is_digit s \<Longrightarrow> checksum_loop s i c = Inr (weigh (map digit s) i c)"
  by (induction s arbitrary: i c) (simp_all add: parseDigit_def digit_def mul_def perm_def)

lemma computeChecksum_digits: "list_all is_digit s \<Longrightarrow> computeChecksum s = Inr (inverse_table ! weigh (map digit (rev s)) 1 0)"
  by (simp add: computeChecksum_def checksum_loop_weigh)

text \<open>The check digit fits exactly when the whole code weighs nothing.\<close>

lemma check_digit_iff:
  assumes "list_all is_digit s" "is_digit c"
  shows "computeChecksum s = Inr (digit c) \<longleftrightarrow> weigh (map digit (rev (s @ [c]))) 0 0 = 0"
proof -
  have d: "list_all (\<lambda>d. d < 10) (map digit (rev s))" "digit c < 10" using assms digits_less [of "rev s"] by (simp_all add: digit_less)
  have z: "mul 0 e = e" "perm 0 e = e" "mul e 0 = e" if "e < 10" for e
    using that unfolding in_digit_range digit_range_def by (auto simp: mul_def perm_def multiply_def permute_def)
  have "weigh (map digit (rev (s @ [c]))) 0 0 = weigh (map digit (rev s)) 1 (mul (digit c) 0)" using z d by simp
  also have "\<dots> = mul (digit c) (weigh (map digit (rev s)) 1 0)" using weigh_mul [OF d(1,2)] by simp
  finally show ?thesis using mul_inverse [OF weigh_less [OF d(1)] d(2), of 0 1] assms by (auto simp: computeChecksum_digits)
qed

text \<open>One digit mistyped, or two neighbours swapped.\<close>

definition typo :: "js_string \<Rightarrow> js_string \<Rightarrow> bool" where
  "typo s t \<longleftrightarrow> (\<exists>xs a b ys. a \<noteq> b \<and> (s = xs @ a # ys \<and> t = xs @ b # ys \<or> s = xs @ a # b # ys \<and> t = xs @ b # a # ys))"

lemma typo_length: "typo s t \<Longrightarrow> length s = length t"
  by (auto simp: typo_def)

lemma typo_detected:
  assumes "typo (s @ [c]) (t @ [d])" "list_all is_digit (s @ [c])" "list_all is_digit (t @ [d])"
  shows "\<not> (computeChecksum s = Inr (digit c) \<and> computeChecksum t = Inr (digit d))"
proof -
  have "weigh (map digit (rev (s @ [c]))) 0 0 \<noteq> weigh (map digit (rev (t @ [d]))) 0 0"
  proof -
    obtain xs a b ys where ab: "a \<noteq> b"
      and c: "s @ [c] = xs @ a # ys \<and> t @ [d] = xs @ b # ys \<or> s @ [c] = xs @ a # b # ys \<and> t @ [d] = xs @ b # a # ys"
      using assms(1) by (auto simp: typo_def)
    show ?thesis using c
    proof
      assume e: "s @ [c] = xs @ a # ys \<and> t @ [d] = xs @ b # ys"
      show ?thesis using assms(2,3) ab weigh_changed [of "map digit (rev ys)" "digit a" "map digit (rev xs)" "digit b" 0 0]
          digits_less [of "rev (s @ [c])"] digits_less [of "rev (t @ [d])"]
        unfolding conjunct1 [OF e] conjunct2 [OF e] by (simp add: digit_inject)
    next
      assume e: "s @ [c] = xs @ a # b # ys \<and> t @ [d] = xs @ b # a # ys"
      show ?thesis using assms(2,3) ab weigh_swapped [of "map digit (rev ys)" "digit b" "digit a" "map digit (rev xs)" 0 0]
          digits_less [of "rev (s @ [c])"]
        unfolding conjunct1 [OF e] conjunct2 [OF e] by (simp add: digit_inject)
    qed
  qed
  then show ?thesis using assms(2,3) by (auto simp: check_digit_iff)
qed

end
