(* ===== verification/Pairing_Code.thy ===== *)
theory Pairing_Code
  imports Bitmap_Schema Base38 Verhoeff
begin

text \<open>
  \<open>PairingCodeSchema.ts\<close> of the package \<open>types\<close>: the onboarding payload as a QR code and as a manual pairing code.  The TLV data
  of a QR code is kept as bytes.

  Texts are lists of 16-bit characters.  The loops of the byte array bitmap make encoding and decoding of QR codes optional
  values, \<open>None\<close> standing for a loop that does not end.
\<close>

section \<open>Passcodes and identifiers\<close>

definition MATTER_QR_CODE_SINGLE_PAYLOAD_MAX_LENGTH :: nat where "MATTER_QR_CODE_SINGLE_PAYLOAD_MAX_LENGTH = 255"
definition MATTER_QR_CODE_ALL_PAYLOAD_MAX_LENGTH :: nat where "MATTER_QR_CODE_ALL_PAYLOAD_MAX_LENGTH = 4296"
definition PASSCODE_MIN :: int where "PASSCODE_MIN = 0x0000001"
definition PASSCODE_MAX :: int where "PASSCODE_MAX = 0x5f5e0fe"
definition PRODUCT_ID_MAX :: int where "PRODUCT_ID_MAX = 0xffff"

definition INVALID_PASSCODES :: "int list" where
  "INVALID_PASSCODES = [0, 11111111, 22222222, 33333333, 44444444, 55555555, 66666666, 77777777, 88888888, 99999999, 12345678, 87654321]"

definition isValidPasscode :: "int \<Rightarrow> bool" where
  "isValidPasscode passcode \<longleftrightarrow> passcode \<ge> PASSCODE_MIN \<and> passcode \<le> PASSCODE_MAX \<and> passcode \<notin> set INVALID_PASSCODES"

definition assertValidPasscode :: "int \<Rightarrow> error + unit" where
  "assertValidPasscode passcode = (if isValidPasscode passcode then Inr () else Inl UnexpectedDataError)"

definition statedIdentifier :: "int option \<Rightarrow> int option" where
  "statedIdentifier i = (if i = None \<or> i = Some 0 then None else i)"

definition VendorId :: "int \<Rightarrow> error + int" where
  "VendorId v = (if v \<ge> 0 \<and> v \<le> 0xfff4 then Inr v else Inl ValidationOutOfBoundsError)"

definition assertValidPayloadIdentity :: "int option \<Rightarrow> int option \<Rightarrow> error + unit" where
  "assertValidPayloadIdentity rawVendorId rawProductId =
    (let vendorId = statedIdentifier rawVendorId; productId = statedIdentifier rawProductId in
     if (case vendorId of None \<Rightarrow> False | Some v \<Rightarrow> \<not> is_ok (VendorId v)) then Inl UnexpectedDataError
     else if (case productId of None \<Rightarrow> False | Some p \<Rightarrow> p < 0 \<or> p > PRODUCT_ID_MAX) then Inl UnexpectedDataError
     else if productId = None \<and> vendorId \<noteq> None then Inl UnexpectedDataError
     else Inr ())"

section \<open>QR codes\<close>

definition PREFIX :: js_string where "PREFIX = map of_char ''MT:''"

record QrCodeData =
  qr_version :: int
  qr_vendorId :: "int option"
  qr_productId :: "int option"
  qr_flowType :: int
  qr_discoveryCapabilities :: int
  qr_discriminator :: int
  qr_passcode :: int
  qr_tlvData :: "bytes option"

definition QrCodeDataSchema :: bit_schema where
  "QrCodeDataSchema =
    [(''version'', BitField 0 3), (''vendorId'', BitField 3 16), (''productId'', BitField 19 16), (''flowType'', BitFieldEnum 35 2),
     (''discoveryCapabilities'', BitField 37 8), (''discriminator'', BitField 45 12), (''passcode'', BitField 57 27)]"

definition qr_fields :: "QrCodeData \<Rightarrow> bit_values" where
  "qr_fields p =
    [''version'' \<mapsto> NumV (qr_version p), ''vendorId'' \<mapsto> NumV (case qr_vendorId p of None \<Rightarrow> 0 | Some v \<Rightarrow> v),
     ''productId'' \<mapsto> NumV (case qr_productId p of None \<Rightarrow> 0 | Some v \<Rightarrow> v), ''flowType'' \<mapsto> NumV (qr_flowType p),
     ''discoveryCapabilities'' \<mapsto> NumV (qr_discoveryCapabilities p), ''discriminator'' \<mapsto> NumV (qr_discriminator p),
     ''passcode'' \<mapsto> NumV (qr_passcode p)]"

definition qr_validate :: "QrCodeData list \<Rightarrow> error + unit" where
  "qr_validate ps =
    foldr (\<lambda>p r. if qr_version p \<noteq> 0 then Inl UnexpectedDataError else bindE (assertValidPasscode (qr_passcode p)) (\<lambda>_. r)) ps (Inr ())"

definition qr_validateDecoded :: "QrCodeData list \<Rightarrow> error + unit" where
  "qr_validateDecoded ps = foldr (\<lambda>p r. bindE (assertValidPayloadIdentity (qr_vendorId p) (qr_productId p)) (\<lambda>_. r)) ps (Inr ())"

definition qr_encode_payload :: "QrCodeData \<Rightarrow> (error + js_string) option" where
  "qr_encode_payload p =
    map_option (\<lambda>fields.
      let data = (case qr_tlvData p of None \<Rightarrow> fields | Some t \<Rightarrow> if length t > 0 then fields @ t else fields);
          result = base38_encode data
      in if length PREFIX + length result > MATTER_QR_CODE_SINGLE_PAYLOAD_MAX_LENGTH then Inl UnexpectedDataError else Inr result)
     (array_encode QrCodeDataSchema (qr_fields p))"

fun qr_encode_payloads :: "QrCodeData list \<Rightarrow> (error + js_string list) option" where
  "qr_encode_payloads [] = Some (Inr [])"
| "qr_encode_payloads (p # ps) =
    Option.bind (qr_encode_payload p) (\<lambda>r.
    case r of Inl e \<Rightarrow> Some (Inl e)
    | Inr s \<Rightarrow> map_option (\<lambda>r. bindE r (\<lambda>ss. Inr (s # ss))) (qr_encode_payloads ps))"

fun joined :: "js_string list \<Rightarrow> js_string" where
  "joined [] = []"
| "joined [s] = s"
| "joined (s # ss) = s @ of_char CHR ''*'' # joined ss"

fun split_star :: "js_string \<Rightarrow> js_string list" where
  "split_star [] = [[]]"
| "split_star (c # cs) = (if c = of_char CHR ''*'' then [] # split_star cs else (c # hd (split_star cs)) # tl (split_star cs))"

definition qr_encodeInternal :: "QrCodeData list \<Rightarrow> (error + js_string) option" where
  "qr_encodeInternal ps =
    (if ps = [] then Some (Inl ImplementationError)
     else map_option (\<lambda>r. bindE r (\<lambda>ss.
       let result = PREFIX @ joined ss
       in if length result > MATTER_QR_CODE_ALL_PAYLOAD_MAX_LENGTH then Inl UnexpectedDataError else Inr result)) (qr_encode_payloads ps))"

definition qr_encode :: "QrCodeData list \<Rightarrow> (error + js_string) option" where
  "qr_encode ps = (case qr_validate ps of Inl e \<Rightarrow> Some (Inl e) | Inr _ \<Rightarrow> qr_encodeInternal ps)"

definition num_field :: "bit_values \<Rightarrow> string \<Rightarrow> int" where
  "num_field v name = as_num (v name)"

definition qr_decode_payload :: "js_string \<Rightarrow> (error + QrCodeData) option" where
  "qr_decode_payload encodedData =
    (case base38_decode encodedData of Inl e \<Rightarrow> Some (Inl e)
     | Inr data \<Rightarrow> map_option (\<lambda>r. bindE r (\<lambda>f. Inr
        \<lparr>qr_version = num_field f ''version'', qr_vendorId = statedIdentifier (Some (num_field f ''vendorId'')),
         qr_productId = statedIdentifier (Some (num_field f ''productId'')), qr_flowType = num_field f ''flowType'',
         qr_discoveryCapabilities = num_field f ''discoveryCapabilities'', qr_discriminator = num_field f ''discriminator'',
         qr_passcode = num_field f ''passcode'', qr_tlvData = (if length data > 11 then Some (drop 11 data) else None)\<rparr>))
       (array_decode QrCodeDataSchema (take 11 data)))"

fun qr_decode_payloads :: "js_string list \<Rightarrow> (error + QrCodeData list) option" where
  "qr_decode_payloads [] = Some (Inr [])"
| "qr_decode_payloads (s # ss) =
    Option.bind (qr_decode_payload s) (\<lambda>r.
    case r of Inl e \<Rightarrow> Some (Inl e)
    | Inr p \<Rightarrow> map_option (\<lambda>r. bindE r (\<lambda>ps. Inr (p # ps))) (qr_decode_payloads ss))"

definition qr_decodeInternal :: "js_string \<Rightarrow> (error + QrCodeData list) option" where
  "qr_decodeInternal encoded =
    (if take (length PREFIX) encoded \<noteq> PREFIX then Some (Inl UnexpectedDataError)
     else qr_decode_payloads (split_star (drop (length PREFIX) encoded)))"

definition qr_decode :: "js_string \<Rightarrow> (error + QrCodeData list) option" where
  "qr_decode encoded =
    map_option (\<lambda>r. bindE r (\<lambda>ps. bindE (qr_validate ps) (\<lambda>_. bindE (qr_validateDecoded ps) (\<lambda>_. Inr ps)))) (qr_decodeInternal encoded)"

section \<open>Manual pairing codes\<close>

record ManualPairingData =
  mp_discriminator :: "int option"
  mp_shortDiscriminator :: "int option"
  mp_passcode :: int
  mp_vendorId :: "int option"
  mp_productId :: "int option"
  mp_flowType :: "int option"

text \<open>Decimal notation of a number below \<open>10 ^ 21\<close>, where \<open>toString\<close> uses no exponent, and its inverse on digits.\<close>

fun decimal :: "nat \<Rightarrow> nat list" where
  "decimal n = (if n < 10 then [n] else decimal (n div 10) @ [n mod 10])"

declare decimal.simps [simp del]

definition js_decimal :: "int \<Rightarrow> js_string" where
  "js_decimal n = (if n < 0 then [45] else []) @ map (\<lambda>d. 48 + of_nat d) (decimal (nat \<bar>n\<bar>))"

definition padStart :: "js_string \<Rightarrow> nat \<Rightarrow> js_string" where
  "padStart s w = replicate (w - length s) 48 @ s"

definition parseInt_digits :: "js_string \<Rightarrow> int" where
  "parseInt_digits s = foldl (\<lambda>a c. a * 10 + (uint c - 48)) 0 s"

definition manual_validate :: "ManualPairingData \<Rightarrow> error + unit" where
  "manual_validate m =
    bindE (assertValidPasscode (mp_passcode m)) (\<lambda>_.
    if mp_flowType m \<noteq> None \<and> mp_flowType m \<noteq> Some 0 \<and> (mp_vendorId m = None \<or> mp_productId m = None)
    then Inl UnexpectedDataError else Inr ())"

definition manual_body :: "int \<Rightarrow> int \<Rightarrow> int option \<Rightarrow> int option \<Rightarrow> js_string" where
  "manual_body discriminator passcode vendorId productId =
    (let hasVendorProductIds = (vendorId \<noteq> None \<and> productId \<noteq> None) in
     js_decimal (js_or (js_shr discriminator 10) (if hasVendorProductIds then js_shl 1 2 else 0)) @
     padStart (js_decimal (js_or (js_shl (js_and discriminator 0x300) 6) (js_and passcode 0x3fff))) 5 @
     padStart (js_decimal (js_shr passcode 14)) 4 @
     (case (vendorId, productId) of (Some v, Some p) \<Rightarrow> padStart (js_decimal v) 5 @ padStart (js_decimal p) 5 | _ \<Rightarrow> []))"

definition manual_encodeInternal :: "ManualPairingData \<Rightarrow> error + js_string" where
  "manual_encodeInternal m =
    (case mp_discriminator m of
       None \<Rightarrow> Inl UnexpectedDataError
     | Some discriminator \<Rightarrow>
         if discriminator > 4095 then Inl UnexpectedDataError
         else let result = manual_body discriminator (mp_passcode m) (mp_vendorId m) (mp_productId m)
              in bindE (computeChecksum result) (\<lambda>checksum. Inr (result @ js_decimal (int checksum))))"

definition manual_encode :: "ManualPairingData \<Rightarrow> error + js_string" where
  "manual_encode m = bindE (manual_validate m) (\<lambda>_. manual_encodeInternal m)"

definition manual_decodeInternal :: "js_string \<Rightarrow> error + ManualPairingData" where
  "manual_decodeInternal code =
    (let encoded = filter is_digit code; first = parseInt_digits (take 1 encoded) in
     if length encoded \<noteq> 11 \<and> length encoded \<noteq> 21 then Inl UnexpectedDataError
     else if first \<ge> 8 then Inl UnexpectedDataError
     else bindE (computeChecksum (butlast encoded)) (\<lambda>checksum.
       if int checksum \<noteq> parseInt_digits [last encoded] then Inl UnexpectedDataError
       else let hasVendorProductIds = (js_and first (js_shl 1 2) \<noteq> 0) in
       if hasVendorProductIds \<noteq> (length encoded = 21) then Inl UnexpectedDataError
       else
         let second = parseInt_digits (take 5 (drop 1 encoded)); third = parseInt_digits (take 4 (drop 6 encoded));
             shortDiscriminator = js_or (js_shl (js_and first 0x03) 2) (js_and (js_shr second 14) 0x3);
             passcode = js_or (js_and second 0x3fff) (js_shl third 14)
         in if hasVendorProductIds
            then bindE (case statedIdentifier (Some (parseInt_digits (take 5 (drop 10 encoded)))) of
                   None \<Rightarrow> Inr None | Some v \<Rightarrow> bindE (VendorId v) (\<lambda>v. Inr (Some v))) (\<lambda>vendorId.
              Inr \<lparr>mp_discriminator = None, mp_shortDiscriminator = Some shortDiscriminator, mp_passcode = passcode,
                mp_vendorId = vendorId, mp_productId = statedIdentifier (Some (parseInt_digits (take 5 (drop 15 encoded)))),
                mp_flowType = None\<rparr>)
            else Inr \<lparr>mp_discriminator = None, mp_shortDiscriminator = Some shortDiscriminator, mp_passcode = passcode,
                mp_vendorId = None, mp_productId = None, mp_flowType = None\<rparr>))"

definition manual_decode :: "js_string \<Rightarrow> error + ManualPairingData" where
  "manual_decode code =
    bindE (manual_decodeInternal code) (\<lambda>m.
    bindE (manual_validate m) (\<lambda>_.
    bindE (assertValidPayloadIdentity (mp_vendorId m) (mp_productId m)) (\<lambda>_. Inr m)))"

section \<open>Decimal numbers\<close>

lemma decimal_digits: "list_all (\<lambda>d. d < 10) (decimal n)"
proof (induction n rule: decimal.induct)
  case (1 n)
  then show ?case by (subst decimal.simps) simp
qed

lemma decimal_value: "foldl (\<lambda>a d. a * 10 + d) 0 (decimal n) = n"
proof (induction n rule: decimal.induct)
  case (1 n)
  then show ?case by (subst decimal.simps) simp
qed

lemma length_decimal: "length (decimal n) \<noteq> 0 \<and> (n < 10 ^ Suc k \<longleftrightarrow> length (decimal n) \<le> Suc k)"
proof (induction n arbitrary: k rule: decimal.induct)
  case (1 n)
  show ?case
  proof (cases "n < 10")
    case True
    then show ?thesis using less_le_trans [of n 10 "10 * 10 ^ k"] by (simp add: decimal.simps)
  next
    case False
    then have "length (decimal n) = Suc (length (decimal (n div 10)))" by (subst decimal.simps) simp
    moreover have "n < 10 ^ Suc k \<longleftrightarrow> (case k of 0 \<Rightarrow> False | Suc l \<Rightarrow> n div 10 < 10 ^ Suc l)"
      using False by (simp add: div_less_iff_less_mult mult.commute split: nat.split)
    ultimately show ?thesis using 1 [OF False] by (simp split: nat.splits)
  qed
qed

lemma digit_char: "d < 10 \<Longrightarrow> is_digit (48 + of_nat d) \<and> uint (48 + of_nat d :: 16 word) = 48 + int d"
proof -
  assume "d < 10"
  then have "d \<in> {0, 1, 2, 3, 4, 5, 6, 7, 8, 9}" by auto
  then show ?thesis by (elim insertE) (simp_all add: is_digit_def)
qed

lemma js_decimal_digits: "0 \<le> n \<Longrightarrow> list_all is_digit (js_decimal n)"
  using decimal_digits [of "nat n"] by (auto simp: js_decimal_def list_all_iff digit_char)

lemma parseInt_js_decimal: "0 \<le> n \<Longrightarrow> parseInt_digits (js_decimal n) = n"
proof -
  assume n: "0 \<le> n"
  have "foldl (\<lambda>a c. a * 10 + (uint c - 48)) (int a) (map (\<lambda>d. 48 + of_nat d :: 16 word) ds) = int (foldl (\<lambda>a d. a * 10 + d) a ds)"
    if "list_all (\<lambda>d. d < 10) ds" for a ds
    using that
  proof (induction ds arbitrary: a)
    case (Cons d ds)
    then show ?case using Cons.IH [of "a * 10 + d"] by (simp add: digit_char)
  qed simp
  from this [OF decimal_digits, of 0 "nat n"] n show ?thesis by (simp add: parseInt_digits_def js_decimal_def decimal_value)
qed

lemma length_js_decimal: "0 \<le> n \<Longrightarrow> n < 10 ^ Suc k \<Longrightarrow> length (js_decimal n) \<le> Suc k"
  using length_decimal [of "nat n" k] by (simp add: js_decimal_def nat_less_iff)

lemma padded:
  assumes "0 \<le> n" "n < 10 ^ Suc k"
  shows "length (padStart (js_decimal n) (Suc k)) = Suc k" "list_all is_digit (padStart (js_decimal n) (Suc k))"
    "parseInt_digits (padStart (js_decimal n) (Suc k)) = n"
proof -
  have "parseInt_digits (replicate m 48 @ s) = parseInt_digits s" for m s
    by (induction m) (simp_all add: parseInt_digits_def)
  then show "parseInt_digits (padStart (js_decimal n) (Suc k)) = n" using assms by (simp add: padStart_def parseInt_js_decimal)
  show "length (padStart (js_decimal n) (Suc k)) = Suc k" using length_js_decimal [OF assms] by (simp add: padStart_def)
  show "list_all is_digit (padStart (js_decimal n) (Suc k))"
    using js_decimal_digits [OF assms(1)] by (auto simp: padStart_def list_all_iff is_digit_def)
qed

lemma parseInt_one: "is_digit c \<Longrightarrow> parseInt_digits [c] = int (digit c)"
  by (simp add: parseInt_digits_def digit_def is_digit_def word_le_nat_alt of_nat_diff)

lemma padStart_one: "padStart (js_decimal n) (Suc 0) = js_decimal n"
  using length_decimal [of "nat \<bar>n\<bar>"] by (cases "js_decimal n") (simp_all add: padStart_def js_decimal_def)

lemma js_decimal_digit: "d < 10 \<Longrightarrow> js_decimal (int d) = [48 + of_nat d]"
  by (simp add: js_decimal_def decimal.simps)

section \<open>The manual code\<close>

lemma first_digit: "0 \<le> d \<Longrightarrow> d < 4096 \<Longrightarrow> js_or (js_shr d 10) (if c then js_shl 1 2 else 0) = d div 1024 + (if c then 4 else 0)"
proof -
  assume d: "0 \<le> d" "d < 4096"
  have "js_shr d 10 = d div 1024" using js_shr_small [of d 10] d by simp
  moreover have "js_shl 1 2 = 4" by (simp add: js_shl_def to_int32_id push_bit_eq_mult)
  moreover have "d div 1024 < 4" "0 \<le> d div 1024" using d by auto
  ultimately show ?thesis using or_low_part [of "d div 1024" 2 1] by (simp add: js_or_small or.commute)
qed

lemma js_and_mask: "js_and x (mask k) = x mod 2 ^ k" if "k \<le> 30" for x
proof -
  have "(2 :: int) ^ k \<le> 2 ^ 31" using that by (intro power_increasing) auto
  then have m: "to_int32 (mask k) = mask k" by (intro to_int32_id_nonneg) (simp_all add: mask_eq_exp_minus_1)
  have "to_int32 x AND mask k = take_bit k (to_int32 x)" by (simp add: take_bit_eq_mask)
  also have "\<dots> = take_bit k x" using that by (simp add: to_int32_def take_bit_signed_take_bit)
  finally show ?thesis by (simp add: js_and_def m take_bit_eq_mod)
qed

lemma discriminator_bits: "0 \<le> d \<Longrightarrow> d < 4096 \<Longrightarrow> js_and d 0x300 = 256 * (d div 256 mod 4)"
proof -
  assume d: "0 \<le> d" "d < 4096"
  have "d AND push_bit 8 (mask 2) = push_bit 8 (take_bit 2 (drop_bit 8 d))"
    by (rule bit_eqI) (auto simp: bit_and_iff bit_push_bit_iff bit_mask_iff bit_take_bit_iff bit_drop_bit_eq)
  then have "d AND 0x300 = push_bit 8 (take_bit 2 (drop_bit 8 d))" by (simp add: push_bit_eq_mult mask_eq_exp_minus_1)
  then show ?thesis using d by (simp add: js_and_small push_bit_eq_mult take_bit_eq_mod drop_bit_eq_div mult.commute)
qed

lemma second_number:
  assumes "0 \<le> d" "d < 4096"
  shows "js_or (js_shl (js_and d 0x300) 6) (js_and p 0x3fff) = (d div 256 mod 4) * 16384 + p mod 16384"
proof -
  have m: "js_and p 0x3fff = p mod 16384" using js_and_mask [of 14 p] by (simp add: mask_eq_exp_minus_1)
  have e: "js_shl (256 * (d div 256 mod 4)) 6 = js_shl (d div 256 mod 4) 14"
    by (simp add: js_shl_def to_int32_id push_bit_eq_mult)
  show ?thesis unfolding discriminator_bits [OF assms] m e
    using js_or_parts(2) [of "p mod 16384" 14 "d div 256 mod 4" 2] by simp
qed

lemma decode_numbers:
  assumes "0 \<le> h" "h < 4" "0 \<le> l" "l < 4" "0 \<le> p" "p < 2 ^ 27"
  shows "js_and (h + (if c then 4 else 0)) (js_shl 1 2) \<noteq> 0 \<longleftrightarrow> c"
    "js_or (js_shl (js_and (h + (if c then 4 else 0)) 0x03) 2) (js_and (js_shr (l * 16384 + p mod 16384) 14) 0x3) = h * 4 + l"
    "js_or (js_and (l * 16384 + p mod 16384) 0x3fff) (js_shl (p div 16384) 14) = p"
proof -
  have h: "h \<in> {0, 1, 2, 3}" using assms by auto
  then show "js_and (h + (if c then 4 else 0)) (js_shl 1 2) \<noteq> 0 \<longleftrightarrow> c"
    by (elim insertE) (simp_all add: js_shl_def to_int32_id push_bit_eq_mult js_and_small)
  have m: "js_and (h + (if c then 4 else 0)) 0x03 = h" "js_and x 0x3 = x mod 4" "js_and x 0x3fff = x mod 16384" for x
    using js_and_mask [of 2] js_and_mask [of 14 x] assms by (auto simp: mask_eq_exp_minus_1)
  have s: "js_shr (l * 16384 + p mod 16384) 14 = l" using js_shr_small [of "l * 16384 + p mod 16384" 14] assms by simp
  show "js_or (js_shl (js_and (h + (if c then 4 else 0)) 0x03) 2) (js_and (js_shr (l * 16384 + p mod 16384) 14) 0x3) = h * 4 + l"
    unfolding m s using js_or_parts(2) [of l 2 h 2] assms by simp
  have "p div 16384 < 2 ^ 13" using assms by simp
  then show "js_or (js_and (l * 16384 + p mod 16384) 0x3fff) (js_shl (p div 16384) 14) = p"
    unfolding m using js_or_parts(1) [of "p mod 16384" 14 "p div 16384" 13] assms by (simp add: pos_imp_zdiv_nonneg_iff)
qed

text \<open>Reading a code of eleven or twenty-one digits, given as the numbers it is made of.\<close>

lemma manual_decode_parts:
  assumes "filter is_digit code = A @ B @ C @ E @ [k]"
    and "length A = 1" "length B = 5" "length C = 4" "length E = (if c then 10 else 0)"
    and p: "parseInt_digits A = h + (if c then 4 else 0)" "parseInt_digits B = l * 16384 + p mod 16384" "parseInt_digits C = p div 16384"
    and r: "0 \<le> h" "h < 4" "0 \<le> l" "l < 4" "0 \<le> p" "p < 2 ^ 27"
    and sum: "computeChecksum (A @ B @ C @ E) = Inr n" "parseInt_digits [k] = int n"
  shows "manual_decodeInternal code =
    (if c then bindE (case statedIdentifier (Some (parseInt_digits (take 5 E))) of None \<Rightarrow> Inr None | Some v \<Rightarrow> bindE (VendorId v) (\<lambda>v. Inr (Some v))) (\<lambda>vendorId.
       Inr \<lparr>mp_discriminator = None, mp_shortDiscriminator = Some (h * 4 + l), mp_passcode = p, mp_vendorId = vendorId,
         mp_productId = statedIdentifier (Some (parseInt_digits (drop 5 E))), mp_flowType = None\<rparr>)
     else Inr \<lparr>mp_discriminator = None, mp_shortDiscriminator = Some (h * 4 + l), mp_passcode = p, mp_vendorId = None, mp_productId = None,
       mp_flowType = None\<rparr>)"
proof -
  have t: "take 1 (A @ B @ C @ E @ [k]) = A" "take 5 (drop 1 (A @ B @ C @ E @ [k])) = B" "take 4 (drop 6 (A @ B @ C @ E @ [k])) = C"
    "butlast (A @ B @ C @ E @ [k]) = A @ B @ C @ E" "last (A @ B @ C @ E @ [k]) = k" "length (A @ B @ C @ E @ [k]) = 11 + (if c then 10 else 0)"
    "c \<Longrightarrow> take 5 (drop 10 (A @ B @ C @ E @ [k])) = take 5 E" "c \<Longrightarrow> take 5 (drop 15 (A @ B @ C @ E @ [k])) = drop 5 E"
    using assms(2-5) by (simp_all add: butlast_append)
  have "h + (if c then 4 else 0) < 8" using r by simp
  then show ?thesis unfolding manual_decodeInternal_def Let_def assms(1) t p sum bindE_Inr decode_numbers [OF r]
    using t(7,8) by (cases c) simp_all
qed

lemma manual_body_parts:
  assumes "0 \<le> d" "d < 4096" "0 \<le> p" "p < 100000000"
    and ids: "\<And>a b. v = Some a \<Longrightarrow> q = Some b \<Longrightarrow> 0 \<le> a \<and> a \<le> 0xffff \<and> 0 \<le> b \<and> b \<le> 0xffff"
    and c_def: "c = (v \<noteq> None \<and> q \<noteq> None)"
  obtains A B C E where "manual_body d p v q = A @ B @ C @ E" "length A = 1" "length B = 5" "length C = 4" "length E = (if c then 10 else 0)"
    "parseInt_digits A = d div 1024 + (if c then 4 else 0)" "parseInt_digits B = (d div 256 mod 4) * 16384 + p mod 16384"
    "parseInt_digits C = p div 16384" "c \<longrightarrow> parseInt_digits (take 5 E) = the v \<and> parseInt_digits (drop 5 E) = the q"
    "list_all is_digit (A @ B @ C @ E)"
proof -
  define A where "A = js_decimal (d div 1024 + (if c then 4 else 0))"
  define B where "B = padStart (js_decimal ((d div 256 mod 4) * 16384 + p mod 16384)) 5"
  define C where "C = padStart (js_decimal (p div 16384)) 4"
  define E where "E = (case (v, q) of (Some a, Some b) \<Rightarrow> padStart (js_decimal a) 5 @ padStart (js_decimal b) 5 | _ \<Rightarrow> [])"
  have a: "0 \<le> d div 1024 + (if c then 4 else 0)" "d div 1024 + (if c then 4 else 0) < 10 ^ Suc 0" using assms(1,2) by auto
  have "A = padStart (js_decimal (d div 1024 + (if c then 4 else 0))) (Suc 0)"
    by (simp add: A_def padStart_one)
  note A = padded [OF a, folded this]
  have "0 \<le> (d div 256 mod 4) * 16384 + p mod 16384" "(d div 256 mod 4) * 16384 + p mod 16384 < 10 ^ Suc 4"
    using pos_mod_bound [of 4 "d div 256"] pos_mod_bound [of 16384 p] pos_mod_sign [of 4 "d div 256"] pos_mod_sign [of 16384 p] by simp_all
  note B = padded [OF this]
  have "0 \<le> p div 16384" "p div 16384 < 10 ^ Suc 3" using assms(3,4) by (simp_all add: pos_imp_zdiv_nonneg_iff)
  note C = padded [OF this]
  have E: "length E = (if c then 10 else 0)" "c \<Longrightarrow> parseInt_digits (take 5 E) = the v \<and> parseInt_digits (drop 5 E) = the q" "list_all is_digit E"
  proof -
    have "\<not> c \<Longrightarrow> E = []" by (auto simp: c_def E_def split: option.splits)
    moreover have "length E = 10 \<and> parseInt_digits (take 5 E) = the v \<and> parseInt_digits (drop 5 E) = the q \<and> list_all is_digit E" if c: c
    proof -
      obtain a b where ab: "v = Some a" "q = Some b" using c by (auto simp: c_def)
      have "0 \<le> a" "a < 10 ^ Suc 4" "0 \<le> b" "b < 10 ^ Suc 4" using ids [OF ab] by simp_all
      then show ?thesis using padded [of a 4] padded [of b 4] by (simp add: ab E_def)
    qed
    ultimately show "length E = (if c then 10 else 0)" "c \<Longrightarrow> parseInt_digits (take 5 E) = the v \<and> parseInt_digits (drop 5 E) = the q" "list_all is_digit E"
      by (cases c; simp)+
  qed
  have "manual_body d p v q = A @ B @ C @ E"
    using js_shr_small [of p 14] assms(1-4) by (simp add: manual_body_def Let_def first_digit second_number A_def B_def C_def E_def c_def)
  then show thesis using that [of A B C E] A B C E by (simp add: B_def C_def)
qed

text \<open>What a manual pairing code carries of the data it is made from.\<close>

definition manual_well_formed :: "ManualPairingData \<Rightarrow> bool" where
  "manual_well_formed m \<longleftrightarrow>
    (case mp_discriminator m of None \<Rightarrow> False | Some d \<Rightarrow> 0 \<le> d \<and> d < 4096) \<and> manual_validate m = Inr () \<and>
    (case (mp_vendorId m, mp_productId m) of (Some v, Some p) \<Rightarrow> 0 < v \<and> v \<le> 0xfff4 \<and> 0 < p \<and> p \<le> 0xffff | _ \<Rightarrow> True)"

definition manual_carried :: "ManualPairingData \<Rightarrow> ManualPairingData" where
  "manual_carried m =
    (let c = mp_vendorId m \<noteq> None \<and> mp_productId m \<noteq> None in
     \<lparr>mp_discriminator = None, mp_shortDiscriminator = Some (the (mp_discriminator m) div 256), mp_passcode = mp_passcode m,
      mp_vendorId = (if c then mp_vendorId m else None), mp_productId = (if c then mp_productId m else None), mp_flowType = None\<rparr>)"

lemma passcode_range: "assertValidPasscode p = Inr () \<Longrightarrow> 0 \<le> p \<and> p < 100000000"
  by (auto simp: assertValidPasscode_def isValidPasscode_def PASSCODE_MIN_def PASSCODE_MAX_def split: if_splits)

lemma checksum_digit: "list_all is_digit s \<Longrightarrow> \<exists>n < 10. computeChecksum s = Inr n"
proof -
  assume s: "list_all is_digit s"
  have "weigh (map digit (rev s)) 1 0 < 10" by (rule weigh_less) (use digits_less [of "rev s"] s in simp_all)
  moreover have "list_all (\<lambda>i. inverse_table ! i < 10) digit_range" by code_simp
  ultimately show ?thesis using computeChecksum_digits [OF s] by (simp add: in_digit_range list_all_iff)
qed

lemma manual_encode_decode:
  assumes "manual_well_formed m"
  obtains s where "manual_encode m = Inr s" "list_all is_digit s" "\<And>t. filter is_digit t = s \<Longrightarrow> manual_decode t = Inr (manual_carried m)"
proof -
  obtain d where d: "mp_discriminator m = Some d" "0 \<le> d" "d < 4096" and v: "manual_validate m = Inr ()"
    using assms by (auto simp: manual_well_formed_def split: option.splits)
  have pc: "assertValidPasscode (mp_passcode m) = Inr ()" using v by (auto simp: manual_validate_def bindE_eq_Inr_iff)
  note p = passcode_range [OF pc]
  define c where "c = (mp_vendorId m \<noteq> None \<and> mp_productId m \<noteq> None)"
  have ids: "0 < a \<and> a \<le> 0xfff4 \<and> 0 < b \<and> b \<le> 0xffff" if "mp_vendorId m = Some a" "mp_productId m = Some b" for a b
    using assms that by (simp add: manual_well_formed_def)
  have ids': "0 \<le> a \<and> a \<le> 0xffff \<and> 0 \<le> b \<and> b \<le> 0xffff" if "mp_vendorId m = Some a" "mp_productId m = Some b" for a b
    using ids [OF that] by simp
  obtain A B C E where body: "manual_body d (mp_passcode m) (mp_vendorId m) (mp_productId m) = A @ B @ C @ E"
    and len: "length A = 1" "length B = 5" "length C = 4" "length E = (if c then 10 else 0)"
    and val: "parseInt_digits A = d div 1024 + (if c then 4 else 0)" "parseInt_digits B = (d div 256 mod 4) * 16384 + mp_passcode m mod 16384"
      "parseInt_digits C = mp_passcode m div 16384"
    and E: "c \<longrightarrow> parseInt_digits (take 5 E) = the (mp_vendorId m) \<and> parseInt_digits (drop 5 E) = the (mp_productId m)"
    and dig: "list_all is_digit (A @ B @ C @ E)"
    by (rule manual_body_parts [OF d(2,3) conjunct1 [OF p] conjunct2 [OF p] ids' c_def])
  obtain n where n: "n < 10" "computeChecksum (A @ B @ C @ E) = Inr n" using checksum_digit [OF dig] by blast
  define s where "s = A @ B @ C @ E @ [48 + of_nat n]"
  have "manual_encode m = Inr s"
    using n d v by (simp add: manual_encode_def manual_encodeInternal_def Let_def body js_decimal_digit s_def)
  moreover have "list_all is_digit s" using dig digit_char [OF n(1)] by (simp add: s_def)
  moreover have "manual_decode t = Inr (manual_carried m)" if t: "filter is_digit t = s" for t
  proof -
    have k: "parseInt_digits [48 + of_nat n] = int n" using digit_char [OF n(1)] by (simp add: parseInt_digits_def)
    have r: "0 \<le> d div 1024" "d div 1024 < 4" "0 \<le> d div 256 mod 4" "d div 256 mod 4 < 4" "0 \<le> mp_passcode m" "mp_passcode m < 2 ^ 27"
      using d p by auto
    have "d div 1024 = d div 256 div 4" by (simp add: zdiv_zmult2_eq [symmetric])
    then have h: "d div 1024 * 4 + d div 256 mod 4 = d div 256" by simp
    have "manual_decodeInternal t = Inr (manual_carried m)"
    proof (cases c)
      case True
      then obtain a b where ab: "mp_vendorId m = Some a" "mp_productId m = Some b" by (auto simp: c_def)
      show ?thesis unfolding manual_decode_parts [OF t [unfolded s_def] len val r n(2) k] h
        using True E ids [OF ab] by (simp add: manual_carried_def Let_def ab d(1) statedIdentifier_def VendorId_def)
    next
      case False
      then show ?thesis unfolding manual_decode_parts [OF t [unfolded s_def] len val r n(2) k] h
        by (auto simp: manual_carried_def Let_def d(1) c_def)
    qed
    moreover have "manual_validate (manual_carried m) = Inr ()" using pc by (simp add: manual_validate_def manual_carried_def Let_def)
    moreover have "assertValidPayloadIdentity (mp_vendorId (manual_carried m)) (mp_productId (manual_carried m)) = Inr ()"
    proof (cases c)
      case True
      then obtain a b where ab: "mp_vendorId m = Some a" "mp_productId m = Some b" by (auto simp: c_def)
      show ?thesis using ids [OF ab]
        by (simp add: ab manual_carried_def assertValidPayloadIdentity_def Let_def statedIdentifier_def VendorId_def PRODUCT_ID_MAX_def is_ok_def)
    qed (auto simp: c_def manual_carried_def assertValidPayloadIdentity_def Let_def statedIdentifier_def)
    ultimately show ?thesis by (simp add: manual_decode_def)
  qed
  ultimately show thesis by (rule that)
qed

text \<open>A code that is read has a fitting check digit.\<close>

lemma manual_decode_check:
  assumes "manual_decode t = Inr m"
  obtains s c where "filter is_digit t = s @ [c]" "computeChecksum s = Inr (digit c)"
proof -
  define e where "e = filter is_digit t"
  have e: "length e = 11 \<or> length e = 21" "list_all is_digit e"
    using assms by (auto simp: manual_decode_def manual_decodeInternal_def Let_def e_def list_all_iff bindE_eq_Inr_iff split: if_splits)
  then have ne: "e \<noteq> []" by auto
  obtain n where n: "computeChecksum (butlast e) = Inr n" "int n = parseInt_digits [last e]"
    using assms by (auto simp: manual_decode_def manual_decodeInternal_def Let_def bindE_eq_Inr_iff simp flip: e_def split: if_splits)
  have "is_digit (last e)" using e(2) ne by (simp add: list_all_iff)
  then have "n = digit (last e)" using n(2) by (simp add: parseInt_one)
  then show thesis using that [of "butlast e" "last e"] n(1) ne by (simp add: e_def)
qed

lemma manual_typo:
  assumes "manual_decode s = Inr m" "typo (filter is_digit s) (filter is_digit t)"
  shows "manual_decode t = Inl UnexpectedDataError"
proof -
  define e where "e = filter is_digit t"
  obtain a c where a: "filter is_digit s = a @ [c]" "computeChecksum a = Inr (digit c)" using manual_decode_check [OF assms(1)] by blast
  have l: "length e = length (filter is_digit s)" using typo_length [OF assms(2)] by (simp add: e_def)
  have dig: "list_all is_digit e" "list_all is_digit (filter is_digit s)" by (simp_all add: e_def list_all_iff)
  obtain b d where b: "e = b @ [d]" using l a(1) by (cases e rule: rev_cases) simp_all
  have "computeChecksum b \<noteq> Inr (digit d)"
    using typo_detected [of a c b d] assms(2) a dig by (simp add: b flip: e_def)
  moreover obtain n where "computeChecksum b = Inr n" using checksum_digit [of b] dig(1) by (auto simp: b)
  moreover have "parseInt_digits [d] = int (digit d)" using dig(1) by (simp add: b parseInt_one)
  ultimately show ?thesis by (simp add: manual_decode_def manual_decodeInternal_def Let_def b flip: e_def)
qed

section \<open>The QR code\<close>

lemma split_joined: "list_all (\<lambda>s. of_char CHR ''*'' \<notin> set s) ss \<Longrightarrow> ss \<noteq> [] \<Longrightarrow> split_star (joined ss) = ss"
proof (induction ss rule: joined.induct)
  case (2 s)
  then show ?case by (induction s) auto
next
  case (3 s t ss)
  have "split_star (s @ of_char CHR ''*'' # r) = s # split_star r" if "of_char CHR ''*'' \<notin> set s" for s r
    using that by (induction s) auto
  then show ?case using 3 by simp
qed simp

lemma no_star: "of_char CHR ''*'' \<notin> set (base38_encode bs)"
proof -
  have "of_char CHR ''*'' \<notin> set BASE38_ALPHABET" by code_simp
  then show ?thesis using set_base38_encode by blast
qed

lemma qr_schema: "apart QrCodeDataSchema" "byteArrayLength QrCodeDataSchema = 11"
  by (auto simp: QrCodeDataSchema_def BitField_def BitFieldEnum_def br_bits_def byteArrayLength_def)

text \<open>Payloads that a QR code can carry: the fields fit, and an absent identifier or absent TLV data is written as such.\<close>

definition qr_well_formed :: "QrCodeData \<Rightarrow> bool" where
  "qr_well_formed p \<longleftrightarrow>
    qr_version p = 0 \<and> isValidPasscode (qr_passcode p) \<and> assertValidPayloadIdentity (qr_vendorId p) (qr_productId p) = Inr () \<and>
    qr_vendorId p \<noteq> Some 0 \<and> qr_productId p \<noteq> Some 0 \<and> 0 \<le> qr_flowType p \<and> qr_flowType p < 4 \<and>
    0 \<le> qr_discoveryCapabilities p \<and> qr_discoveryCapabilities p < 256 \<and> 0 \<le> qr_discriminator p \<and> qr_discriminator p < 4096 \<and>
    qr_tlvData p \<noteq> Some []"

lemma stated_identity:
  assumes "assertValidPayloadIdentity v p = Inr ()" "v \<noteq> Some 0" "p \<noteq> Some 0"
  shows "0 \<le> (case v of None \<Rightarrow> 0 | Some a \<Rightarrow> a)" "(case v of None \<Rightarrow> 0 | Some a \<Rightarrow> a) < 65536"
    "0 \<le> (case p of None \<Rightarrow> 0 | Some a \<Rightarrow> a)" "(case p of None \<Rightarrow> 0 | Some a \<Rightarrow> a) < 65536"
    "statedIdentifier (Some (case v of None \<Rightarrow> 0 | Some a \<Rightarrow> a)) = v" "statedIdentifier (Some (case p of None \<Rightarrow> 0 | Some a \<Rightarrow> a)) = p"
  using assms by (auto simp: assertValidPayloadIdentity_def statedIdentifier_def VendorId_def PRODUCT_ID_MAX_def Let_def is_ok_def split: option.splits if_splits)

lemma passcode_bits: "isValidPasscode c \<Longrightarrow> 0 \<le> c \<and> c < 2 ^ 27"
  by (simp add: isValidPasscode_def PASSCODE_MIN_def PASSCODE_MAX_def)

definition qr_bytes :: "QrCodeData \<Rightarrow> bytes \<Rightarrow> bytes" where
  "qr_bytes p bs = bs @ (case qr_tlvData p of None \<Rightarrow> [] | Some t \<Rightarrow> t)"

lemma qr_payload:
  assumes "qr_well_formed p"
  obtains bs where "array_encode QrCodeDataSchema (qr_fields p) = Some bs" "length bs = 11"
    "qr_decode_payload (base38_encode (qr_bytes p bs)) = Some (Inr p)"
proof -
  note wf = assms [unfolded qr_well_formed_def]
  note id = stated_identity [of "qr_vendorId p" "qr_productId p"] and pc = passcode_bits [of "qr_passcode p"]
  have fit: "list_all (\<lambda>(n, b). fits b (qr_fields p n)) QrCodeDataSchema"
    using wf id pc by (simp add: QrCodeDataSchema_def qr_fields_def fits_def BitField_def BitFieldEnum_def)
  obtain bs where f: "array_encode QrCodeDataSchema (qr_fields p) = Some bs" "length bs = 11"
    "array_decode QrCodeDataSchema bs = Some (Inr (qr_fields p))"
  proof -
    have "qr_fields p |` (fst ` set QrCodeDataSchema) = qr_fields p"
      by (rule ext) (auto simp: restrict_map_def QrCodeDataSchema_def qr_fields_def)
    then show thesis using array_decode_encode [OF qr_schema(1) fit] qr_schema(2) that by metis
  qed
  show thesis
  proof (rule that [OF f(1,2)])
    have "qr_tlvData p = (if length (qr_bytes p bs) > 11 then Some (drop 11 (qr_bytes p bs)) else None)"
      using wf f(2) by (auto simp: qr_bytes_def split: option.splits)
    moreover have "take 11 (qr_bytes p bs) = bs" using f(2) by (simp add: qr_bytes_def)
    ultimately show "qr_decode_payload (base38_encode (qr_bytes p bs)) = Some (Inr p)"
      using wf id by (simp add: qr_decode_payload_def base38_decode_encode f(3) num_field_def qr_fields_def)
  qed
qed

lemma qr_encode_payload_wf:
  assumes "qr_well_formed p"
  obtains bs where "length bs = 11" "qr_decode_payload (base38_encode (qr_bytes p bs)) = Some (Inr p)"
    "qr_encode_payload p = Some (if length PREFIX + length (base38_encode (qr_bytes p bs)) > MATTER_QR_CODE_SINGLE_PAYLOAD_MAX_LENGTH
       then Inl UnexpectedDataError else Inr (base38_encode (qr_bytes p bs)))"
proof (rule qr_payload [OF assms])
  fix bs
  assume b: "array_encode QrCodeDataSchema (qr_fields p) = Some bs" "length bs = 11" "qr_decode_payload (base38_encode (qr_bytes p bs)) = Some (Inr p)"
  have "(case qr_tlvData p of None \<Rightarrow> bs | Some t \<Rightarrow> if length t > 0 then bs @ t else bs) = qr_bytes p bs"
    by (auto simp: qr_bytes_def split: option.split)
  then show thesis using that [OF b(2,3)] b(1) by (simp add: qr_encode_payload_def Let_def)
qed

lemma qr_payloads:
  "list_all qr_well_formed ps \<Longrightarrow> qr_encode_payloads ps = Some (Inr ss) \<Longrightarrow>
    qr_decode_payloads ss = Some (Inr ps) \<and> list_all (\<lambda>s. of_char CHR ''*'' \<notin> set s) ss \<and> length ss = length ps"
proof (induction ps arbitrary: ss)
  case (Cons p ps)
  obtain r where "qr_encode_payload p = Some r" using Cons.prems(2) by (auto simp: bind_eq_Some_conv)
  then obtain s where s: "qr_encode_payload p = Some (Inr s)" using Cons.prems(2) by (cases r) simp_all
  then obtain rs where rs: "qr_encode_payloads ps = Some (Inr rs)" "ss = s # rs" using Cons.prems(2) by (auto simp: bindE_eq_Inr_iff)
  obtain bs where "qr_decode_payload s = Some (Inr p)" "s = base38_encode bs"
  proof (rule qr_encode_payload_wf [of p])
    show "qr_well_formed p" using Cons.prems(1) by simp
  qed (use s that in \<open>auto split: if_splits\<close>)
  then show ?case using Cons.IH [OF _ rs(1)] Cons.prems(1) rs(2) no_star by simp
qed simp

lemma qr_valid: "list_all qr_well_formed ps \<Longrightarrow> qr_validate ps = Inr () \<and> qr_validateDecoded ps = Inr ()"
  by (induction ps) (simp_all add: qr_validate_def qr_validateDecoded_def qr_well_formed_def assertValidPasscode_def)

lemma base38_capacity:
  fixes n :: nat
  shows "3 + (5 * ((11 + n) div 3) + 2 * ((11 + n) mod 3)) \<le> 255 \<longleftrightarrow> n \<le> 140"
proof -
  obtain q r where q: "(11 + n) div 3 = q" "(11 + n) mod 3 = r" by simp
  then have "11 + n = 3 * q + r" "r < 3" using div_mult_mod_eq [of "11 + n" 3] by simp_all
  then show ?thesis unfolding q by linarith
qed

text \<open>A QR code holds at most 140 bytes of TLV data.\<close>

lemma qr_code_capacity:
  assumes "qr_well_formed p"
  shows "(\<exists>s. qr_encode [p] = Some (Inr s)) \<longleftrightarrow> length (case qr_tlvData p of None \<Rightarrow> [] | Some t \<Rightarrow> t) \<le> 140"
proof (rule qr_encode_payload_wf [OF assms])
  fix bs
  assume l: "length bs = 11" and e: "qr_encode_payload p = Some (if length PREFIX + length (base38_encode (qr_bytes p bs)) >
    MATTER_QR_CODE_SINGLE_PAYLOAD_MAX_LENGTH then Inl UnexpectedDataError else Inr (base38_encode (qr_bytes p bs)))"
  define n where "n = length (case qr_tlvData p of None \<Rightarrow> [] | Some t \<Rightarrow> t)"
  have "length (base38_encode (qr_bytes p bs)) = 5 * ((11 + n) div 3) + 2 * ((11 + n) mod 3)"
    by (simp add: length_base38_encode qr_bytes_def l n_def)
  moreover note base38_capacity [of n]
  ultimately show ?thesis using e qr_valid [of "[p]"] assms
    by (auto simp: qr_encode_def qr_encodeInternal_def PREFIX_def MATTER_QR_CODE_SINGLE_PAYLOAD_MAX_LENGTH_def
      MATTER_QR_CODE_ALL_PAYLOAD_MAX_LENGTH_def Let_def simp flip: n_def)
qed

text \<open>A payload of a code tested in the repository.\<close>

definition example_payload :: QrCodeData where
  "example_payload = \<lparr>qr_version = 0, qr_vendorId = Some 9050, qr_productId = Some 65279, qr_flowType = 0, qr_discoveryCapabilities = 2,
     qr_discriminator = 2976, qr_passcode = 34567890, qr_tlvData = Some [1, 2, 3]\<rparr>"

lemma example_payload_code: "qr_encode [example_payload] = Some (Inr (map of_char ''MT:YNJV7VSC00CMVH7E4810AK00''))"
  by code_simp

section \<open>Properties\<close>

text \<open>
  C30: QR codes round trip: reading the code of a list of well-formed payloads gives the payloads back, with their TLV data and
  with absent identifiers absent.
\<close>

theorem qr_code_roundtrip:
  assumes "list_all qr_well_formed ps" "qr_encode ps = Some (Inr s)"
  shows "qr_decode s = Some (Inr ps)"
proof -
  obtain ss where ss: "qr_encode_payloads ps = Some (Inr ss)" "s = PREFIX @ joined ss" "ps \<noteq> []"
    using assms(2) qr_valid [OF assms(1)] by (auto simp: qr_encode_def qr_encodeInternal_def bindE_eq_Inr_iff Let_def split: if_splits)
  note p = qr_payloads [OF assms(1) ss(1)]
  then have "ss \<noteq> []" using ss(3) by auto
  then have "qr_decode_payloads (split_star (joined ss)) = Some (Inr ps)" using p split_joined [of ss] by simp
  then show ?thesis using qr_valid [OF assms(1)] by (simp add: qr_decode_def qr_decodeInternal_def ss(2))
qed

theorem qr_code_roundtrip_witness:
  "qr_encode [example_payload] = Some (Inr (map of_char ''MT:YNJV7VSC00CMVH7E4810AK00'')) \<and>
    qr_decode (map of_char ''MT:YNJV7VSC00CMVH7E4810AK00'') = Some (Inr [example_payload])"
proof -
  have "list_all qr_well_formed [example_payload]" by code_simp
  from qr_code_roundtrip [OF this example_payload_code] show ?thesis using example_payload_code by simp
qed

text \<open>
  C31: manual pairing codes round trip: every well-formed data is encoded, and its code, also with other characters in
  between, is read as the short discriminator, the passcode and the identifiers when both are given.
\<close>

theorem manual_code_roundtrip:
  assumes "manual_well_formed m"
  shows "\<exists>s. manual_encode m = Inr s \<and> list_all is_digit s \<and> (\<forall>t. filter is_digit t = s \<longrightarrow> manual_decode t = Inr (manual_carried m))"
  using manual_encode_decode [OF assms] by metis

theorem manual_code_roundtrip_witness:
  "\<exists>s. manual_encode \<lparr>mp_discriminator = Some 2001, mp_shortDiscriminator = None, mp_passcode = 23456789,
      mp_vendorId = None, mp_productId = None, mp_flowType = None\<rparr> = Inr s \<and>
    manual_decode (s @ map of_char ''--'') = Inr \<lparr>mp_discriminator = None, mp_shortDiscriminator = Some 7, mp_passcode = 23456789,
      mp_vendorId = None, mp_productId = None, mp_flowType = None\<rparr>"
proof -
  define m where "m = \<lparr>mp_discriminator = Some 2001, mp_shortDiscriminator = None, mp_passcode = 23456789,
    mp_vendorId = None, mp_productId = None, mp_flowType = None\<rparr>"
  have "manual_well_formed m" unfolding m_def by code_simp
  from manual_code_roundtrip [OF this] obtain s where s: "manual_encode m = Inr s" "list_all is_digit s"
    "filter is_digit t = s \<longrightarrow> manual_decode t = Inr (manual_carried m)" for t by blast
  have "filter is_digit (map of_char ''--'') = []" by code_simp
  moreover have "filter is_digit s = s" using s(2) by (simp add: filter_id_conv list_all_iff)
  ultimately have "manual_decode (s @ map of_char ''--'') = Inr (manual_carried m)" using s(3) [of "s @ map of_char ''--''"] by simp
  then show ?thesis using s(1) by (auto simp: m_def manual_carried_def)
qed

text \<open>
  C32: a manual pairing code that is accepted is refused once one of its digits is mistyped or two neighbouring digits are
  swapped.
\<close>

theorem manual_code_typo_refused:
  assumes "manual_decode s = Inr m" "typo (filter is_digit s) (filter is_digit t)"
  shows "manual_decode t = Inl UnexpectedDataError"
  using manual_typo [OF assms] .

theorem manual_code_typo_refused_witness: "manual_decode (map of_char ''16043741310'') = Inl UnexpectedDataError"
proof -
  have "manual_decode (map of_char ''16043714310'') = Inr \<lparr>mp_discriminator = None, mp_shortDiscriminator = Some 7, mp_passcode = 23456789,
    mp_vendorId = None, mp_productId = None, mp_flowType = None\<rparr>" by code_simp
  moreover have "typo (filter is_digit (map of_char ''16043714310'')) (filter is_digit (map of_char ''16043741310''))"
    unfolding typo_def
    by (intro exI [of _ "map of_char ''160437''"] exI [of _ "of_char CHR ''1''"] exI [of _ "of_char CHR ''4''"] exI [of _ "map of_char ''310''"]) code_simp
  ultimately show ?thesis by (rule manual_code_typo_refused)
qed

end
