(* ===== verification/Spec2Isabelle.thy ===== *)
theory Spec2Isabelle
  imports Tlv_Codec Secure_Session Reception_State Message_Counter Btp_Link Access_Control Pairing_Code
begin

text \<open>
  Verification of matter.js, an implementation of the Matter smart home protocol in TypeScript.

  \<^bold>\<open>Parts of the program and how they interact.\<close>  Values are encoded by a tag-length-value codec and bitmap schemas
  (\<open>packages/types\<close>) on top of byte readers and writers (\<open>packages/general\<close>).  Messages are framed by the message codec,
  sealed and opened by unicast and group sessions, numbered by message counters and protected against replay by
  the reception state (\<open>packages/protocol\<close>).  During commissioning they travel over Bluetooth, cut into segments by the
  BTP session.  The interaction layer asks the access control of the fabric what a session may do with an element
  of the data model (\<open>packages/protocol\<close>, \<open>packages/model\<close>).

  \<^bold>\<open>Theories.\<close>  Each theory models the files named with it; definitions keep the names of the source.

    \<^item> \<open>Prelude\<close>: errors and results, JavaScript integer operators (32-bit shifts and masks, conversion of large integers to
      numbers), byte strings and their little-endian values.
    \<^item> \<open>Js_Text\<close>, \<open>Js_Float\<close>: strings as UTF-16 code units with the UTF-8 encoder and decoder of the platform, and IEEE 754
      numbers as bit patterns with rounding from double to single precision.
    \<^item> \<open>Data_IO\<close>: \<open>DataReader\<close>, \<open>DataWriter\<close>, \<open>Bytes.areEqual\<close>, \<open>Bytes.asBigInt\<close>; the locale \<open>codec\<close> for encoders and decoders.
    \<^item> \<open>Bitmap_Schema\<close>: \<open>BitmapSchema.ts\<close>, bitmaps in a number and in an array of bytes.
    \<^item> \<open>Base38\<close>, \<open>Verhoeff\<close>, \<open>Pairing_Code\<close>: \<open>Base38Schema.ts\<close>, \<open>Verhoeff.ts\<close>, \<open>PairingCodeSchema.ts\<close>, the QR code and the manual pairing
      code a device is commissioned with.
    \<^item> \<open>Tlv_Codec\<close>: \<open>TlvCodec.ts\<close>, tags and primitive values.
    \<^item> \<open>Identifiers\<close>: \<open>NodeId.ts\<close>, \<open>GroupId.ts\<close>, \<open>CaseAuthenticatedTag.ts\<close>.
    \<^item> \<open>Message_Codec\<close>: \<open>MessageCodec.ts\<close>, packet and payload headers.
    \<^item> \<open>Secure_Session\<close>: \<open>NodeSession.ts\<close>, \<open>GroupSession.ts\<close>, \<open>MessagePrivacy.ts\<close>, \<open>Session.generateNonce\<close>.  The crypto provider, an
      abstract class that each platform implements, is a record of functions; its documented behaviour is the hypothesis \<open>crypto_contract\<close>.
    \<^item> \<open>Reception_State\<close>: \<open>MessageReceptionState.ts\<close>, the locale \<open>reception_class\<close> and its interpretation on the three classes.
    \<^item> \<open>Message_Counter\<close>: \<open>MessageCounter.ts\<close>, plain and persisted counters.
    \<^item> \<open>Btp_Codec\<close>, \<open>Btp_Session\<close>: \<open>BtpCodec.ts\<close>, \<open>BtpSessionHandler.ts\<close>, \<open>BleConsts.ts\<close>.  The asynchronous handler is a state with
      a list of suspended tasks, one for each \<open>await\<close> that is pending; \<open>btp_step\<close> is one event or resumption.
    \<^item> \<open>Btp_Link\<close>: two such sessions joined by a channel that keeps the order of packets.
    \<^item> \<open>Access_Model\<close>: \<open>Access.ts\<close>, the access qualities of the data model, their notation and their inheritance.
    \<^item> \<open>Access_Control\<close>: \<open>AccessControl.ts\<close>, \<open>FabricAccessControl.ts\<close>, \<open>subjectMatches.ts\<close>.

  \<^bold>\<open>Correspondence.\<close>  A number or bigint is an \<open>int\<close>, with the 32-bit operators written out where the source uses them; bytes are
  \<open>8 word list\<close>.  A class is a record and its methods are functions that return the changed record.  Whatever throws returns
  \<open>error + 'a\<close>, with the class of the exception as the error.  Loops are recursive functions; all are total, so no fuel
  is used anywhere.

  \<^bold>\<open>What is shown.\<close>  Round trips of every codec, with the exact set of accepted inputs or the values for which the round trip
  fails; end-to-end recovery of sealed messages; replay protection for each counter class, as a refinement of
  a set of seen positions, also for counters that roll over; that a persisted counter never issues a value twice across
  restarts before its range is used up; the exact subranges of the node id space; the
  invariants of the BTP session in all interleavings, and that two linked sessions deliver each other's messages; that the access control list grants exactly what its
  entries stand for, within its fabric, that the two faces of an enforcer agree, what fabric sensitivity adds to its
  decisions, and which definition of a chain an inherited access quality comes from.

  \<^bold>\<open>Not modelled.\<close>  Cryptographic primitives and key derivation (a parameter); transports, timers and storage drivers
  (events and parameters); logging and diagnostics; the model of clusters and the code generated from it; behaviors, endpoints and
  the node life cycle, which are assembled at run time by reflection over that model; the session manager
  and exchange manager beyond the operations named above.
\<close>

end
